(* ===== verification/Prelude.thy ===== *)
theory Prelude
  imports
    "HOL-Library.Word"
    "HOL-Library.Finite_Map"
    "HOL-Library.Char_ord"
    "HOL-Library.List_Lexorder"
begin

text \<open>
  Shared vocabulary of the development: the machine integers of the Rust code as words, the standard
  library's saturating arithmetic, its ordered and hashed maps as finite maps, results as sums, and
  the datatype of errors.  The lemmas on words and finite maps below are the ones the component
  theories rest on; they are collected in \<open>u64_simps\<close> and \<open>result_simps\<close>.
\<close>

named_theorems u64_simps \<open>order and successor facts on 64-bit words\<close>
named_theorems result_simps \<open>inversion of sequenced fallible computations\<close>

section \<open>Machine integers\<close>

type_synonym u8 = "8 word"
type_synonym u32 = "32 word"
type_synonym u64 = "64 word"
type_synonym usize = "64 word"
type_synonym bytes = "u8 list"
type_synonym cursor = u64
type_synonym node_id = bytes

text \<open>The largest value of the type, \<open>T::MAX\<close> in the source.\<close>

abbreviation top_word :: "'a::len word" where
  "top_word \<equiv> - 1"

text \<open>\<open>u64::saturating_add\<close> and \<open>u64::saturating_sub\<close>.\<close>

definition sat_add :: "'a::len word \<Rightarrow> 'a word \<Rightarrow> 'a word" where
  "sat_add a b = (if unat a + unat b < 2 ^ LENGTH('a) then a + b else top_word)"

definition sat_sub :: "'a::len word \<Rightarrow> 'a word \<Rightarrow> 'a word" where
  "sat_sub a b = (if b \<le> a then a - b else 0)"

lemma unat_top: "unat (top_word :: 'a::len word) = 2 ^ LENGTH('a) - 1"
  by (metis unsigned_minus_1_eq_mask mask_nat_def)

lemma unat_sat_add:
  fixes a b :: "'a::len word"
  shows "unat (sat_add a b) = min (unat a + unat b) (2 ^ LENGTH('a) - 1)"
proof (cases "unat a + unat b < 2 ^ LENGTH('a)")
  case True
  then show ?thesis by (simp add: sat_add_def unat_word_ariths)
next
  case False
  then have "sat_add a b = top_word" by (simp add: sat_add_def)
  then show ?thesis using False by (simp add: unat_top)
qed

lemma unat_sat_sub: "unat (sat_sub a b) = unat a - unat b"
  by (simp add: sat_sub_def unat_sub word_le_nat_alt)

lemma sat_sub_eq_0_iff: "sat_sub a b = 0 \<longleftrightarrow> a \<le> b"
  by (metis diff_is_0_eq unat_eq_zero unat_sat_sub word_le_nat_alt)

lemma sat_sub_self [simp]: "sat_sub a a = 0"
  by (simp add: sat_sub_eq_0_iff)

lemma unat_inc: "c \<noteq> top_word \<Longrightarrow> unat (c + 1) = Suc (unat (c :: 'a::len word))"
  by (metis Suc_eq_plus1 add.commute unatSuc word_succ_p1 add.inverse_inverse add_eq_0_iff2)

lemma less_not_top: "c < d \<Longrightarrow> (c :: 'a::len word) \<noteq> top_word"
  using word_order.extremum_strict by auto

lemma less_inc_iff [u64_simps]:
  "c \<noteq> top_word \<Longrightarrow> (d < c + 1) = (d \<le> (c :: 'a::len word))"
  by (simp add: word_less_nat_alt word_le_nat_alt unat_inc less_Suc_eq_le)

lemma inc_le_iff [u64_simps]:
  "c \<noteq> top_word \<Longrightarrow> (c + 1 \<le> d) = ((c :: 'a::len word) < d)"
  by (simp add: word_less_nat_alt word_le_nat_alt unat_inc Suc_le_eq)

lemma inc_neq_0 [u64_simps]: "c \<noteq> top_word \<Longrightarrow> (c :: 'a::len word) + 1 \<noteq> 0"
  by (simp add: add_eq_0_iff2)

lemma less_inc_self: "c \<noteq> top_word \<Longrightarrow> (c :: 'a::len word) < c + 1"
  by (simp add: less_inc_iff)

lemma unat_of_nat_small: "n < 2 ^ LENGTH('a) \<Longrightarrow> unat (of_nat n :: 'a::len word) = n"
  by (simp add: unat_of_nat take_bit_nat_eq_self)

lemma unat_u64_less: "unat (w :: u64) < 2 ^ 64"
  using unsigned_less[of w, where ?'a = nat] by simp

text \<open>Adding a count that stays within the type.\<close>

lemma unat_add_of_nat:
  "unat w + n < 2 ^ LENGTH('a) \<Longrightarrow> unat (w + of_nat n :: 'a::len word) = unat w + n"
  by (simp add: unat_word_ariths unat_of_nat take_bit_nat_eq_self flip: take_bit_eq_mod)

section \<open>Maps of the standard library\<close>

text \<open>
  \<open>BTreeMap\<close> and \<open>HashMap\<close> are finite maps: \<open>get\<close> is \<^const>\<open>fmlookup\<close>, \<open>insert\<close> is \<^const>\<open>fmupd\<close>,
  \<open>remove\<close> is \<^const>\<open>fmdrop\<close> and \<open>retain\<close> is \<^const>\<open>fmfilter\<close>.  The keys of a \<open>BTreeMap\<close> are
  iterated in ascending order.
\<close>

definition keys :: "('k::linorder, 'v) fmap \<Rightarrow> 'k list" where
  "keys m = sorted_list_of_fset (fmdom m)"

definition map_len :: "('k, 'v) fmap \<Rightarrow> nat" where
  "map_len m = fcard (fmdom m)"

definition contains_key :: "('k, 'v) fmap \<Rightarrow> 'k \<Rightarrow> bool" where
  "contains_key m k \<longleftrightarrow> fmlookup m k \<noteq> None"

lemma set_keys [simp]: "set (keys m) = fmdom' m"
  by (simp add: keys_def fmdom'_alt_def)

lemma keys_sorted [simp]: "sorted (keys m)" "distinct (keys m)"
  by (simp_all add: keys_def sorted_list_of_fset.rep_eq)

lemma length_keys: "length (keys m) = map_len m"
  by (simp add: keys_def map_len_def sorted_list_of_fset.rep_eq fcard.rep_eq)

lemma contains_key_fmdom' [simp]: "contains_key m k \<longleftrightarrow> k \<in> fmdom' m"
  by (auto simp: contains_key_def fmlookup_dom'_iff)

lemma map_len_empty [simp]: "map_len fmempty = 0"
  by (simp add: map_len_def fcard_fempty)

lemma map_len_upd: "map_len (fmupd k v m) = (if k \<in> fmdom' m then map_len m else Suc (map_len m))"
  by (simp add: map_len_def fcard_finsert_if fmdom'_alt_def)

lemma map_len_drop: "map_len (fmdrop k m) = (if k \<in> fmdom' m then map_len m - 1 else map_len m)"
  by (simp add: map_len_def fcard_fminus_fsingleton_if fmdom'_alt_def)

lemma map_len_drop_less: "k \<in> fmdom' m \<Longrightarrow> map_len (fmdrop k m) < map_len m"
  by (metis fcard_fminus1_less fmdom'_alt_def fmdom_drop map_len_def)

lemma map_len_card: "map_len m = card (fmdom' m)"
  by (simp add: map_len_def fcard.rep_eq fmdom'_alt_def)

lemma map_len_0: "map_len m = 0 \<longleftrightarrow> m = fmempty"
proof
  assume "map_len m = 0"
  then have "fmdom m = {||}" by (simp add: map_len_def)
  then show "m = fmempty" by (intro fmap_ext) (simp add: fmdom_notD)
qed simp

section \<open>Results\<close>

text \<open>
  A fallible function returns \<open>error + 'a\<close>: \<open>Inl\<close> for \<open>Err\<close>, \<open>Inr\<close> for \<open>Ok\<close>.
  \<open>and_then\<close> is the \<open>?\<close> operator: the first error returns early.  \<open>map_err\<close> is the method of
  the same name.
\<close>

definition and_then :: "'e + 'a \<Rightarrow> ('a \<Rightarrow> 'e + 'b) \<Rightarrow> 'e + 'b" where
  "and_then r f = (case r of Inl e \<Rightarrow> Inl e | Inr a \<Rightarrow> f a)"

definition map_err :: "('e \<Rightarrow> 'f) \<Rightarrow> 'e + 'a \<Rightarrow> 'f + 'a" where
  "map_err g r = (case r of Inl e \<Rightarrow> Inl (g e) | Inr a \<Rightarrow> Inr a)"

definition is_ok :: "'e + 'a \<Rightarrow> bool" where
  "is_ok r \<longleftrightarrow> (case r of Inl _ \<Rightarrow> False | Inr _ \<Rightarrow> True)"

lemma and_then_simps [simp]:
  "and_then (Inl e) f = Inl e" "and_then (Inr a) f = f a"
  by (simp_all add: and_then_def)

lemma map_err_simps [simp]:
  "map_err g (Inl e) = Inl (g e)" "map_err g (Inr a) = Inr a"
  by (simp_all add: map_err_def)

lemma is_ok_simps [simp]: "\<not> is_ok (Inl e)" "is_ok (Inr a)"
  by (simp_all add: is_ok_def)

lemma is_ok_iff: "is_ok r \<longleftrightarrow> (\<exists>a. r = Inr a)"
  by (cases r) auto

lemma and_then_eq_Inr [result_simps]:
  "and_then r f = Inr b \<longleftrightarrow> (\<exists>a. r = Inr a \<and> f a = Inr b)"
  by (cases r) auto

lemma map_err_eq_Inr [result_simps]: "map_err g r = Inr b \<longleftrightarrow> r = Inr b"
  by (cases r) auto

section \<open>Errors\<close>

text \<open>
  One constructor for each place where the code builds an error, with the values it formats as
  arguments.  \<open>External\<close> carries the text of an error that a library outside the repository
  returned.  \<open>Context\<close> is \<open>anyhow\<close>'s \<open>context\<close>, and \<open>Wrapped\<close> the \<open>format!("<prefix>: {e}")\<close> of
  the code, both with the prefix as it stands there.
\<close>

datatype (plugins del: "quickcheck") message_error =
    Topic_empty
  | Topic_too_long nat
  | Topic_bad_characters string
  | Payload_too_large nat
  | Too_many_attributes nat
  | Attribute_key_empty
  | Attribute_key_too_long string nat
  | Attribute_value_too_long string nat
  | Ordering_key_too_long nat
  | Filter_missing_equals nat
  | Filter_value_not_quoted string
  | Filter_value_unterminated string
  | Filter_key_empty

datatype (plugins del: "quickcheck") request_error =
    Request_too_large nat
  | Payload_hex_too_large nat
  | Idempotency_key_too_long nat
  | Reply_too_large nat

datatype (plugins del: "quickcheck") error =
    External string
  | Context string error
  | Wrapped string error
  | Message message_error
  | Request request_error
  | Bad_ack_deadline u64
  | Node_id_length
  | Empty_chain
  | No_topic_scope
  | Scope_mismatch string string
  | Duplicate_request
  | No_publish_grant
  | No_subscribe_grant
  | Subscription_limit
  | No_such_subscription string
  | Unexpected_reply
  | Bad_attribute_argument string
  | No_payload
  | Owner_required
  | Audience_length

section \<open>Unwrapping\<close>

text \<open>
  \<open>unwrap\<close> in a test: the rest of the test when there is a value.  A test that panics, or calls what does not
  return, fails.
\<close>

definition unwrap :: "'a option \<Rightarrow> ('a \<Rightarrow> bool) \<Rightarrow> bool" where
  "unwrap x P = (case x of None \<Rightarrow> False | Some a \<Rightarrow> P a)"

definition unwrap_ok :: "error + 'a \<Rightarrow> ('a \<Rightarrow> bool) \<Rightarrow> bool" where
  "unwrap_ok x P = (case x of Inl _ \<Rightarrow> False | Inr a \<Rightarrow> P a)"

lemma unwrap_simps [simp]:
  "unwrap (Some a) P = P a" "unwrap None P = False" "unwrap_ok (Inr b) Q = Q b" "unwrap_ok (Inl e) Q = False"
  by (simp_all add: unwrap_def unwrap_ok_def)

end
