(* ===== verification/Message.thy ===== *)
theory Message
  imports Prelude
begin

text \<open>
  The message model of \<open>src/src/message.rs\<close>: messages, publish options, their validation, the attribute
  filter with its parser, and the names under which a topic appears on the mesh.

  A Rust \<open>String\<close> is its list of UTF-8 bytes, so \<open>len()\<close> is \<^const>\<open>length\<close>.  The \<open>hex\<close> crate is not
  part of the repository: its two functions are a parameter, the record \<open>hex_codec\<close>, and
  \<open>hex_contract\<close> states what the code relies on.
\<close>

section \<open>The hex crate, as a parameter\<close>

record hex_codec =
  hex_encode :: "bytes \<Rightarrow> string"
  hex_decode :: "string \<Rightarrow> error + bytes"

text \<open>Decoding inverts encoding, and a decoded text has two digits for each byte.\<close>

definition hex_contract :: "hex_codec \<Rightarrow> bool" where
  "hex_contract hx \<longleftrightarrow>
     (\<forall>bs. hex_decode hx (hex_encode hx bs) = Inr bs) \<and>
     (\<forall>s bs. hex_decode hx s = Inr bs \<longrightarrow> length s = 2 * length bs)"

lemma hex_contractD:
  assumes "hex_contract hx"
  shows "hex_decode hx (hex_encode hx bs) = Inr bs"
    and "hex_decode hx s = Inr bs \<Longrightarrow> length s = 2 * length bs"
    and "length (hex_encode hx bs) = 2 * length bs"
  using assms by (auto simp: hex_contract_def)

section \<open>Bounds\<close>

definition MAX_PAYLOAD_BYTES :: nat where "MAX_PAYLOAD_BYTES = 10 * 1024 * 1024"
definition MAX_ATTRIBUTES :: nat where "MAX_ATTRIBUTES = 100"
definition MAX_ATTRIBUTE_LEN :: nat where "MAX_ATTRIBUTE_LEN = 1024"

section \<open>Messages\<close>

record message =
  msg_cursor :: cursor
  publisher :: string
  payload_hex :: string
  published_at :: u64
  ordering_key :: "string option"
  attributes :: "(string, string) fmap"
  publisher_authenticated :: bool

definition new_message :: "hex_codec \<Rightarrow> cursor \<Rightarrow> string \<Rightarrow> bytes \<Rightarrow> u64 \<Rightarrow> message" where
  "new_message hx c pub payload at =
     \<lparr>msg_cursor = c, publisher = pub, payload_hex = hex_encode hx payload, published_at = at,
      ordering_key = None, attributes = fmempty, publisher_authenticated = False\<rparr>"

definition with_ordering_key :: "message \<Rightarrow> string \<Rightarrow> message" where
  "with_ordering_key m k = m\<lparr>ordering_key := Some k\<rparr>"

definition with_attributes :: "message \<Rightarrow> (string, string) fmap \<Rightarrow> message" where
  "with_attributes m attrs = m\<lparr>attributes := attrs\<rparr>"

definition authenticated :: "message \<Rightarrow> bool \<Rightarrow> message" where
  "authenticated m yes = m\<lparr>publisher_authenticated := yes\<rparr>"

definition message_data :: "hex_codec \<Rightarrow> message \<Rightarrow> error + bytes" where
  "message_data hx m = map_err (Wrapped ''bad payload hex'') (hex_decode hx (payload_hex m))"

lemma message_data_new: "hex_contract hx \<Longrightarrow> message_data hx (new_message hx c pub payload at) = Inr payload"
  by (simp add: message_data_def new_message_def hex_contractD)

section \<open>Validation\<close>

definition validate_payload :: "bytes \<Rightarrow> error + unit" where
  "validate_payload payload =
     (if length payload > MAX_PAYLOAD_BYTES then Inl (Message (Payload_too_large (length payload)))
      else Inr ())"

text \<open>The \<open>for\<close> loop over the map, in ascending key order, up to the first bad entry.\<close>

fun check_attributes :: "(string \<times> string) list \<Rightarrow> error + unit" where
  "check_attributes [] = Inr ()"
| "check_attributes ((k, v) # rest) =
     (if k = [] then Inl (Message Attribute_key_empty)
      else if length k > MAX_ATTRIBUTE_LEN then Inl (Message (Attribute_key_too_long k (length k)))
      else if length v > MAX_ATTRIBUTE_LEN then Inl (Message (Attribute_value_too_long k (length v)))
      else check_attributes rest)"

definition validate_attributes :: "(string, string) fmap \<Rightarrow> error + unit" where
  "validate_attributes attrs =
     (if map_len attrs > MAX_ATTRIBUTES then Inl (Message (Too_many_attributes (map_len attrs)))
      else check_attributes (sorted_list_of_fmap attrs))"

definition validate_ordering_key :: "string option \<Rightarrow> error + unit" where
  "validate_ordering_key key =
     (case key of
        Some k \<Rightarrow> if length k > MAX_ATTRIBUTE_LEN then Inl (Message (Ordering_key_too_long (length k)))
                  else Inr ()
      | None \<Rightarrow> Inr ())"

record publish_options =
  opt_ordering_key :: "string option"
  opt_attributes :: "(string, string) fmap"

definition new_options :: publish_options where
  "new_options = \<lparr>opt_ordering_key = None, opt_attributes = fmempty\<rparr>"

definition options_ordering_key :: "publish_options \<Rightarrow> string \<Rightarrow> publish_options" where
  "options_ordering_key opts k = opts\<lparr>opt_ordering_key := Some k\<rparr>"

definition options_attribute :: "publish_options \<Rightarrow> string \<Rightarrow> string \<Rightarrow> publish_options" where
  "options_attribute opts k v = opts\<lparr>opt_attributes := fmupd k v (opt_attributes opts)\<rparr>"

definition options_validate :: "publish_options \<Rightarrow> error + unit" where
  "options_validate opts =
     and_then (validate_ordering_key (opt_ordering_key opts))
       (\<lambda>_. validate_attributes (opt_attributes opts))"

text \<open>What the bounds say of a map, without the order in which the loop meets the entries.\<close>

definition attributes_ok :: "(string, string) fmap \<Rightarrow> bool" where
  "attributes_ok attrs \<longleftrightarrow> map_len attrs \<le> MAX_ATTRIBUTES \<and>
     (\<forall>k v. fmlookup attrs k = Some v \<longrightarrow>
        k \<noteq> [] \<and> length k \<le> MAX_ATTRIBUTE_LEN \<and> length v \<le> MAX_ATTRIBUTE_LEN)"

definition ordering_key_ok :: "string option \<Rightarrow> bool" where
  "ordering_key_ok key \<longleftrightarrow> (\<forall>k. key = Some k \<longrightarrow> length k \<le> MAX_ATTRIBUTE_LEN)"

lemma check_attributes_iff:
  "check_attributes xs = Inr u \<longleftrightarrow>
     (\<forall>(k, v) \<in> set xs. k \<noteq> [] \<and> length k \<le> MAX_ATTRIBUTE_LEN \<and> length v \<le> MAX_ATTRIBUTE_LEN)"
  by (induction xs rule: check_attributes.induct) auto

lemma set_sorted_list_of_fmap: "set (sorted_list_of_fmap m) = {(k, v). fmlookup m k = Some v}"
  by (auto simp: sorted_list_of_fmap_def fmlookup_dom_iff)

lemma validate_attributes_iff [simp]: "validate_attributes attrs = Inr u \<longleftrightarrow> attributes_ok attrs"
  by (auto simp: validate_attributes_def attributes_ok_def check_attributes_iff set_sorted_list_of_fmap)

lemma validate_ordering_key_iff [simp]: "validate_ordering_key key = Inr u \<longleftrightarrow> ordering_key_ok key"
  by (auto simp: validate_ordering_key_def ordering_key_ok_def split: option.splits)

lemma validate_payload_iff [simp]:
  "validate_payload payload = Inr u \<longleftrightarrow> length payload \<le> MAX_PAYLOAD_BYTES"
  by (auto simp: validate_payload_def)

lemma options_validate_iff:
  "options_validate opts = Inr u \<longleftrightarrow>
     ordering_key_ok (opt_ordering_key opts) \<and> attributes_ok (opt_attributes opts)"
  by (simp add: options_validate_def result_simps)

section \<open>Topic names\<close>

definition is_ascii_alphanumeric :: "char \<Rightarrow> bool" where
  "is_ascii_alphanumeric c \<longleftrightarrow>
     (\<exists>(lo, hi) \<in> set [(CHR ''a'', CHR ''z''), (CHR ''A'', CHR ''Z''), (CHR ''0'', CHR ''9'')]. lo \<le> c \<and> c \<le> hi)"

definition topic_char :: "char \<Rightarrow> bool" where
  "topic_char c \<longleftrightarrow> is_ascii_alphanumeric c \<or>
     c = CHR ''.'' \<or> c = CHR ''-'' \<or> c = CHR ''_'' \<or> c = CHR '':''"

text \<open>
  The code tests the characters of the name; a character outside ASCII has only bytes above 127,
  all of which \<^const>\<open>topic_char\<close> rejects, so the test on bytes agrees with it.
\<close>

definition validate_topic :: "string \<Rightarrow> error + unit" where
  "validate_topic topic =
     (if topic = [] then Inl (Message Topic_empty)
      else if length topic > 200 then Inl (Message (Topic_too_long (length topic)))
      else if \<not> list_all topic_char topic then Inl (Message (Topic_bad_characters topic))
      else Inr ())"

definition NS :: string where "NS = ''ce-pubsub''"

definition log_name :: "string \<Rightarrow> string" where "log_name topic = NS @ ''.log.'' @ topic"
definition live_topic :: "string \<Rightarrow> string" where "live_topic topic = NS @ ''.live.'' @ topic"
definition ingest_topic :: "string \<Rightarrow> string" where "ingest_topic topic = NS @ ''.ingest.'' @ topic"
definition control_topic :: "string \<Rightarrow> string" where "control_topic topic = NS @ ''.ctl.'' @ topic"
definition subs_log_name :: "string \<Rightarrow> string" where "subs_log_name topic = NS @ ''.subs.'' @ topic"
definition dead_letter_topic :: "string \<Rightarrow> string" where "dead_letter_topic topic = topic @ ''.dlq''"

text \<open>The live stream name: the live topic, an at sign, and the owner.\<close>

definition live_stream_name :: "string \<Rightarrow> string \<Rightarrow> string" where
  "live_stream_name topic owner = live_topic topic @ ''@'' @ owner"

lemma validate_topic_iff [simp]:
  "validate_topic topic = Inr u \<longleftrightarrow> topic \<noteq> [] \<and> length topic \<le> 200 \<and> list_all topic_char topic"
  by (simp add: validate_topic_def)

text \<open>A topic name of more than 196 characters has a dead-letter topic that no operation accepts.\<close>

lemma dead_letter_topic_refused: "196 < length tp \<Longrightarrow> \<not> is_ok (validate_topic (dead_letter_topic tp))"
  by (auto simp: is_ok_iff dead_letter_topic_def)

lemma topic_char_no_at: "\<not> topic_char (CHR ''@'')"
  by (simp add: topic_char_def is_ascii_alphanumeric_def)

lemma valid_topic_no_at: "validate_topic topic = Inr u \<Longrightarrow> CHR ''@'' \<notin> set topic"
  using topic_char_no_at by (auto simp: list_all_iff)

lemma separated_append_inject:
  assumes "x \<notin> set xs" "x \<notin> set ys"
  shows "xs @ x # us = ys @ x # vs \<longleftrightarrow> xs = ys \<and> us = vs"
  using assms
proof (induction xs arbitrary: ys)
  case Nil
  then show ?case by (cases ys) auto
next
  case (Cons a xs)
  then show ?case by (cases ys) auto
qed

lemma live_stream_name_inject:
  assumes "validate_topic t = Inr u" "validate_topic t' = Inr u'"
  shows "live_stream_name t owner = live_stream_name t' owner' \<longleftrightarrow> t = t' \<and> owner = owner'"
proof -
  have at: "CHR ''@'' \<notin> set t" "CHR ''@'' \<notin> set t'"
    using assms by (auto dest!: valid_topic_no_at simp del: validate_topic_iff)
  show ?thesis
    using separated_append_inject[OF at, of owner owner']
    by (simp add: live_stream_name_def live_topic_def)
qed

end
