(* ===== verification/State_Machine.thy ===== *)
theory State_Machine
  imports Prelude
begin

text \<open>
  The interface the replicated logs offer to \<open>ce-coord\<close>: a \<open>StateMachine\<close> is a state with an
  \<open>apply\<close>.  A replica's state is the fold of \<open>apply\<close> over the operations it has replayed, starting
  from the default state or from a snapshot.  \<open>ce-coord\<close> itself is not part of the repository; what
  is proved here is about \<open>apply\<close> alone, once for every machine that meets the locale.
\<close>

definition replay :: "('s \<Rightarrow> 'o \<Rightarrow> 's) \<Rightarrow> 's \<Rightarrow> 'o list \<Rightarrow> 's" where
  "replay app s ops = foldl app s ops"

lemma replay_simps [simp]:
  "replay app s [] = s"
  "replay app s (x # ops) = replay app (app s x) ops"
  "replay app s (ops @ ops') = replay app (replay app s ops) ops'"
  by (simp_all add: replay_def)

text \<open>Every operation of the script is admissible in the state it meets.\<close>

fun admissible_run :: "('s \<Rightarrow> 'o \<Rightarrow> 's) \<Rightarrow> ('s \<Rightarrow> 'o \<Rightarrow> bool) \<Rightarrow> 's \<Rightarrow> 'o list \<Rightarrow> bool" where
  "admissible_run app ok s [] = True"
| "admissible_run app ok s (x # ops) = (ok s x \<and> admissible_run app ok (app s x) ops)"

lemma admissible_run_append [simp]:
  "admissible_run app ok s (ops @ ops') \<longleftrightarrow>
     admissible_run app ok s ops \<and> admissible_run app ok (replay app s ops) ops'"
  by (induction ops arbitrary: s) auto

locale state_machine =
  fixes app :: "'s \<Rightarrow> 'o \<Rightarrow> 's"
    and inv :: "'s \<Rightarrow> bool"
    and admissible :: "'s \<Rightarrow> 'o \<Rightarrow> bool"
  assumes apply_inv: "inv s \<Longrightarrow> admissible s x \<Longrightarrow> inv (app s x)"
begin

lemma replay_inv: "inv s \<Longrightarrow> admissible_run app admissible s ops \<Longrightarrow> inv (replay app s ops)"
  by (induction ops arbitrary: s) (auto intro: apply_inv)

text \<open>
  A reader that loads a snapshot of a prefix and replays the rest reaches the state of the full
  replay, and that state satisfies the invariant.
\<close>

lemma snapshot_tail:
  assumes "load (save (replay app s ops)) = Inr (replay app s ops)"
    and "inv s" "admissible_run app admissible s (ops @ ops')"
  obtains t where "load (save (replay app s ops)) = Inr t"
    and "replay app t ops' = replay app s (ops @ ops')" and "inv (replay app t ops')"
  using assms replay_inv[OF assms(2,3)] by simp

end

text \<open>A machine with a quantity that no admissible operation takes back.\<close>

locale monotone_machine = state_machine +
  fixes level :: "'a \<Rightarrow> 'l::order"
  assumes apply_mono: "inv s \<Longrightarrow> admissible s x \<Longrightarrow> level s \<le> level (app s x)"
begin

lemma replay_mono:
  "inv s \<Longrightarrow> admissible_run app admissible s ops \<Longrightarrow> level s \<le> level (replay app s ops)"
proof (induction ops arbitrary: s)
  case (Cons x ops)
  then have "level s \<le> level (app s x)" "level (app s x) \<le> level (replay app (app s x) ops)"
    by (simp_all add: apply_mono apply_inv)
  then show ?case by simp
qed simp

end

end
