(* ===== verification/Subscription.thy ===== *)
theory Subscription
  imports State_Machine
begin

text \<open>
  The subscription registry of \<open>src/src/subscription.rs\<close>: its state, the operations proposed to the
  replicated log, and the ack floor.  Arithmetic on cursors (\<open>u64\<close>) and on delivery counts (\<open>u32\<close>)
  is on words and wraps, as in a release build.
\<close>

section \<open>State\<close>

definition MAX_SUBSCRIPTIONS :: nat where "MAX_SUBSCRIPTIONS = 10000"
definition MAX_ACK_DEADLINE_SECS :: u64 where "MAX_ACK_DEADLINE_SECS = 600"
definition DEFAULT_ACK_DEADLINE_SECS :: u64 where "DEFAULT_ACK_DEADLINE_SECS = 30"
definition DEFAULT_MAX_DELIVERY_ATTEMPTS :: u32 where "DEFAULT_MAX_DELIVERY_ATTEMPTS = 5"
definition MAX_LEASE_BATCH :: usize where "MAX_LEASE_BATCH = 1000"

record subscription_policy =
  ack_deadline_secs :: u64
  max_delivery_attempts :: u32

definition default_policy :: subscription_policy where
  "default_policy = \<lparr>ack_deadline_secs = DEFAULT_ACK_DEADLINE_SECS,
     max_delivery_attempts = DEFAULT_MAX_DELIVERY_ATTEMPTS\<rparr>"

definition policy_validate :: "subscription_policy \<Rightarrow> error + unit" where
  "policy_validate p =
     (if ack_deadline_secs p = 0 \<or> MAX_ACK_DEADLINE_SECS < ack_deadline_secs p
      then Inl (Bad_ack_deadline (ack_deadline_secs p)) else Inr ())"

record lease =
  lease_cursor :: cursor
  expires_at :: u64
  lease_attempts :: u32

record subscription_state =
  acked :: cursor
  leases :: "(cursor, lease) fmap"
  attempts :: "(cursor, u32) fmap"
  dead :: "(cursor, unit) fmap"
  acked_set :: "(cursor, unit) fmap"
  policy :: subscription_policy

definition default_state :: subscription_state where
  "default_state = \<lparr>acked = 0, leases = fmempty, attempts = fmempty, dead = fmempty,
     acked_set = fmempty, policy = default_policy\<rparr>"

definition outstanding :: "subscription_state \<Rightarrow> nat" where
  "outstanding s = map_len (leases s)"

definition dead_cursors :: "subscription_state \<Rightarrow> cursor list" where
  "dead_cursors s = keys (dead s)"

definition pending_acks :: "subscription_state \<Rightarrow> cursor list" where
  "pending_acks s = keys (acked_set s)"

record sub_registry =
  subs :: "(string, subscription_state) fmap"

definition empty_registry :: sub_registry where
  "empty_registry = \<lparr>subs = fmempty\<rparr>"

definition reg_get :: "sub_registry \<Rightarrow> string \<Rightarrow> subscription_state option" where
  "reg_get r name = fmlookup (subs r) name"

definition reg_names :: "sub_registry \<Rightarrow> string list" where
  "reg_names r = keys (subs r)"

definition reg_len :: "sub_registry \<Rightarrow> nat" where
  "reg_len r = map_len (subs r)"

definition reg_is_empty :: "sub_registry \<Rightarrow> bool" where
  "reg_is_empty r \<longleftrightarrow> subs r = fmempty"

definition at_capacity :: "sub_registry \<Rightarrow> string \<Rightarrow> bool" where
  "at_capacity r name \<longleftrightarrow> \<not> contains_key (subs r) name \<and> MAX_SUBSCRIPTIONS \<le> reg_len r"

section \<open>The ack floor\<close>

text \<open>
  The loop removes one entry in each round, from \<open>acked_set\<close> if it is there, else from \<open>dead\<close>.
\<close>

function advance_acked :: "subscription_state \<Rightarrow> subscription_state" where
  "advance_acked s =
     (let next = acked s + 1 in
      if contains_key (acked_set s) next
      then advance_acked (s\<lparr>acked_set := fmdrop next (acked_set s), acked := next\<rparr>)
      else if contains_key (dead s) next
      then advance_acked (s\<lparr>dead := fmdrop next (dead s), acked := next\<rparr>)
      else s)"
  by pat_completeness auto
termination
  by (relation "measure (\<lambda>s. map_len (acked_set s) + map_len (dead s))")
    (auto simp: map_len_drop_less)

declare advance_acked.simps [simp del]

section \<open>Operations\<close>

datatype sub_op =
    Create string subscription_policy
  | Delete string
  | ApplyLease string "(cursor \<times> u64) list" "cursor list" cursor
  | Ack string cursor
  | Nack string cursor

definition attempt_count :: "subscription_state \<Rightarrow> cursor \<Rightarrow> u32" where
  "attempt_count s c = (case fmlookup (attempts s) c of Some n \<Rightarrow> n | None \<Rightarrow> 0)"

text \<open>The bodies of the two loops of \<open>ApplyLease\<close>, and what follows them.\<close>

definition mark_dead :: "subscription_state \<Rightarrow> cursor \<Rightarrow> subscription_state" where
  "mark_dead s c = s\<lparr>dead := fmupd c () (dead s), leases := fmdrop c (leases s),
     attempts := fmdrop c (attempts s)\<rparr>"

definition add_lease :: "subscription_state \<Rightarrow> cursor \<times> u64 \<Rightarrow> subscription_state" where
  "add_lease s ce =
     (let c = fst ce; n = attempt_count s c + 1 in
      s\<lparr>attempts := fmupd c n (attempts s),
        leases := fmupd c \<lparr>lease_cursor = c, expires_at = snd ce, lease_attempts = n\<rparr> (leases s)\<rparr>)"

definition raise_floor :: "subscription_state \<Rightarrow> cursor \<Rightarrow> subscription_state" where
  "raise_floor s new_acked =
     (if acked s < new_acked
      then s\<lparr>acked := new_acked,
             acked_set := fmfilter (\<lambda>c. new_acked < c) (acked_set s),
             dead := fmfilter (\<lambda>c. new_acked < c) (dead s)\<rparr>
      else s)"

definition apply_lease ::
  "subscription_state \<Rightarrow> (cursor \<times> u64) list \<Rightarrow> cursor list \<Rightarrow> cursor \<Rightarrow> subscription_state" where
  "apply_lease s leased dd new_acked =
     raise_floor (foldl add_lease (foldl mark_dead s dd) leased) new_acked"

definition apply_ack :: "subscription_state \<Rightarrow> cursor \<Rightarrow> subscription_state" where
  "apply_ack s c =
     (let s1 = s\<lparr>leases := fmdrop c (leases s), attempts := fmdrop c (attempts s)\<rparr>;
          s2 = (if acked s1 < c then s1\<lparr>acked_set := fmupd c () (acked_set s1)\<rparr> else s1) in
      advance_acked s2)"

definition apply_nack :: "subscription_state \<Rightarrow> cursor \<Rightarrow> subscription_state" where
  "apply_nack s c =
     (case fmlookup (leases s) c of
        Some l \<Rightarrow> s\<lparr>leases := fmupd c (l\<lparr>expires_at := 0\<rparr>) (leases s)\<rparr>
      | None \<Rightarrow> s)"

text \<open>\<open>if let Some(s) = self.subs.get_mut(&name)\<close>: change the subscription if it is there.\<close>

definition modify_sub ::
  "sub_registry \<Rightarrow> string \<Rightarrow> (subscription_state \<Rightarrow> subscription_state) \<Rightarrow> sub_registry" where
  "modify_sub r name f =
     (case fmlookup (subs r) name of
        Some s \<Rightarrow> r\<lparr>subs := fmupd name (f s) (subs r)\<rparr>
      | None \<Rightarrow> r)"

fun apply_sub :: "sub_registry \<Rightarrow> sub_op \<Rightarrow> sub_registry" where
  "apply_sub r (Create name p) =
     (let entry = (case fmlookup (subs r) name of Some s \<Rightarrow> s | None \<Rightarrow> default_state) in
      r\<lparr>subs := fmupd name (entry\<lparr>policy := p\<rparr>) (subs r)\<rparr>)"
| "apply_sub r (Delete name) = r\<lparr>subs := fmdrop name (subs r)\<rparr>"
| "apply_sub r (ApplyLease name leased dd new_acked) =
     modify_sub r name (\<lambda>s. apply_lease s leased dd new_acked)"
| "apply_sub r (Ack name c) = modify_sub r name (\<lambda>s. apply_ack s c)"
| "apply_sub r (Nack name c) = modify_sub r name (\<lambda>s. apply_nack s c)"

text \<open>Reading a registry after an operation.\<close>

lemma reg_get_modify:
  "reg_get (modify_sub r name f) n = (if n = name then map_option f (reg_get r n) else reg_get r n)"
  by (auto simp: reg_get_def modify_sub_def split: option.splits)

lemma reg_get_apply:
  "reg_get (apply_sub r (Create name p)) n =
     (if n = name then Some ((case reg_get r n of Some s \<Rightarrow> s | None \<Rightarrow> default_state)\<lparr>policy := p\<rparr>)
      else reg_get r n)"
  "reg_get (apply_sub r (Delete name)) n = (if n = name then None else reg_get r n)"
  "reg_get (apply_sub r (ApplyLease name ls dd na)) n =
     (if n = name then map_option (\<lambda>s. apply_lease s ls dd na) (reg_get r n) else reg_get r n)"
  "reg_get (apply_sub r (Ack name c)) n =
     (if n = name then map_option (\<lambda>s. apply_ack s c) (reg_get r n) else reg_get r n)"
  "reg_get (apply_sub r (Nack name c)) n =
     (if n = name then map_option (\<lambda>s. apply_nack s c) (reg_get r n) else reg_get r n)"
  by (auto simp: reg_get_modify) (auto simp: reg_get_def)

lemma reg_get_empty [simp]: "reg_get empty_registry n = None"
  by (simp add: reg_get_def empty_registry_def)

declare apply_sub.simps [simp del]

lemma policy_validate_iff [simp]:
  "policy_validate p = Inr u \<longleftrightarrow> 0 < ack_deadline_secs p \<and> ack_deadline_secs p \<le> MAX_ACK_DEADLINE_SECS"
  by (auto simp: policy_validate_def word_gt_0)

end
