(* ===== verification/Protocol.thy ===== *)
theory Protocol
  imports Message Subscription
begin

text \<open>
  The request and reply messages between a consumer or publisher and a topic owner,
  \<open>src/src/protocol.rs\<close>, with their size bounds.  The JSON encoding is the work of \<open>serde_json\<close>, which
  is not part of the repository: it is the record parameter \<open>json_codec\<close>.
\<close>

section \<open>Messages on the wire\<close>

definition MAX_CONTROL_BODY_BYTES :: nat where "MAX_CONTROL_BODY_BYTES = 64 * 1024"
definition MAX_INGEST_HEX_BYTES :: nat where "MAX_INGEST_HEX_BYTES = 2 * MAX_PAYLOAD_BYTES + 64 * 1024"
definition MAX_IDEMPOTENCY_KEY_LEN :: nat where "MAX_IDEMPOTENCY_KEY_LEN = 256"

record ingest_request =
  req_payload_hex :: string
  req_grant :: "string option"
  req_idempotency_key :: "string option"
  req_ordering_key :: "string option"
  req_attributes :: "(string, string) fmap"

text \<open>The rejection reason is kept as the error it formats.\<close>

datatype (plugins del: "quickcheck") ingest_reply = Accepted cursor | Ingest_rejected error

datatype (plugins del: "quickcheck") control_request =
    CreateSubscription string subscription_policy "string option"
  | DeleteSubscription string "string option"
  | ListSubscriptions "string option"
  | HighCursor "string option"
  | Pull string usize "string option"
  | AckCursor string cursor "string option"
  | NackCursor string cursor "string option"

fun request_grant :: "control_request \<Rightarrow> string option" where
  "request_grant (CreateSubscription _ _ grant) = grant"
| "request_grant (DeleteSubscription _ grant) = grant"
| "request_grant (ListSubscriptions grant) = grant"
| "request_grant (HighCursor grant) = grant"
| "request_grant (Pull _ _ grant) = grant"
| "request_grant (AckCursor _ _ grant) = grant"
| "request_grant (NackCursor _ _ grant) = grant"

record leased_message =
  leased_msg :: message
  delivery_attempt :: u32

datatype (plugins del: "quickcheck") control_reply =
    Control_ok
  | High cursor
  | Subscriptions "string list"
  | Pulled "leased_message list"
  | Control_rejected error

section \<open>Encoding\<close>

text \<open>\<open>serde_json::to_vec\<close> and \<open>serde_json::from_slice\<close> at the types of the protocol.\<close>

record json_codec =
  ingest_to_json :: "ingest_request \<Rightarrow> error + bytes"
  ingest_from_json :: "bytes \<Rightarrow> error + ingest_request"
  ingest_reply_to_json :: "ingest_reply \<Rightarrow> error + bytes"
  ingest_reply_from_json :: "bytes \<Rightarrow> error + ingest_reply"
  control_to_json :: "control_request \<Rightarrow> error + bytes"
  control_from_json :: "bytes \<Rightarrow> error + control_request"
  control_reply_to_json :: "control_reply \<Rightarrow> error + bytes"
  control_reply_from_json :: "bytes \<Rightarrow> error + control_reply"

definition ingest_encode :: "json_codec \<Rightarrow> ingest_request \<Rightarrow> error + bytes" where
  "ingest_encode js req = ingest_to_json js req"

definition ingest_decode :: "json_codec \<Rightarrow> bytes \<Rightarrow> error + ingest_request" where
  "ingest_decode js bs =
     (if length bs > MAX_INGEST_HEX_BYTES then Inl (Request (Request_too_large (length bs)))
      else and_then (ingest_from_json js bs) (\<lambda>req.
        if length (req_payload_hex req) > MAX_INGEST_HEX_BYTES
        then Inl (Request (Payload_hex_too_large (length (req_payload_hex req))))
        else
          case req_idempotency_key req of
            Some k \<Rightarrow>
              if length k > MAX_IDEMPOTENCY_KEY_LEN
              then Inl (Request (Idempotency_key_too_long (length k))) else Inr req
          | None \<Rightarrow> Inr req))"

definition ingest_decode_hex :: "hex_codec \<Rightarrow> json_codec \<Rightarrow> string \<Rightarrow> error + ingest_request" where
  "ingest_decode_hex hx js payload =
     (if length payload > MAX_INGEST_HEX_BYTES then Inl (Request (Request_too_large (length payload)))
      else and_then (hex_decode hx payload) (ingest_decode js))"

definition ingest_reply_encode :: "json_codec \<Rightarrow> ingest_reply \<Rightarrow> error + bytes" where
  "ingest_reply_encode js r = ingest_reply_to_json js r"

definition ingest_reply_decode :: "json_codec \<Rightarrow> bytes \<Rightarrow> error + ingest_reply" where
  "ingest_reply_decode js bs = ingest_reply_from_json js bs"

definition control_encode :: "json_codec \<Rightarrow> control_request \<Rightarrow> error + bytes" where
  "control_encode js req = control_to_json js req"

definition control_decode :: "json_codec \<Rightarrow> bytes \<Rightarrow> error + control_request" where
  "control_decode js bs =
     (if length bs > MAX_CONTROL_BODY_BYTES then Inl (Request (Request_too_large (length bs)))
      else control_from_json js bs)"

definition control_reply_encode :: "json_codec \<Rightarrow> control_reply \<Rightarrow> error + bytes" where
  "control_reply_encode js r = control_reply_to_json js r"

definition control_reply_decode :: "json_codec \<Rightarrow> bytes \<Rightarrow> error + control_reply" where
  "control_reply_decode js bs =
     (if length bs > MAX_INGEST_HEX_BYTES then Inl (Request (Reply_too_large (length bs)))
      else control_reply_from_json js bs)"

section \<open>Lemmas\<close>

lemma ingest_decode_Inr:
  "ingest_decode js bs = Inr req \<longleftrightarrow>
     length bs \<le> MAX_INGEST_HEX_BYTES \<and> ingest_from_json js bs = Inr req \<and>
     length (req_payload_hex req) \<le> MAX_INGEST_HEX_BYTES \<and>
     (\<forall>k. req_idempotency_key req = Some k \<longrightarrow> length k \<le> MAX_IDEMPOTENCY_KEY_LEN)"
  by (cases "ingest_from_json js bs") (auto simp: ingest_decode_def split: option.splits)

lemma ingest_decode_hex_Inr:
  "ingest_decode_hex hx js s = Inr req \<longleftrightarrow>
     length s \<le> MAX_INGEST_HEX_BYTES \<and> (\<exists>bs. hex_decode hx s = Inr bs \<and> ingest_decode js bs = Inr req)"
  by (cases "hex_decode hx s") (auto simp: ingest_decode_hex_def)

section \<open>A small codec\<close>

text \<open>
  An instance of the two parameters for the witnesses: two hexadecimal letters for each byte, and a
  request written as its payload text alone.
\<close>

definition nibble :: "nat \<Rightarrow> char" where
  "nibble n = char_of (97 + n)"

fun unnibble :: "string \<Rightarrow> error + bytes" where
  "unnibble [] = Inr []"
| "unnibble [c] = Inl (External ''odd length'')"
| "unnibble (c # d # rest) = and_then (unnibble rest)
     (\<lambda>bs. Inr (of_nat (16 * (of_char c - 97) + (of_char d - 97)) # bs))"

definition letter_hex :: hex_codec where
  "letter_hex = \<lparr>hex_encode = \<lambda>bs. concat (map (\<lambda>b. [nibble (unat b div 16), nibble (unat b mod 16)]) bs),
     hex_decode = unnibble\<rparr>"

definition bare_request :: "string \<Rightarrow> ingest_request" where
  "bare_request s = \<lparr>req_payload_hex = s, req_grant = None, req_idempotency_key = None,
     req_ordering_key = None, req_attributes = fmempty\<rparr>"

definition bare_json :: json_codec where
  "bare_json = \<lparr>ingest_to_json = \<lambda>r. Inr (map of_char (req_payload_hex r)),
     ingest_from_json = \<lambda>bs. Inr (bare_request (map (\<lambda>b. char_of (unat b)) bs)),
     ingest_reply_to_json = \<lambda>r. Inl (External ''''), ingest_reply_from_json = \<lambda>bs. Inl (External ''''),
     control_to_json = \<lambda>r. Inl (External ''''), control_from_json = \<lambda>bs. Inl (External ''''),
     control_reply_to_json = \<lambda>r. Inl (External ''''), control_reply_from_json = \<lambda>bs. Inl (External '''')\<rparr>"

lemma of_char_nibble: "n < 16 \<Longrightarrow> of_char (nibble n) = 97 + n"
  by (simp add: nibble_def)

lemma unnibble_encode: "unnibble (hex_encode letter_hex bs) = Inr bs"
proof (induction bs)
  case (Cons b bs)
  have "unat b div 16 < 16" using unsigned_less[of b, where ?'a = nat] by simp
  then show ?case using Cons
    by (simp add: letter_hex_def of_char_nibble)
qed (simp add: letter_hex_def)

lemma unnibble_length: "unnibble s = Inr bs \<Longrightarrow> length s = 2 * length bs"
  by (induction s arbitrary: bs rule: unnibble.induct) (auto simp: result_simps)

lemma letter_hex_contract: "hex_contract letter_hex"
  using unnibble_encode unnibble_length
  by (simp add: hex_contract_def) (simp add: letter_hex_def)

section \<open>Properties\<close>

text \<open>What the owner decodes is bounded: a request that passes \<open>decode_hex\<close> came from a body and
  carries a payload text of at most \<open>MAX_INGEST_HEX_BYTES\<close>, and its idempotency key, if any, has at
  most 256 bytes.\<close>

theorem ingest_decode_bounded:
  assumes "hex_contract hx" "ingest_decode_hex hx js s = Inr req"
  shows "length s \<le> 21037056 \<and> length (req_payload_hex req) \<le> 21037056 \<and>
    (\<exists>bs. hex_decode hx s = Inr bs \<and> ingest_from_json js bs = Inr req \<and> 2 * length bs \<le> 21037056) \<and>
    (\<forall>k. req_idempotency_key req = Some k \<longrightarrow> length k \<le> 256)"
  using assms hex_contractD(2)[OF assms(1), of s]
  by (auto simp: ingest_decode_hex_Inr ingest_decode_Inr MAX_INGEST_HEX_BYTES_def MAX_PAYLOAD_BYTES_def
      MAX_IDEMPOTENCY_KEY_LEN_def)

lemma ingest_decode_bounded_witness:
  "length (req_payload_hex (bare_request (map (\<lambda>b. char_of (unat b)) [97 :: u8, 98]))) \<le> 21037056"
proof -
  have "ingest_decode_hex letter_hex bare_json (hex_encode letter_hex [97, 98]) =
      Inr (bare_request (map (\<lambda>b. char_of (unat b)) [97 :: u8, 98]))"
    unfolding ingest_decode_hex_Inr hex_contractD(1,3)[OF letter_hex_contract]
    by (simp add: ingest_decode_Inr MAX_INGEST_HEX_BYTES_def MAX_PAYLOAD_BYTES_def bare_json_def bare_request_def)
  from ingest_decode_bounded[OF letter_hex_contract this] show ?thesis by blast
qed

text \<open>C35: The wire bound is tighter than the payload limit: the payload is encoded in hex inside a body
  that is itself sent in hex, so every payload longer than 5259264 bytes is refused on the wire,
  although \<open>validate_payload\<close> accepts up to 10 MiB.  That the JSON text is at least as long as the
  payload text it contains is what the encoding is used for.\<close>

theorem large_payload_refused_on_wire:
  assumes "hex_contract hx" "length payload > 5259264"
    and "req_payload_hex req = hex_encode hx payload"
    and "ingest_encode js req = Inr body" "length (req_payload_hex req) \<le> length body"
  shows "ingest_decode_hex hx js (hex_encode hx body) =
    Inl (Request (Request_too_large (2 * length body)))"
  using assms hex_contractD(3)[OF assms(1)]
  by (simp add: ingest_decode_hex_def MAX_INGEST_HEX_BYTES_def MAX_PAYLOAD_BYTES_def)

lemma large_payload_refused_on_wire_witness:
  "\<exists>payload body. validate_payload payload = Inr () \<and>
     ingest_encode bare_json (bare_request (hex_encode letter_hex payload)) = Inr body \<and>
     ingest_decode_hex letter_hex bare_json (hex_encode letter_hex body) =
       Inl (Request (Request_too_large (2 * length body)))"
proof -
  define payload :: bytes where "payload = replicate 5300000 0"
  define body :: bytes where "body = map of_char (hex_encode letter_hex payload)"
  have enc: "ingest_encode bare_json (bare_request (hex_encode letter_hex payload)) = Inr body"
    by (simp add: ingest_encode_def bare_json_def bare_request_def body_def)
  have "validate_payload payload = Inr ()"
    by (simp add: payload_def MAX_PAYLOAD_BYTES_def)
  moreover have "ingest_decode_hex letter_hex bare_json (hex_encode letter_hex body) =
      Inl (Request (Request_too_large (2 * length body)))"
    by (rule large_payload_refused_on_wire[OF letter_hex_contract _ _ enc, of payload])
      (simp_all add: payload_def body_def bare_request_def)
  ultimately show ?thesis using enc by blast
qed

end
