(* ===== verification/Display.thy ===== *)
theory Display
  imports Protocol
begin

text \<open>
  How a message is shown: \<open>Message::text\<close> of \<open>src/src/message.rs\<close>, which decodes the payload as UTF-8
  with replacement, and the first twelve bytes of a publisher, which \<open>src/src/main.rs\<close> prints.
\<close>

section \<open>UTF-8 with replacement\<close>

text \<open>
  \<open>String::from_utf8_lossy\<close> of the standard library: it copies well-formed sequences and replaces each
  maximal prefix of a sequence that is not continued as it must be by U+FFFD.  A byte past the end
  reads as 0.
\<close>

definition byte_at :: "bytes \<Rightarrow> nat \<Rightarrow> u8" where
  "byte_at bs i = (if i < length bs then bs ! i else 0)"

definition continues :: "u8 \<Rightarrow> bool" where
  "continues b \<longleftrightarrow> 0x80 \<le> b \<and> b \<le> 0xBF"

definition char_width :: "u8 \<Rightarrow> nat" where
  "char_width b =
     (if b < 0x80 then 1 else if 0xC2 \<le> b \<and> b \<le> 0xDF then 2 else if 0xE0 \<le> b \<and> b \<le> 0xEF then 3
      else if 0xF0 \<le> b \<and> b \<le> 0xF4 then 4 else 0)"

text \<open>The second byte of a sequence of three or four.\<close>

definition second_ok :: "u8 \<Rightarrow> u8 \<Rightarrow> bool" where
  "second_ok b c \<longleftrightarrow> continues c \<and> (b = 0xE0 \<longrightarrow> 0xA0 \<le> c) \<and> (b = 0xED \<longrightarrow> c \<le> 0x9F) \<and>
     (b = 0xF0 \<longrightarrow> 0x90 \<le> c) \<and> (b = 0xF4 \<longrightarrow> c \<le> 0x8F)"

text \<open>Whether a sequence that starts with \<open>b\<close> is well-formed, and how many bytes after \<open>b\<close> belong to it.\<close>

definition utf8_step :: "u8 \<Rightarrow> bytes \<Rightarrow> bool \<times> nat" where
  "utf8_step b bs =
     (let w = char_width b in
      if w = 1 then (True, 0)
      else if w = 2 then (if continues (byte_at bs 0) then (True, 1) else (False, 0))
      else if w = 3 then
        (if \<not> second_ok b (byte_at bs 0) then (False, 0)
         else if \<not> continues (byte_at bs 1) then (False, 1) else (True, 2))
      else if w = 4 then
        (if \<not> second_ok b (byte_at bs 0) then (False, 0)
         else if \<not> continues (byte_at bs 1) then (False, 1)
         else if \<not> continues (byte_at bs 2) then (False, 2) else (True, 3))
      else (False, 0))"

definition replacement :: bytes where "replacement = [0xEF, 0xBF, 0xBD]"

fun utf8_lossy :: "bytes \<Rightarrow> bytes" where
  "utf8_lossy [] = []"
| "utf8_lossy (b # bs) =
     (let (ok, n) = utf8_step b bs in (if ok then b # take n bs else replacement) @ utf8_lossy (drop n bs))"

fun valid_utf8 :: "bytes \<Rightarrow> bool" where
  "valid_utf8 [] = True"
| "valid_utf8 (b # bs) = (let (ok, n) = utf8_step b bs in ok \<and> valid_utf8 (drop n bs))"

definition message_text :: "hex_codec \<Rightarrow> message \<Rightarrow> string" where
  "message_text hx m =
     (case hex_decode hx (payload_hex m) of
        Inr bs \<Rightarrow> map (\<lambda>b. char_of (unat b)) (utf8_lossy bs)
      | Inl _ \<Rightarrow> [])"

lemma utf8_lossy_valid: "valid_utf8 bs \<Longrightarrow> utf8_lossy bs = bs"
  by (induction bs rule: utf8_lossy.induct) (auto split: prod.splits)

text \<open>A well-formed sequence lies within the text and does not depend on what follows it.\<close>

lemma byte_at_continues: "continues (byte_at bs i) \<Longrightarrow> i < length bs"
  by (cases "i < length bs") (simp_all add: byte_at_def continues_def)

lemma utf8_step_local:
  assumes "utf8_step b bs = (True, n)"
  shows "n \<le> length bs" and "utf8_step b (take n bs @ rest) = (True, n)"
proof -
  have inside: "byte_at (take n bs @ rest) i = byte_at bs i" if "i < n" "i < length bs" for i
    using that by (auto simp: byte_at_def nth_append)
  have sec: "second_ok b c \<Longrightarrow> continues c" for c by (simp add: second_ok_def)
  note at = byte_at_continues[of bs 0] byte_at_continues[of bs 1] byte_at_continues[of bs 2]
  from assms consider "n = 0" "char_width b = 1"
    | "n = 1" "char_width b = 2" "continues (byte_at bs 0)"
    | "n = 2" "char_width b = 3" "second_ok b (byte_at bs 0)" "continues (byte_at bs 1)"
    | "n = 3" "char_width b = 4" "second_ok b (byte_at bs 0)" "continues (byte_at bs 1)" "continues (byte_at bs 2)"
    by (auto simp: utf8_step_def Let_def split: if_splits)
  then have "n \<le> length bs \<and> utf8_step b (take n bs @ rest) = (True, n)"
    using at sec inside[of 0] inside[of 1] inside[of 2] by cases (auto simp: utf8_step_def Let_def Suc_le_eq)
  then show "n \<le> length bs" and "utf8_step b (take n bs @ rest) = (True, n)" by blast+
qed

lemma valid_utf8_replacement [simp]: "valid_utf8 (replacement @ bs) = valid_utf8 bs"
  by (simp add: replacement_def utf8_step_def char_width_def second_ok_def continues_def byte_at_def Let_def
      word_le_nat_alt word_less_nat_alt)

lemma utf8_lossy_is_valid: "valid_utf8 (utf8_lossy bs)"
proof (induction bs rule: utf8_lossy.induct)
  case (2 b bs)
  obtain ok n where s: "utf8_step b bs = (ok, n)" by fastforce
  show ?case
  proof (cases ok)
    case True
    have s': "utf8_step b bs = (True, n)" using s True by simp
    have "valid_utf8 (utf8_lossy (drop n bs))" by (rule 2[OF s'[symmetric] refl])
    then show ?thesis using utf8_step_local(1)[OF s'] utf8_step_local(2)[OF s', of "utf8_lossy (drop n bs)"] by (simp add: s')
  next
    case False
    have "valid_utf8 (utf8_lossy (drop n bs))" by (rule 2[OF s[symmetric] refl])
    then show ?thesis using s False by simp
  qed
qed simp

lemma unat_char: "unat (of_char c :: u8) = of_char c"
  using unat_of_nat_small[of "of_char c", where 'a = 8] by (simp add: of_nat_of_char)

lemma ascii_text:
  assumes "hex_contract hx" "list_all (\<lambda>c. of_char c < (128 :: nat)) s"
  shows "message_text hx (new_message hx c pub (map of_char s) at) = s"
proof -
  have "valid_utf8 (map of_char s)" using assms(2)
    by (induction s) (simp_all add: utf8_step_def char_width_def word_less_nat_alt unat_char)
  then have "message_text hx (new_message hx c pub (map of_char s) at) = map (\<lambda>c. char_of (unat (of_char c :: u8))) s"
    using hex_contractD(1)[OF assms(1)]
    by (simp add: message_text_def new_message_def utf8_lossy_valid comp_def)
  then show ?thesis by (simp add: unat_char)
qed

section \<open>The short form of a publisher\<close>

text \<open>
  \<open>&s[..s.len().min(12)]\<close> panics unless the cut is at a character boundary, which is where the next
  byte does not continue a sequence.
\<close>

definition is_char_boundary :: "string \<Rightarrow> nat \<Rightarrow> bool" where
  "is_char_boundary s i \<longleftrightarrow> i = 0 \<or> i = length s \<or>
     i < length s \<and> (of_char (s ! i) < (0x80 :: nat) \<or> 0xC0 \<le> (of_char (s ! i) :: nat))"

definition short_publisher :: "string \<Rightarrow> string option" where
  "short_publisher s =
     (let i = min (length s) 12 in if is_char_boundary s i then Some (take i s) else None)"

lemma short_publisher_ascii:
  "list_all (\<lambda>c. of_char c < (0x80 :: nat)) s \<Longrightarrow> short_publisher s = Some (take 12 s)"
  by (auto simp: short_publisher_def is_char_boundary_def list_all_length min_def Let_def)

section \<open>Property\<close>

text \<open>C40: What is shown of a payload: a payload that is UTF-8 is shown as it was published, and what is shown is
  UTF-8 for every payload, since ill-formed sequences are replaced.\<close>

theorem text_shows_payload:
  assumes "hex_contract hx"
  shows "\<exists>bs. message_text hx (new_message hx c pub payload at) = map (\<lambda>b. char_of (unat b)) bs \<and> valid_utf8 bs \<and>
    (valid_utf8 payload \<longrightarrow> bs = payload)"
  using hex_contractD(1)[OF assms, of payload] utf8_lossy_is_valid[of payload] utf8_lossy_valid[of payload]
  by (intro exI[of _ "utf8_lossy payload"]) (simp add: message_text_def new_message_def)

lemma text_shows_payload_witness:
  "valid_utf8 [0x63, 0xC3, 0xA9] \<and>
   message_text letter_hex (new_message letter_hex 1 ''p'' [0x63, 0xC3, 0xA9] 7) =
     map (\<lambda>b. char_of (unat b)) [0x63, 0xC3, 0xA9 :: u8]"
proof -
  have "valid_utf8 [0x63, 0xC3, 0xA9]"
    by (simp add: utf8_step_def char_width_def continues_def byte_at_def word_le_nat_alt word_less_nat_alt)
  with text_shows_payload[OF letter_hex_contract, of 1 "''p''" "[0x63, 0xC3, 0xA9]" 7] show ?thesis by auto
qed

end
