(* ===== verification/Message_Store.thy ===== *)
theory Message_Store
  imports Message
begin

text \<open>
  What the lease handler relies on of the durable log: cursors between the retention floor and the
  highest cursor can be looked up, and lookup returns the message that carries the cursor.
\<close>

lemma map_filter_Some: "(\<And>x. x \<in> set xs \<Longrightarrow> f x = Some (g x)) \<Longrightarrow> List.map_filter f xs = map g xs"
  by (induction xs) (simp_all add: List.map_filter_simps)

locale message_store =
  fixes look_up :: "'l \<Rightarrow> cursor \<Rightarrow> message option"
    and lowest :: "'l \<Rightarrow> cursor"
    and highest :: "'l \<Rightarrow> cursor"
    and inv :: "'l \<Rightarrow> bool"
  assumes found: "inv l \<Longrightarrow> lowest l < c \<Longrightarrow> c \<le> highest l \<Longrightarrow> \<exists>m. look_up l c = Some m"
    and carries: "inv l \<Longrightarrow> look_up l c = Some m \<Longrightarrow> msg_cursor m = c"
    and ordered: "inv l \<Longrightarrow> lowest l \<le> highest l"
begin

text \<open>Resolving a list of items whose cursors are retained drops none of them.\<close>

lemma resolve_all:
  assumes "inv l" "\<And>x. x \<in> set xs \<Longrightarrow> lowest l < key x \<and> key x \<le> highest l"
  shows "List.map_filter (\<lambda>x. map_option (f x) (look_up l (key x))) xs =
      map (\<lambda>x. f x (the (look_up l (key x)))) xs"
    and "x \<in> set xs \<Longrightarrow> look_up l (key x) = Some (the (look_up l (key x)))"
    and "x \<in> set xs \<Longrightarrow> msg_cursor (the (look_up l (key x))) = key x"
proof -
  have look: "look_up l (key x) = Some (the (look_up l (key x)))" if "x \<in> set xs" for x
    using found[OF assms(1), of "key x"] assms(2)[OF that] by auto
  then show "List.map_filter (\<lambda>x. map_option (f x) (look_up l (key x))) xs =
      map (\<lambda>x. f x (the (look_up l (key x)))) xs"
    by (intro map_filter_Some) (metis option.simps(9))
  assume "x \<in> set xs"
  then show look': "look_up l (key x) = Some (the (look_up l (key x)))" by (rule look)
  then show "msg_cursor (the (look_up l (key x))) = key x" by (rule carries[OF assms(1)])
qed

end

end
