(* ===== verification/Topic_Log.thy ===== *)
theory Topic_Log
  imports Message_Store State_Machine
begin

text \<open>
  The durable topic log of \<open>src/src/log.rs\<close>: an append-only list of messages with a retention floor.
  Cursors are 64-bit words and \<open>+\<close> wraps; the invariant keeps the highest cursor below the wrap.
  The log is shown to refine the full history of the topic, of which it keeps the tail.
\<close>

section \<open>State and operations\<close>

record topic_log =
  log_messages :: "message list"
  log_floor :: u64

definition empty_log :: topic_log where
  "empty_log = \<lparr>log_messages = [], log_floor = 0\<rparr>"

datatype log_op = Append message | PruneTo cursor

definition high_cursor :: "topic_log \<Rightarrow> cursor" where
  "high_cursor l = log_floor l + of_nat (length (log_messages l))"

definition next_cursor :: "topic_log \<Rightarrow> cursor" where
  "next_cursor l = high_cursor l + 1"

fun apply_log :: "topic_log \<Rightarrow> log_op \<Rightarrow> topic_log" where
  "apply_log l (Append m) =
     l\<lparr>log_messages := log_messages l @ [m\<lparr>msg_cursor := next_cursor l\<rparr>]\<rparr>"
| "apply_log l (PruneTo up_to) =
     (let before = length (log_messages l);
          kept = filter (\<lambda>m. up_to < msg_cursor m) (log_messages l) in
      l\<lparr>log_messages := kept, log_floor := log_floor l + of_nat (before - length kept)\<rparr>)"

declare apply_log.simps [simp del]

lemma apply_append_simps [simp]:
  "log_floor (apply_log l (Append m)) = log_floor l"
  "log_messages (apply_log l (Append m)) = log_messages l @ [m\<lparr>msg_cursor := next_cursor l\<rparr>]"
  by (simp_all add: apply_log.simps)

definition log_len :: "topic_log \<Rightarrow> nat" where
  "log_len l = length (log_messages l)"

definition log_is_empty :: "topic_log \<Rightarrow> bool" where
  "log_is_empty l \<longleftrightarrow> log_messages l = []"

definition log_since :: "topic_log \<Rightarrow> cursor \<Rightarrow> message list" where
  "log_since l from = filter (\<lambda>m. from < msg_cursor m) (log_messages l)"

definition log_all :: "topic_log \<Rightarrow> message list" where
  "log_all l = log_messages l"

definition log_get :: "topic_log \<Rightarrow> cursor \<Rightarrow> message option" where
  "log_get l c =
     (if c \<le> log_floor l \<or> high_cursor l < c then None
      else let idx = unat (c - log_floor l - 1) in
        if idx < length (log_messages l) then Some (log_messages l ! idx) else None)"

section \<open>Lists numbered by consecutive cursors\<close>

text \<open>The keys of \<open>xs\<close> are \<open>a + 1, a + 2, \<dots>\<close>.\<close>

definition numbered :: "('a \<Rightarrow> nat) \<Rightarrow> nat \<Rightarrow> 'a list \<Rightarrow> bool" where
  "numbered f a xs \<longleftrightarrow> (\<forall>i < length xs. f (xs ! i) = Suc (a + i))"

lemma numbered_Nil [simp]: "numbered f a []"
  by (simp add: numbered_def)

lemma numbered_nth: "numbered f a xs \<Longrightarrow> i < length xs \<Longrightarrow> f (xs ! i) = Suc (a + i)"
  by (simp add: numbered_def)

lemma numbered_drop: "numbered f a xs \<Longrightarrow> n \<le> length xs \<Longrightarrow> numbered f (a + n) (drop n xs)"
  by (auto simp: numbered_def)

lemma numbered_snoc: "numbered f a xs \<Longrightarrow> f x = Suc (a + length xs) \<Longrightarrow> numbered f a (xs @ [x])"
  by (auto simp: numbered_def nth_append less_Suc_eq)

lemma numbered_filter:
  "numbered f a xs \<Longrightarrow> filter (\<lambda>x. c < f x) xs = drop (c - a) xs"
proof (induction xs arbitrary: a)
  case (Cons x xs)
  have x: "f x = Suc a" using numbered_nth[OF Cons.prems, of 0] by simp
  have xs: "numbered f (Suc a) xs" using numbered_drop[OF Cons.prems, of 1] by simp
  show ?case
  proof (cases "c \<le> a")
    case True
    then have "filter (\<lambda>x. c < f x) xs = xs" using Cons.IH[OF xs] by simp
    with True x show ?thesis by simp
  next
    case False
    then have "c - a = Suc (c - Suc a)" by simp
    with Cons.IH[OF xs] x False show ?thesis by simp
  qed
qed simp

section \<open>The invariant\<close>

abbreviation cursor_nat :: "message \<Rightarrow> nat" where
  "cursor_nat m \<equiv> unat (msg_cursor m)"

definition log_inv :: "topic_log \<Rightarrow> bool" where
  "log_inv l \<longleftrightarrow>
     unat (log_floor l) + length (log_messages l) < 2 ^ 64 \<and>
     numbered cursor_nat (unat (log_floor l)) (log_messages l)"

text \<open>An append is admissible while the next cursor does not wrap.\<close>

definition log_admissible :: "topic_log \<Rightarrow> log_op \<Rightarrow> bool" where
  "log_admissible l x \<longleftrightarrow> (case x of Append m \<Rightarrow> high_cursor l \<noteq> top_word | PruneTo c \<Rightarrow> True)"

lemma unat_high_cursor:
  "log_inv l \<Longrightarrow> unat (high_cursor l) = unat (log_floor l) + length (log_messages l)"
  by (simp add: log_inv_def high_cursor_def unat_add_of_nat)

lemma unat_next_cursor:
  "log_inv l \<Longrightarrow> high_cursor l \<noteq> top_word \<Longrightarrow>
     unat (next_cursor l) = Suc (unat (log_floor l) + length (log_messages l))"
  by (simp add: next_cursor_def unat_inc unat_high_cursor)

lemma floor_le_high: "log_inv l \<Longrightarrow> log_floor l \<le> high_cursor l"
  by (simp add: word_le_nat_alt unat_high_cursor)

lemma log_inv_empty [simp]: "log_inv empty_log"
  by (simp add: log_inv_def empty_log_def)

lemma high_empty [simp]: "high_cursor empty_log = 0"
  by (simp add: high_cursor_def empty_log_def)

text \<open>What a prune and a replay slice are on a numbered log.\<close>

lemma log_since_drop:
  "log_inv l \<Longrightarrow> log_since l from = drop (unat from - unat (log_floor l)) (log_messages l)"
  unfolding log_since_def word_less_nat_alt by (rule numbered_filter) (simp add: log_inv_def)

lemma apply_prune_drop:
  assumes "log_inv l"
  shows "apply_log l (PruneTo c) =
    l\<lparr>log_messages := drop (unat c - unat (log_floor l)) (log_messages l),
      log_floor := log_floor l + of_nat (min (unat c - unat (log_floor l)) (length (log_messages l)))\<rparr>"
  using log_since_drop[OF assms, of c] by (simp add: log_since_def apply_log.simps(2) Let_def min_def)

lemma unat_floor_prune:
  assumes "log_inv l"
  shows "unat (log_floor (apply_log l (PruneTo c))) =
    unat (log_floor l) + min (unat c - unat (log_floor l)) (length (log_messages l))"
proof -
  have "unat (log_floor l) + min (unat c - unat (log_floor l)) (length (log_messages l)) < 2 ^ LENGTH(64)"
    using assms by (auto simp: log_inv_def min_def)
  then show ?thesis unfolding apply_prune_drop[OF assms] by (simp add: unat_add_of_nat)
qed

lemma apply_log_inv:
  assumes "log_inv l" "log_admissible l x"
  shows "log_inv (apply_log l x)"
proof (cases x)
  case (Append m)
  with assms have top: "high_cursor l \<noteq> top_word" by (simp add: log_admissible_def)
  have "unat (next_cursor l) < 2 ^ 64" by (rule unat_u64_less)
  with assms(1) top show ?thesis
    by (auto simp: Append log_inv_def unat_next_cursor[OF assms(1) top] intro!: numbered_snoc)
next
  case (PruneTo c)
  let ?n = "min (unat c - unat (log_floor l)) (length (log_messages l))"
  have drop: "drop (unat c - unat (log_floor l)) (log_messages l) = drop ?n (log_messages l)"
    by (cases "unat c - unat (log_floor l) \<le> length (log_messages l)") auto
  have "numbered cursor_nat (unat (log_floor l) + ?n) (drop ?n (log_messages l))"
    using assms(1) by (intro numbered_drop) (auto simp: log_inv_def)
  then show ?thesis
    using assms(1) unat_floor_prune[OF assms(1), of c]
    unfolding PruneTo log_inv_def apply_prune_drop[OF assms(1)] drop by auto
qed

lemma high_cursor_append [simp]: "high_cursor (apply_log l (Append m)) = next_cursor l"
  by (simp add: high_cursor_def next_cursor_def)

lemma high_cursor_prune: "log_inv l \<Longrightarrow> high_cursor (apply_log l (PruneTo c)) = high_cursor l"
proof -
  assume inv: "log_inv l"
  have "log_inv (apply_log l (PruneTo c))"
    using inv by (rule apply_log_inv) (simp add: log_admissible_def)
  then have "unat (high_cursor (apply_log l (PruneTo c))) = unat (high_cursor l)"
    using inv by (simp only: unat_high_cursor unat_floor_prune) (simp add: apply_prune_drop)
  then show ?thesis by (rule unsigned_word_eqI)
qed

interpretation topic_log: state_machine apply_log log_inv log_admissible
  by unfold_locales (rule apply_log_inv)

interpretation log_high: monotone_machine apply_log log_inv log_admissible high_cursor
proof unfold_locales
  fix l x assume "log_inv l" "log_admissible l x"
  then show "high_cursor l \<le> high_cursor (apply_log l x)"
    by (cases x) (auto simp: log_admissible_def high_cursor_prune next_cursor_def u64_simps
        intro!: less_imp_le less_inc_self)
qed

interpretation log_retention: monotone_machine apply_log log_inv log_admissible log_floor
proof unfold_locales
  fix l x assume "log_inv l" "log_admissible l x"
  then show "log_floor l \<le> log_floor (apply_log l x)"
    by (cases x) (simp_all add: word_le_nat_alt unat_floor_prune)
qed

section \<open>Lookup\<close>

lemma log_get_eq:
  assumes "log_inv l"
  shows "log_get l c =
    (if c \<le> log_floor l \<or> high_cursor l < c then None
     else Some (log_messages l ! (unat c - unat (log_floor l) - 1)))"
proof (cases "c \<le> log_floor l \<or> high_cursor l < c")
  case True
  then show ?thesis by (simp add: log_get_def)
next
  case False
  then have c: "unat (log_floor l) < unat c" "unat c \<le> unat (high_cursor l)"
    by (simp_all add: word_le_nat_alt word_less_nat_alt)
  then have "unat (c - log_floor l) = unat c - unat (log_floor l)"
    by (simp add: unat_sub word_le_nat_alt)
  moreover from this c have "c - log_floor l \<noteq> 0"
    by (metis diff_is_0_eq not_less unat_0)
  ultimately have "unat (c - log_floor l - 1) = unat c - unat (log_floor l) - 1"
    by (simp add: unat_minus_one)
  with c False show ?thesis
    by (simp add: log_get_def Let_def unat_high_cursor[OF assms])
qed

lemma log_get_None: "log_inv l \<Longrightarrow> log_get l c = None \<longleftrightarrow> c \<le> log_floor l \<or> high_cursor l < c"
  by (simp add: log_get_eq)

lemma log_get_cursor:
  assumes "log_inv l" "log_get l c = Some m"
  shows "msg_cursor m = c"
proof -
  from assms have c: "unat (log_floor l) < unat c" "unat c \<le> unat (high_cursor l)"
    and m: "m = log_messages l ! (unat c - unat (log_floor l) - 1)"
    by (auto simp: log_get_eq word_le_nat_alt word_less_nat_alt split: if_splits)
  then have "unat c - unat (log_floor l) - 1 < length (log_messages l)"
    by (simp add: unat_high_cursor[OF assms(1)])
  then have "cursor_nat m = Suc (unat (log_floor l) + (unat c - unat (log_floor l) - 1))"
    using assms(1) unfolding m log_inv_def by (intro numbered_nth) auto
  with c have "cursor_nat m = unat c" by simp
  then show ?thesis by (rule unsigned_word_eqI)
qed

lemma log_get_nth:
  assumes "log_inv l" "i < length (log_messages l)"
  shows "log_get l (msg_cursor (log_messages l ! i)) = Some (log_messages l ! i)"
proof -
  have "cursor_nat (log_messages l ! i) = Suc (unat (log_floor l) + i)"
    using assms by (intro numbered_nth) (simp_all add: log_inv_def)
  with assms show ?thesis
    by (simp add: log_get_eq word_le_nat_alt word_less_nat_alt unat_high_cursor)
qed

lemma log_get_in_set: "log_inv l \<Longrightarrow> log_get l c = Some m \<longleftrightarrow> m \<in> set (log_messages l) \<and> msg_cursor m = c"
proof (intro iffI conjI)
  assume inv: "log_inv l" and get: "log_get l c = Some m"
  then show "msg_cursor m = c" by (rule log_get_cursor)
  from get show "m \<in> set (log_messages l)" by (auto simp: log_get_def Let_def split: if_splits)
next
  assume "log_inv l" "m \<in> set (log_messages l) \<and> msg_cursor m = c"
  then show "log_get l c = Some m" by (metis in_set_conv_nth log_get_nth)
qed

lemma log_get_append_old:
  assumes "log_inv l" "high_cursor l \<noteq> top_word" "log_get l c = Some m"
  shows "log_get (apply_log l (Append n)) c = Some m"
proof -
  have "log_inv (apply_log l (Append n))"
    using assms by (intro apply_log_inv) (simp_all add: log_admissible_def)
  then show ?thesis using assms(1,3) by (simp add: log_get_in_set)
qed

lemma log_get_append_new:
  assumes "log_inv l" "high_cursor l \<noteq> top_word"
  shows "log_get (apply_log l (Append n)) (next_cursor l) = Some (n\<lparr>msg_cursor := next_cursor l\<rparr>)"
proof -
  have "log_inv (apply_log l (Append n))"
    using assms by (intro apply_log_inv) (simp_all add: log_admissible_def)
  then show ?thesis by (simp add: log_get_in_set)
qed

lemma log_get_append:
  assumes "log_inv l" and top: "high_cursor l \<noteq> top_word"
  shows "log_get (apply_log l (Append n)) c =
    (if c = high_cursor l + 1 then Some (n\<lparr>msg_cursor := c\<rparr>) else log_get l c)"
proof (cases "log_get l c")
  case (Some m)
  then have "c \<noteq> high_cursor l + 1"
    using log_get_None[OF assms(1), of c] less_inc_self[OF top] by force
  with Some show ?thesis by (simp add: log_get_append_old[OF assms(1) top])
next
  case None
  have inv: "log_inv (apply_log l (Append n))"
    using assms top by (intro apply_log_inv) (simp_all add: log_admissible_def)
  show ?thesis
  proof (cases "c = high_cursor l + 1")
    case True
    then show ?thesis using log_get_append_new[OF assms(1) top, of n] by (simp add: next_cursor_def)
  next
    case False
    from None have "c \<le> log_floor l \<or> high_cursor l < c" using log_get_None[OF assms(1)] by blast
    then have "c \<le> log_floor l \<or> high_cursor l + 1 < c"
      using False inc_le_iff[OF top] by (metis order_le_less)
    then have "log_get (apply_log l (Append n)) c = None"
      using log_get_None[OF inv] by (simp add: next_cursor_def)
    with None False show ?thesis by simp
  qed
qed

lemma log_get_prune:
  assumes "log_inv l"
  shows "log_get (apply_log l (PruneTo u)) c = (if u < c then log_get l c else None)"
proof -
  have "log_inv (apply_log l (PruneTo u))"
    using assms by (rule apply_log_inv) (simp add: log_admissible_def)
  then have "log_get (apply_log l (PruneTo u)) c = Some m \<longleftrightarrow> log_get l c = Some m \<and> u < c" for m
    using assms by (auto simp: log_get_in_set apply_log.simps(2) Let_def)
  then show ?thesis by (metis not_None_eq)
qed

text \<open>Whatever happens to the log, a message stays at its cursor until it is pruned.\<close>

lemma log_get_replay:
  assumes "log_inv l" "admissible_run apply_log log_admissible l ops" "c \<le> high_cursor l"
  shows "log_get (replay apply_log l ops) c =
    (if c \<le> log_floor (replay apply_log l ops) then None else log_get l c)"
  using assms
proof (induction ops arbitrary: l)
  case Nil
  then show ?case using log_get_None[of l c] by simp
next
  case (Cons x ops)
  have adm: "log_admissible l x" "admissible_run apply_log log_admissible (apply_log l x) ops"
    using Cons.prems(2) by simp_all
  have inv: "log_inv (apply_log l x)" by (rule apply_log_inv[OF Cons.prems(1) adm(1)])
  have high: "c \<le> high_cursor (apply_log l x)"
    using Cons.prems(3) log_high.apply_mono[OF Cons.prems(1) adm(1)] by simp
  have "log_get (apply_log l x) c = log_get l c" if above: "\<not> c \<le> log_floor (replay apply_log (apply_log l x) ops)"
  proof -
    have floor: "\<not> c \<le> log_floor (apply_log l x)"
      using log_retention.replay_mono[OF inv adm(2)] above by (meson order_trans)
    show ?thesis
    proof (cases x)
      case (Append m)
      then have top: "high_cursor l \<noteq> top_word" using adm(1) by (simp add: log_admissible_def)
      then have "c \<noteq> high_cursor l + 1" using Cons.prems(3) less_inc_self[OF top] by auto
      then show ?thesis by (simp add: Append log_get_append[OF Cons.prems(1) top])
    next
      case (PruneTo u)
      have "log_get (apply_log l (PruneTo u)) c \<noteq> None"
        using log_get_None[OF inv, of c] floor high by (simp add: PruneTo not_less)
      then show ?thesis using log_get_prune[OF Cons.prems(1), of u c] by (simp add: PruneTo split: if_splits)
    qed
  qed
  with Cons.IH[OF inv adm(2) high] show ?case by simp
qed

interpretation topic_store: message_store log_get log_floor high_cursor log_inv
proof unfold_locales
  show "log_inv l \<Longrightarrow> log_floor l < c \<Longrightarrow> c \<le> high_cursor l \<Longrightarrow> \<exists>m. log_get l c = Some m" for l c
    using log_get_None[of l c] by (cases "log_get l c") auto
qed (auto dest: log_get_cursor floor_le_high)

section \<open>Refinement of the full history\<close>

text \<open>
  The specification: the topic is the list of every message ever appended, numbered from 1, and the
  number of messages that retention has dropped from its front.
\<close>

type_synonym history = "message list \<times> nat"

fun history_step :: "history \<Rightarrow> log_op \<Rightarrow> history" where
  "history_step (h, p) (Append m) = (h @ [m\<lparr>msg_cursor := of_nat (Suc (length h))\<rparr>], p)"
| "history_step (h, p) (PruneTo u) = (h, max p (min (unat u) (length h)))"

fun log_refines :: "topic_log \<Rightarrow> history \<Rightarrow> bool" where
  "log_refines l (h, p) \<longleftrightarrow>
     p \<le> length h \<and> length h < 2 ^ 64 \<and> numbered cursor_nat 0 h \<and>
     log_floor l = of_nat p \<and> log_messages l = drop p h"

lemma log_refinesD:
  assumes "log_refines l (h, p)"
  shows "unat (log_floor l) = p" and "log_inv l" and "unat (high_cursor l) = length h"
    and "high_cursor l = of_nat (length h)"
proof -
  have p: "p \<le> length h" "length h < 2 ^ LENGTH(64)" "p < 2 ^ LENGTH(64)" "numbered cursor_nat 0 h"
    and l: "log_floor l = of_nat p" "log_messages l = drop p h"
    using assms by auto
  show fl: "unat (log_floor l) = p" using p(3) by (simp add: l unat_of_nat_small)
  show inv: "log_inv l"
    unfolding log_inv_def fl l(2) using p numbered_drop[OF p(4,1)] by simp
  show "unat (high_cursor l) = length h" using p(1) by (simp add: unat_high_cursor[OF inv] fl l(2))
  show "high_cursor l = of_nat (length h)"
    using p(1) by (simp add: high_cursor_def l flip: of_nat_add)
qed

lemma history_step_refines:
  assumes "log_refines l (h, p)" "log_admissible l x"
  shows "log_refines (apply_log l x) (history_step (h, p) x)"
proof (cases x)
  case (Append m)
  from assms(2) have "high_cursor l \<noteq> top_word" by (simp add: log_admissible_def Append)
  then have len: "Suc (length h) < 2 ^ LENGTH(64)"
    using unat_inc[of "high_cursor l"] log_refinesD(3)[OF assms(1)]
      unat_u64_less[of "high_cursor l + 1"] by simp
  have "next_cursor l = of_nat (Suc (length h))"
    by (simp add: next_cursor_def log_refinesD(4)[OF assms(1)])
  then show ?thesis using assms(1) len unat_of_nat_small[OF len]
    by (auto simp: Append intro!: numbered_snoc)
next
  case (PruneTo u)
  note fl = log_refinesD(1)[OF assms(1)]
  have l: "p \<le> length h" "log_messages l = drop p h" "log_floor l = of_nat p"
    using assms(1) by auto
  let ?q = "max p (min (unat u) (length h))"
  have "p + min (unat u - p) (length h - p) = ?q" using l(1) by auto
  moreover have "drop (unat u - p) (drop p h) = drop ?q h"
    using l(1) by (cases "unat u \<le> length h") (auto simp: max_def)
  ultimately show ?thesis
    using assms(1) l unfolding PruneTo apply_prune_drop[OF log_refinesD(2)[OF assms(1)]] fl
    by (auto simp flip: of_nat_add)
qed

lemma replay_refines:
  assumes "log_refines l hp" "admissible_run apply_log log_admissible l ops"
  shows "log_refines (replay apply_log l ops) (replay history_step hp ops)"
  using assms
proof (induction ops arbitrary: l hp)
  case (Cons x ops)
  obtain h p where hp: "hp = (h, p)" by fastforce
  from Cons.prems have "log_refines (apply_log l x) (history_step hp x)"
    unfolding hp by (intro history_step_refines) simp_all
  with Cons show ?case by simp
qed simp

text \<open>Lookup and replay read the history.\<close>

lemma log_get_refines:
  assumes "log_refines l (h, p)"
  shows "log_get l c = (if p < unat c \<and> unat c \<le> length h then Some (h ! (unat c - 1)) else None)"
  using assms log_refinesD(1,3)[OF assms]
  by (auto simp: log_get_eq[OF log_refinesD(2)[OF assms]] word_le_nat_alt word_less_nat_alt)

lemma log_since_refines:
  assumes "log_refines l (h, p)"
  shows "log_since l from = drop (max p (unat from)) h"
proof -
  have l: "p \<le> length h" "log_messages l = drop p h" using assms by simp_all
  have "unat from - p + p = max p (unat from)" by simp
  then show ?thesis
    by (simp add: log_since_drop[OF log_refinesD(2)[OF assms]] log_refinesD(1)[OF assms] l(2))
qed

section \<open>Properties\<close>

definition sample_message_at :: "u64 \<Rightarrow> message" where
  "sample_message_at at = \<lparr>msg_cursor = 0, publisher = ''p'', payload_hex = [], published_at = at,
     ordering_key = None, attributes = fmempty, publisher_authenticated = False\<rparr>"

definition sample_script :: "log_op list" where
  "sample_script = [Append (sample_message_at 1), Append (sample_message_at 2), PruneTo 1]"

lemma sample_script_admissible: "admissible_run apply_log log_admissible empty_log sample_script"
  by (simp add: sample_script_def log_admissible_def next_cursor_def)

lemma sample_script_inv: "log_inv (replay apply_log empty_log sample_script)"
  by (rule topic_log.replay_inv[OF log_inv_empty sample_script_admissible])

lemma sample_script_state:
  "log_floor (replay apply_log empty_log sample_script) = 1"
  "log_messages (replay apply_log empty_log sample_script) = [(sample_message_at 2)\<lparr>msg_cursor := 2\<rparr>]"
  by (simp_all add: sample_script_def apply_log.simps empty_log_def next_cursor_def high_cursor_def Let_def)

lemma sample_script_high: "high_cursor (replay apply_log empty_log sample_script) = 2"
  by (simp add: high_cursor_def sample_script_state)

text \<open>C15: The log is the tail of the topic's history: after any script of appends and prunes from the
  empty log, it holds the messages appended so far without the first \<open>p\<close>, where \<open>p\<close> is what the
  prunes have dropped; every append gets the next number as its cursor, whatever cursor it carried.\<close>

theorem log_refines_history:
  assumes "admissible_run apply_log log_admissible empty_log ops"
  shows "log_refines (replay apply_log empty_log ops) (replay history_step ([], 0) ops)"
  by (rule replay_refines[OF _ assms]) (simp add: empty_log_def)

lemma log_refines_history_witness:
  "log_refines (replay apply_log empty_log sample_script) (replay history_step ([], 0) sample_script)"
  by (rule log_refines_history[OF sample_script_admissible])

text \<open>Lookup by cursor agrees with a scan: it finds a message exactly if that message is retained
  and carries the cursor, and it finds something exactly for the cursors above the floor up to the
  highest one.\<close>

theorem log_get_correct:
  assumes "log_inv l"
  shows "(log_get l c = Some m) = (m \<in> set (log_messages l) \<and> msg_cursor m = c) \<and>
    (log_get l c = None) = (c \<le> log_floor l \<or> high_cursor l < c)"
  using assms by (simp_all add: log_get_in_set log_get_None)

lemma log_get_correct_witness:
  "log_get (replay apply_log empty_log sample_script) 2 = Some ((sample_message_at 2)\<lparr>msg_cursor := 2\<rparr>)"
  using log_get_correct[OF sample_script_inv, of 2] by (simp add: sample_script_state)

text \<open>Cursors are absolute: an append stores its message at the next cursor and moves no other
  message, and a prune removes exactly the messages up to its argument, without moving the highest
  cursor.\<close>

theorem log_cursors_absolute:
  assumes "log_inv l"
  shows "(high_cursor l \<noteq> top_word \<longrightarrow>
      log_get (apply_log l (Append n)) c =
        (if c = high_cursor l + 1 then Some (n\<lparr>msg_cursor := c\<rparr>) else log_get l c)) \<and>
    log_get (apply_log l (PruneTo u)) c = (if u < c then log_get l c else None) \<and>
    high_cursor (apply_log l (PruneTo u)) = high_cursor l"
  using assms by (simp_all add: log_get_append log_get_prune high_cursor_prune)

lemma log_cursors_absolute_witness:
  "log_get (apply_log (replay apply_log empty_log sample_script) (Append (sample_message_at 3))) 3 =
     Some ((sample_message_at 3)\<lparr>msg_cursor := 3\<rparr>)"
  using log_cursors_absolute[OF sample_script_inv, of "sample_message_at 3" 3]
  by (simp add: sample_script_high)

text \<open>Replay returns the exact strict tail: the cursors of \<open>since(from)\<close> are, in order and without
  gaps, the retained ones above \<open>from\<close>.\<close>

theorem log_since_exact:
  assumes "log_inv l"
  shows "map cursor_nat (log_since l from) =
      [Suc (max (unat from) (unat (log_floor l))) ..< Suc (unat (high_cursor l))]"
proof -
  let ?f = "unat (log_floor l)" and ?n = "length (log_messages l)"
  have "map cursor_nat (log_messages l) = [Suc ?f ..< Suc (?f + ?n)]"
    using assms by (intro nth_equalityI) (auto simp: log_inv_def numbered_def simp del: upt_Suc)
  then show ?thesis
    by (simp add: log_since_drop[OF assms] unat_high_cursor[OF assms] drop_map[symmetric] del: upt_Suc)
      (auto simp: max_def simp del: upt_Suc)
qed


lemma log_since_exact_witness: "map cursor_nat (log_since (replay apply_log empty_log sample_script) 0) = [2]"
  using log_since_exact[OF sample_script_inv, of 0] by (simp add: sample_script_high sample_script_state upt_rec)

end
