(* ===== verification/Reader.thy ===== *)
theory Reader
  imports Topic_Log
begin

text \<open>
  The reading side of \<open>src/src/lib.rs\<close> on one replica of a topic log: convergence of the replica,
  and the page of messages that a \<open>Replay\<close> reports.  The replica is kept up to date by \<open>ce-coord\<close>
  while the loops poll it, so what a pull sees is a parameter: the record \<open>replica_view\<close> gives the
  state, the version and the clock at each look.
\<close>

definition DEFAULT_PULL_LIMIT :: nat where "DEFAULT_PULL_LIMIT = 1000"
definition MAX_PULL_LIMIT :: nat where "MAX_PULL_LIMIT = 100000"

section \<open>A replica while it is read\<close>

record replica_view =
  shown :: "nat \<Rightarrow> topic_log"
  applied :: "nat \<Rightarrow> u64"
  late :: "nat \<Rightarrow> bool"

text \<open>\<open>ce-coord\<close> replays the owner's operations in order: between two looks the replica applies some
  further operations, none of which wraps the cursor.\<close>

definition follows :: "replica_view \<Rightarrow> bool" where
  "follows v \<longleftrightarrow> log_inv (shown v 0) \<and>
     (\<forall>i. \<exists>ops. admissible_run apply_log log_admissible (shown v i) ops \<and>
        shown v (Suc i) = replay apply_log (shown v i) ops)"

lemma follows_inv: "follows v \<Longrightarrow> log_inv (shown v i)"
proof (induction i)
  case (Suc i)
  then obtain ops where "admissible_run apply_log log_admissible (shown v i) ops"
    "shown v (Suc i) = replay apply_log (shown v i) ops"
    unfolding follows_def by blast
  with Suc topic_log.replay_inv show ?case by simp
qed (simp add: follows_def)

lemma follows_mono:
  assumes "follows v" "i \<le> j"
  shows "high_cursor (shown v i) \<le> high_cursor (shown v j)"
  using assms(2)
proof (induction rule: dec_induct)
  case (step j)
  obtain ops where "admissible_run apply_log log_admissible (shown v j) ops"
    "shown v (Suc j) = replay apply_log (shown v j) ops"
    using assms(1) unfolding follows_def by blast
  with log_high.replay_mono[OF follows_inv[OF assms(1)]]
  have "high_cursor (shown v j) \<le> high_cursor (shown v (Suc j))" by simp
  with step show ?case by (meson order_trans)
qed simp

section \<open>Convergence\<close>

text \<open>Both loops answer the index of the next look with their result; they sleep between two looks.\<close>

partial_function (option) await_target :: "replica_view \<Rightarrow> cursor \<Rightarrow> nat \<Rightarrow> (bool \<times> nat) option" where
  "await_target v t i =
     (if t \<le> high_cursor (shown v i) then Some (True, Suc i)
      else if late v i then Some (t \<le> high_cursor (shown v (Suc i)), Suc (Suc i))
      else await_target v t (Suc i))"

partial_function (option) quiet_window :: "replica_view \<Rightarrow> u64 \<Rightarrow> u32 \<Rightarrow> nat \<Rightarrow> nat option" where
  "quiet_window v prev streak i =
     (let n = applied v i in
      if n = prev then
        (if 2 \<le> streak + 1 then Some (Suc i)
         else if late v i then Some (Suc i) else quiet_window v prev (streak + 1) (Suc i))
      else if late v i then Some (Suc i) else quiet_window v n 0 (Suc i))"

definition converge_to :: "replica_view \<Rightarrow> cursor option \<Rightarrow> (bool \<times> nat) option" where
  "converge_to v target =
     (case target of
        Some t \<Rightarrow> await_target v t 0
      | None \<Rightarrow> map_option (Pair False) (quiet_window v (applied v 0) 0 1))"

lemma await_target_returns:
  assumes "late v k" "i \<le> k"
  shows "await_target v t i \<noteq> None"
  using assms(2)
proof (induction i rule: inc_induct)
  case base
  then show ?case using assms(1) by (subst await_target.simps) auto
next
  case (step i)
  then show ?case by (subst await_target.simps) auto
qed

lemma quiet_window_returns:
  assumes "late v k" "i \<le> k"
  shows "quiet_window v prev streak i \<noteq> None"
  using assms(2)
proof (induction i arbitrary: prev streak rule: inc_induct)
  case base
  then show ?case using assms(1) by (subst quiet_window.simps) (simp add: Let_def)
next
  case (step i)
  then show ?case by (subst quiet_window.simps) (simp add: Let_def)
qed

lemma converge_returns:
  assumes "late v k" "0 < k"
  shows "converge_to v target \<noteq> None"
proof (cases target)
  case None
  then show ?thesis
    using quiet_window_returns[OF assms(1), of 1 "applied v 0" 0] assms(2) by (simp add: converge_to_def)
next
  case (Some t)
  then show ?thesis using await_target_returns[OF assms(1), of 0 t] by (simp add: converge_to_def)
qed

lemma await_target_sound:
  "await_target v t i = Some r \<Longrightarrow> 0 < snd r \<and> fst r = (t \<le> high_cursor (shown v (snd r - 1)))"
proof (induction v t i r rule: await_target.raw_induct[rotated, consumes 1])
  case (1 f v t i r)
  then show ?case by (cases r) (auto split: if_splits)
qed

text \<open>The answer of \<open>converge_to\<close>: reached exactly if a target is known and the last look showed it.\<close>

lemma converge_sound:
  assumes "converge_to v target = Some (yes, j)"
  shows "yes \<longleftrightarrow> (\<exists>t. target = Some t \<and> 0 < j \<and> t \<le> high_cursor (shown v (j - 1)))"
  using assms await_target_sound[of v _ 0 "(yes, j)"]
  by (auto simp: converge_to_def split: option.splits)

lemma converged_reached:
  assumes "follows v" "converge_to v target = Some (True, i)"
  shows "\<exists>t. target = Some t \<and> t \<le> high_cursor (shown v i)"
  using converge_sound[OF assms(2)] follows_mono[OF assms(1), of "i - 1" i] by (auto intro: order_trans)

section \<open>One page\<close>

record replay_page =
  rp_messages :: "message list"
  rp_high :: cursor
  rp_next :: cursor
  rp_target :: "cursor option"
  rp_converged :: bool
  rp_truncated :: bool
  rp_floor :: cursor
  rp_missing :: u64

definition replay_len :: "replay_page \<Rightarrow> nat" where
  "replay_len r = length (rp_messages r)"

definition replay_is_empty :: "replay_page \<Rightarrow> bool" where
  "replay_is_empty r \<longleftrightarrow> rp_messages r = []"

definition clamp_limit :: "nat \<Rightarrow> nat" where
  "clamp_limit limit = max 1 (min limit MAX_PULL_LIMIT)"

definition make_page :: "topic_log \<Rightarrow> cursor \<Rightarrow> nat \<Rightarrow> cursor option \<Rightarrow> bool \<Rightarrow> replay_page" where
  "make_page l from limit target converged =
     (let messages = log_since l from; truncated = length messages > limit;
          messages = (if truncated then take limit messages else messages) in
      \<lparr>rp_messages = messages, rp_high = high_cursor l,
       rp_next = (if messages = [] then from else msg_cursor (last messages)),
       rp_target = target, rp_converged = converged, rp_truncated = truncated, rp_floor = log_floor l,
       rp_missing = (case target of Some t \<Rightarrow> sat_sub t (high_cursor l) | None \<Rightarrow> 0)\<rparr>)"

lemma make_page_fields [simp]:
  "rp_messages (make_page l from limit target yes) = take limit (log_since l from)"
  "rp_high (make_page l from limit target yes) = high_cursor l"
  "rp_target (make_page l from limit target yes) = target"
  "rp_converged (make_page l from limit target yes) = yes"
  "rp_truncated (make_page l from limit target yes) = (limit < length (log_since l from))"
  "rp_floor (make_page l from limit target yes) = log_floor l"
  "rp_missing (make_page l from limit target yes) =
     (case target of Some t \<Rightarrow> sat_sub t (high_cursor l) | None \<Rightarrow> 0)"
  by (simp_all add: make_page_def Let_def)

lemma make_page_next:
  "rp_next (make_page l from limit target yes) =
     (if take limit (log_since l from) = [] then from else msg_cursor (last (take limit (log_since l from))))"
  by (simp add: make_page_def Let_def)

text \<open>What is left after a page is what follows its last message.\<close>

lemma log_since_tail:
  assumes "log_inv l" "0 < limit"
  shows "log_since l (rp_next (make_page l from limit target yes)) = drop limit (log_since l from)"
proof (cases "log_since l from = []")
  case True
  then show ?thesis by (simp add: make_page_next)
next
  case False
  let ?xs = "log_since l from" and ?k = "unat from - unat (log_floor l)"
  let ?n = "min limit (length ?xs)"
  have xs: "?xs = drop ?k (log_messages l)" by (rule log_since_drop[OF assms(1)])
  have n: "0 < ?n" "?n \<le> length ?xs" "?k + (?n - 1) < length (log_messages l)"
    using assms(2) False by (auto simp: xs)
  have "take limit ?xs \<noteq> []" using assms(2) False by simp
  then have "last (take limit ?xs) = ?xs ! (?n - 1)"
    using assms(2) False by (subst last_conv_nth) (simp_all add: min.commute nth_take diff_less)
  also have "\<dots> = log_messages l ! (?k + (?n - 1))"
    using n by (simp add: xs ac_simps)
  finally have "unat (rp_next (make_page l from limit target yes)) = Suc (unat (log_floor l) + (?k + (?n - 1)))"
    using assms(2) False numbered_nth[OF conjunct2[OF assms(1)[unfolded log_inv_def]] n(3)]
    by (simp add: make_page_next)
  then have "unat (rp_next (make_page l from limit target yes)) - unat (log_floor l) = ?n + ?k" using n(1) by linarith
  then have "log_since l (rp_next (make_page l from limit target yes)) = drop ?n ?xs"
    unfolding log_since_drop[OF assms(1), of "rp_next _"] xs drop_drop by simp
  then show ?thesis by (simp add: min_def)
qed

lemma in_log_since:
  assumes "log_inv l" "max from (log_floor l) < c" "c \<le> high_cursor l"
  shows "\<exists>m \<in> set (log_since l from). msg_cursor m = c"
proof -
  obtain m where "log_get l c = Some m"
    using topic_store.found[OF assms(1), of c] assms(2,3) by auto
  with assms show ?thesis by (auto simp: log_get_in_set log_since_def)
qed

end
