(* ===== verification/Attr_Filter.thy ===== *)
theory Attr_Filter
  imports Message
begin

text \<open>
  The attribute filter of \<open>src/src/message.rs\<close> and its parser.  The parser scans bytes with an
  index; here it consumes the remaining bytes, and keeps the index for the one error that reports it.
\<close>

section \<open>Filters\<close>

record attribute_filter =
  clauses :: "(string \<times> string) list"

definition filter_any :: attribute_filter where
  "filter_any = \<lparr>clauses = []\<rparr>"

definition filter_require :: "attribute_filter \<Rightarrow> string \<Rightarrow> string \<Rightarrow> attribute_filter" where
  "filter_require f k v = f\<lparr>clauses := clauses f @ [(k, v)]\<rparr>"

definition filter_is_empty :: "attribute_filter \<Rightarrow> bool" where
  "filter_is_empty f \<longleftrightarrow> clauses f = []"

definition filter_matches :: "attribute_filter \<Rightarrow> message \<Rightarrow> bool" where
  "filter_matches f m =
     list_all (\<lambda>(k, v). case fmlookup (attributes m) k of Some got \<Rightarrow> got = v | None \<Rightarrow> False) (clauses f)"

lemma filter_matches_iff:
  "filter_matches f m \<longleftrightarrow> (\<forall>(k, v) \<in> set (clauses f). fmlookup (attributes m) k = Some v)"
  by (auto simp: filter_matches_def list_all_iff split: option.splits)

lemma filter_matches_any [simp]: "filter_matches filter_any m"
  by (simp add: filter_matches_def filter_any_def)

lemma filter_matches_require:
  "filter_matches (filter_require f k v) m \<longleftrightarrow>
     filter_matches f m \<and> fmlookup (attributes m) k = Some v"
  by (auto simp: filter_matches_iff filter_require_def)

section \<open>Trimming\<close>

text \<open>\<open>u8::is_ascii_whitespace\<close>: space, tab, line feed, form feed, carriage return.\<close>

definition is_ascii_whitespace :: "char \<Rightarrow> bool" where
  "is_ascii_whitespace c \<longleftrightarrow>
     c = CHR '' '' \<or> c = CHR 0x09 \<or> c = CHR 0x0A \<or> c = CHR 0x0C \<or> c = CHR 0x0D"

text \<open>
  \<open>str::trim\<close> removes Unicode white space at both ends.  These are the UTF-8 encodings of the
  characters with the property \<open>White_Space\<close>; in well-formed UTF-8 a text starts (ends) with one of
  the characters exactly if its bytes start (end) with one of the encodings.
\<close>

definition white_space :: "string list" where
  "white_space =
     map (\<lambda>c. [c]) [CHR 0x09, CHR 0x0A, CHR 0x0B, CHR 0x0C, CHR 0x0D, CHR 0x20] @
     map (\<lambda>c. [CHR 0xC2, c]) [CHR 0x85, CHR 0xA0] @
     [[CHR 0xE1, CHR 0x9A, CHR 0x80]] @
     map (\<lambda>c. [CHR 0xE2, CHR 0x80, c])
       [CHR 0x80, CHR 0x81, CHR 0x82, CHR 0x83, CHR 0x84, CHR 0x85, CHR 0x86, CHR 0x87, CHR 0x88,
        CHR 0x89, CHR 0x8A, CHR 0xA8, CHR 0xA9, CHR 0xAF] @
     [[CHR 0xE2, CHR 0x81, CHR 0x9F], [CHR 0xE3, CHR 0x80, CHR 0x80]]"

definition starts_with :: "string \<Rightarrow> string \<Rightarrow> bool" where
  "starts_with s w \<longleftrightarrow> take (length w) s = w"

function strip_all :: "string list \<Rightarrow> string \<Rightarrow> string" where
  "strip_all ws s =
     (case find (\<lambda>w. w \<noteq> [] \<and> starts_with s w) ws of
        None \<Rightarrow> s
      | Some w \<Rightarrow> strip_all ws (drop (length w) s))"
  by pat_completeness auto
termination
  by (relation "measure (\<lambda>(ws, s). length s)")
    (auto simp: find_Some_iff starts_with_def, metis diff_less length_greater_0_conv take_eq_Nil)

declare strip_all.simps [simp del]

definition trim_start :: "string \<Rightarrow> string" where
  "trim_start s = strip_all white_space s"

definition trim_end :: "string \<Rightarrow> string" where
  "trim_end s = rev (strip_all (map rev white_space) (rev s))"

definition trim :: "string \<Rightarrow> string" where
  "trim s = trim_end (trim_start s)"

text \<open>\<open>key.strip_prefix("attributes.")\<close>, keeping the key where there is no prefix.\<close>

definition strip_attributes_prefix :: "string \<Rightarrow> string" where
  "strip_attributes_prefix key =
     (if starts_with key ''attributes.'' then drop (length ''attributes.'') key else key)"

section \<open>The parser\<close>

text \<open>
  One round of the outer \<open>while\<close>: \<open>i\<close> is the index of the remaining bytes \<open>s\<close> in the input.  The
  result is \<open>None\<close> where only white space is left, else the clause and what follows its closing quote.
\<close>

definition parse_clause :: "nat \<Rightarrow> string \<Rightarrow> message_error + ((string \<times> string) \<times> string) option" where
  "parse_clause i s =
     (let s1 = dropWhile is_ascii_whitespace s;
          key_start = i + (length s - length s1) in
      if s1 = [] then Inr None
      else
        let raw = takeWhile (\<lambda>c. c \<noteq> CHR ''='') s1;
            s2 = dropWhile (\<lambda>c. c \<noteq> CHR ''='') s1 in
        if s2 = [] then Inl (Filter_missing_equals key_start)
        else
          let key = strip_attributes_prefix (trim raw);
              s3 = tl s2;
              s4 = (if s3 \<noteq> [] \<and> hd s3 = CHR ''='' then tl s3 else s3);
              s5 = dropWhile is_ascii_whitespace s4 in
          if s5 = [] \<or> hd s5 \<noteq> CHR 0x22 then Inl (Filter_value_not_quoted key)
          else
            let val = takeWhile (\<lambda>c. c \<noteq> CHR 0x22) (tl s5);
                s6 = dropWhile (\<lambda>c. c \<noteq> CHR 0x22) (tl s5) in
            if s6 = [] then Inl (Filter_value_unterminated key)
            else if key = [] then Inl Filter_key_empty
            else Inr (Some ((key, val), tl s6)))"

text \<open>A parsed clause and its rest, taken apart.\<close>

lemma parse_clause_Some:
  assumes "parse_clause i s = Inr (Some ((k, v), rest))"
  obtains raw s4 ws
  where "dropWhile is_ascii_whitespace s = raw @ CHR ''='' # ws"
    and "CHR ''='' \<notin> set raw" and "k = strip_attributes_prefix (trim raw)" and "k \<noteq> []"
    and "ws = s4 \<or> ws = CHR ''='' # s4"
    and "dropWhile is_ascii_whitespace s4 = CHR 0x22 # v @ CHR 0x22 # rest"
    and "CHR 0x22 \<notin> set v"
proof -
  define s1 where "s1 = dropWhile is_ascii_whitespace s"
  define raw where "raw = takeWhile (\<lambda>c. c \<noteq> CHR ''='') s1"
  define s2 where "s2 = dropWhile (\<lambda>c. c \<noteq> CHR ''='') s1"
  define s4 where "s4 = (if tl s2 \<noteq> [] \<and> hd (tl s2) = CHR ''='' then tl (tl s2) else tl s2)"
  define s5 where "s5 = dropWhile is_ascii_whitespace s4"
  define s6 where "s6 = dropWhile (\<lambda>c. c \<noteq> CHR 0x22) (tl s5)"
  note defs = s1_def raw_def s2_def s4_def s5_def s6_def
  have parts: "s2 \<noteq> []" "s5 \<noteq> []" "hd s5 = CHR 0x22" "s6 \<noteq> []" "k \<noteq> []" "rest = tl s6"
    "k = strip_attributes_prefix (trim raw)" "v = takeWhile (\<lambda>c. c \<noteq> CHR 0x22) (tl s5)"
    using assms unfolding parse_clause_def Let_def defs[symmetric] by (auto split: if_splits)
  have eq: "s1 = raw @ s2" "hd s2 = CHR ''=''" "tl s5 = v @ s6" "hd s6 = CHR 0x22"
    using parts hd_dropWhile[of "\<lambda>c. c \<noteq> CHR ''=''" s1] hd_dropWhile[of "\<lambda>c. c \<noteq> CHR 0x22" "tl s5"]
    by (simp_all add: raw_def s2_def s6_def)
  show thesis
  proof (rule that)
    show "dropWhile is_ascii_whitespace s = raw @ CHR ''='' # tl s2"
      using eq parts by (metis list.collapse s1_def)
    show "CHR ''='' \<notin> set raw" unfolding raw_def by (auto dest: set_takeWhileD)
    show "tl s2 = s4 \<or> tl s2 = CHR ''='' # s4" unfolding s4_def by (metis list.collapse)
    show "dropWhile is_ascii_whitespace s4 = CHR 0x22 # v @ CHR 0x22 # rest"
      using eq parts by (metis list.collapse s5_def)
    show "CHR 0x22 \<notin> set v" using parts(8) by (auto dest: set_takeWhileD)
  qed (use parts in auto)
qed

lemma parse_clause_shorter:
  assumes "parse_clause i s = Inr (Some (cl, rest))"
  shows "length rest < length s"
proof -
  obtain k v where cl: "cl = (k, v)" by fastforce
  from assms[unfolded cl] show ?thesis
  proof (rule parse_clause_Some)
    fix raw s4 ws
    assume s: "dropWhile is_ascii_whitespace s = raw @ CHR ''='' # ws"
      and ws: "ws = s4 \<or> ws = CHR ''='' # s4"
      and rest: "dropWhile is_ascii_whitespace s4 = CHR 0x22 # v @ CHR 0x22 # rest"
    have "length ws < length s"
      using length_dropWhile_le[of is_ascii_whitespace s] by (simp add: s)
    moreover have "length rest < length s4"
      using length_dropWhile_le[of is_ascii_whitespace s4] by (simp add: rest)
    ultimately show ?thesis using ws by auto
  qed
qed

function parse_clauses ::
  "nat \<Rightarrow> string \<Rightarrow> (string \<times> string) list \<Rightarrow> message_error + (string \<times> string) list" where
  "parse_clauses i s acc =
     (case parse_clause i s of
        Inl e \<Rightarrow> Inl e
      | Inr None \<Rightarrow> Inr acc
      | Inr (Some (clause, rest)) \<Rightarrow>
          parse_clauses (i + (length s - length rest)) rest (acc @ [clause]))"
  by pat_completeness auto
termination
  by (relation "measure (\<lambda>(i, s, acc). length s)") (auto dest: parse_clause_shorter)

declare parse_clauses.simps [simp del]

definition filter_parse :: "string \<Rightarrow> error + attribute_filter" where
  "filter_parse input =
     (let s = trim input in
      if s = [] then Inr filter_any
      else map_err Message
             (and_then (parse_clauses 0 s []) (\<lambda>cs. Inr \<lparr>clauses = cs\<rparr>)))"



section \<open>Trimming, characterised\<close>

lemma strip_all_suffix: "\<exists>n. strip_all ws s = drop n s"
proof (induction ws s rule: strip_all.induct)
  case (1 ws s)
  show ?case
  proof (cases "find (\<lambda>w. w \<noteq> [] \<and> starts_with s w) ws")
    case None
    then have "strip_all ws s = drop 0 s" by (simp add: strip_all.simps)
    then show ?thesis by blast
  next
    case (Some w)
    then have "strip_all ws s = strip_all ws (drop (length w) s)"
      by (subst strip_all.simps) simp
    with "1.IH"[OF Some] show ?thesis by (metis drop_drop)
  qed
qed

lemma strip_all_Nil [simp]: "strip_all ws [] = []"
  using strip_all_suffix[of ws "[]"] by auto

lemma strip_all_fixed_iff:
  "strip_all ws s = s \<longleftrightarrow> (\<forall>w \<in> set ws. w \<noteq> [] \<longrightarrow> \<not> starts_with s w)"
proof (cases "find (\<lambda>w. w \<noteq> [] \<and> starts_with s w) ws")
  case None
  then have "strip_all ws s = s" by (simp add: strip_all.simps[of ws s])
  moreover have "\<forall>w \<in> set ws. w \<noteq> [] \<longrightarrow> \<not> starts_with s w"
    using None by (auto simp: find_None_iff)
  ultimately show ?thesis by blast
next
  case (Some w)
  then have w: "w \<in> set ws" "w \<noteq> []" "starts_with s w"
    by (auto simp: find_Some_iff)
  obtain n where "strip_all ws (drop (length w) s) = drop n (drop (length w) s)"
    using strip_all_suffix by blast
  moreover have "s \<noteq> []" "0 < length w"
    using w by (auto simp: starts_with_def)
  ultimately have "length (strip_all ws s) < length s"
    using Some by (subst strip_all.simps) (simp add: diff_less)
  with w show ?thesis by (metis less_irrefl)
qed

lemma starts_with_append_stop:
  assumes "starts_with (k @ c # r) w" "c \<notin> set w"
  shows "starts_with k w"
proof -
  have "length w \<le> length k"
  proof (rule ccontr)
    assume "\<not> length w \<le> length k"
    then have "length k < length w" by simp
    moreover have "w = take (length w) (k @ c # r)" using assms(1) by (simp add: starts_with_def)
    ultimately have "w ! length k = c" by (metis nth_append_length nth_take)
    with assms(2) show False using \<open>length k < length w\<close> nth_mem by blast
  qed
  with assms(1) show ?thesis by (simp add: starts_with_def)
qed

lemma white_space_chars: "w \<in> set white_space \<Longrightarrow> CHR ''='' \<notin> set w \<and> CHR 0x22 \<notin> set w"
  by (auto simp: white_space_def)

lemma ascii_white_space: "is_ascii_whitespace c \<Longrightarrow> [c] \<in> set white_space"
  by (auto simp: white_space_def is_ascii_whitespace_def)

lemma white_space_nonempty: "w \<in> set white_space \<Longrightarrow> w \<noteq> []"
  by (auto simp: white_space_def)

lemma length_trim_end: "length (trim_end s) \<le> length s"
  using strip_all_suffix[of "map rev white_space" "rev s"] by (auto simp: trim_end_def)

lemma trim_fixedD:
  assumes "trim s = s"
  shows "trim_start s = s" "trim_end s = s"
proof -
  obtain n where n: "trim_start s = drop n s"
    using strip_all_suffix[of white_space s] by (auto simp: trim_start_def)
  have "length s \<le> length (trim_start s)"
    using length_trim_end[of "trim_start s"] assms by (simp add: trim_def)
  with n have "n = 0 \<or> s = []" by (cases s) auto
  with n show "trim_start s = s" by auto
  with assms show "trim_end s = s" by (simp add: trim_def)
qed

lemma set_strip_all: "set (strip_all ws r) \<subseteq> set r"
  using strip_all_suffix[of ws r] by (auto dest: in_set_dropD)

lemma set_trim: "set (trim s) \<subseteq> set s"
  using set_strip_all[of "map rev white_space" "rev (trim_start s)"] set_strip_all[of white_space s]
  by (auto simp: trim_def trim_end_def trim_start_def)

text \<open>A text that shares no byte with a white-space character is trimmed already.\<close>

lemma trim_clean:
  assumes "\<And>w. w \<in> set white_space \<Longrightarrow> set w \<inter> set s = {}"
  shows "trim s = s"
proof -
  have first: "\<not> starts_with t w" if "w \<noteq> []" "set w \<inter> set t = {}" for t w
  proof
    assume "starts_with t w"
    then have "set w \<subseteq> set t" unfolding starts_with_def by (metis set_take_subset)
    with that show False by (cases w) auto
  qed
  have "trim_start s = s"
    unfolding trim_start_def strip_all_fixed_iff using assms first by blast
  moreover have "strip_all (map rev white_space) (rev s) = rev s"
    unfolding strip_all_fixed_iff using assms first[of "rev _" "rev s"] by auto
  ultimately show ?thesis by (simp add: trim_def trim_end_def)
qed

lemma set_strip_attributes_prefix: "set (strip_attributes_prefix k) \<subseteq> set k"
  by (auto simp: strip_attributes_prefix_def dest: in_set_dropD)

section \<open>What the parser accepts\<close>

lemma parse_clauses_sound:
  assumes "parse_clauses i s acc = Inr cs"
    and "\<forall>(k, v) \<in> set acc. k \<noteq> [] \<and> CHR ''='' \<notin> set k \<and> CHR 0x22 \<notin> set v"
  shows "\<forall>(k, v) \<in> set cs. k \<noteq> [] \<and> CHR ''='' \<notin> set k \<and> CHR 0x22 \<notin> set v"
  using assms
proof (induction i s acc rule: parse_clauses.induct)
  case (1 i s acc)
  show ?case
  proof (cases "parse_clause i s")
    case (Inl e)
    with "1.prems"(1) show ?thesis by (simp add: parse_clauses.simps)
  next
    case (Inr r)
    show ?thesis
    proof (cases r)
      case None
      with Inr "1.prems" show ?thesis by (simp add: parse_clauses.simps)
    next
      case (Some p)
      obtain k v rest where p: "p = ((k, v), rest)" by (metis prod.exhaust)
      with Some Inr have r: "parse_clause i s = Inr (Some ((k, v), rest))" by simp
      then have "k \<noteq> [] \<and> CHR ''='' \<notin> set k \<and> CHR 0x22 \<notin> set v"
        by (elim parse_clause_Some) (use set_trim set_strip_attributes_prefix in blast)
      with r "1.prems" show ?thesis
        by (intro "1.IH"[OF Inr Some p[symmetric]]) (auto simp: parse_clauses.simps[of i s acc])
    qed
  qed
qed

text \<open>What the filter parser accepts is well formed: every clause has a key that is not empty and
  holds no equals sign, and a value that holds no quote.\<close>

theorem filter_parse_sound:
  assumes "filter_parse input = Inr f" "(k, v) \<in> set (clauses f)"
  shows "k \<noteq> [] \<and> CHR ''='' \<notin> set k \<and> CHR 0x22 \<notin> set v"
proof (cases "trim input = []")
  case True
  with assms show ?thesis by (auto simp: filter_parse_def filter_any_def)
next
  case False
  with assms(1) have "parse_clauses 0 (trim input) [] = Inr (clauses f)"
    by (auto simp: filter_parse_def Let_def result_simps)
  from parse_clauses_sound[OF this] assms(2) show ?thesis by auto
qed

theorem filter_parse_sound_witness:
  "''kind'' \<noteq> [] \<and> CHR ''='' \<notin> set ''kind'' \<and> CHR 0x22 \<notin> set ''a b''"
proof -
  have "filter_parse (''attributes.kind == '' @ [CHR 0x22] @ ''a b'' @ [CHR 0x22])
      = Inr \<lparr>clauses = [(''kind'', ''a b'')]\<rparr>"
    by code_simp
  from filter_parse_sound[OF this] show ?thesis by simp
qed

section \<open>Round trip\<close>

text \<open>The compact text of a filter: clauses \<open>key="value"\<close> separated by one space.\<close>

fun render_clause :: "string \<times> string \<Rightarrow> string" where
  "render_clause (k, v) = k @ CHR ''='' # CHR 0x22 # v @ [CHR 0x22]"

fun render_clauses :: "(string \<times> string) list \<Rightarrow> string" where
  "render_clauses [] = []"
| "render_clauses [c] = render_clause c"
| "render_clauses (c # cs) = render_clause c @ CHR '' '' # render_clauses cs"

definition plain_clause :: "string \<times> string \<Rightarrow> bool" where
  "plain_clause c \<longleftrightarrow> (case c of (k, v) \<Rightarrow>
     k \<noteq> [] \<and> CHR ''='' \<notin> set k \<and> trim k = k \<and> \<not> starts_with k ''attributes.'' \<and> CHR 0x22 \<notin> set v)"

lemma plain_key_head: "k \<noteq> [] \<Longrightarrow> trim k = k \<Longrightarrow> \<not> is_ascii_whitespace (hd k)"
proof
  assume k: "k \<noteq> []" "trim k = k" "is_ascii_whitespace (hd k)"
  from k(2) have "trim_start k = k" by (rule trim_fixedD)
  then have "\<forall>w \<in> set white_space. w \<noteq> [] \<longrightarrow> \<not> starts_with k w"
    unfolding trim_start_def by (simp only: strip_all_fixed_iff)
  with ascii_white_space[OF k(3)] have "\<not> starts_with k [hd k]" by blast
  with k(1) show False by (cases k) (simp_all add: starts_with_def)
qed

lemma parse_rendered_clause:
  assumes "plain_clause (k, v)" "list_all is_ascii_whitespace ws"
  shows "parse_clause i (ws @ render_clause (k, v) @ rest) = Inr (Some ((k, v), rest))"
proof -
  have key: "k \<noteq> []" "CHR ''='' \<notin> set k" "trim k = k" "strip_attributes_prefix k = k"
    and val: "CHR 0x22 \<notin> set v"
    using assms(1) by (auto simp: plain_clause_def strip_attributes_prefix_def)
  have q: "\<not> is_ascii_whitespace (CHR 0x22)" by (simp add: is_ascii_whitespace_def)
  let ?s1 = "k @ CHR ''='' # CHR 0x22 # v @ CHR 0x22 # rest"
  have "dropWhile is_ascii_whitespace (ws @ ?s1) = ?s1"
    using assms(2) plain_key_head[OF key(1,3)] key(1)
    by (subst dropWhile_append2) (auto simp: list_all_iff dropWhile_eq_self_iff)
  moreover have "takeWhile (\<lambda>c. c \<noteq> CHR ''='') ?s1 = k"
    and "dropWhile (\<lambda>c. c \<noteq> CHR ''='') ?s1 = CHR ''='' # CHR 0x22 # v @ CHR 0x22 # rest"
    using key(2) by (subst takeWhile_append2 dropWhile_append2; auto)+
  moreover have "takeWhile (\<lambda>c. c \<noteq> CHR 0x22) (v @ CHR 0x22 # rest) = v"
    and "dropWhile (\<lambda>c. c \<noteq> CHR 0x22) (v @ CHR 0x22 # rest) = CHR 0x22 # rest"
    using val by (subst takeWhile_append2 dropWhile_append2; auto)+
  ultimately show ?thesis
    using key q by (simp add: parse_clause_def Let_def)
qed

lemma parse_clause_end: "parse_clause i [] = Inr None"
  by (simp add: parse_clause_def)

lemma parse_rendered_clauses:
  assumes "list_all plain_clause cs" "list_all is_ascii_whitespace ws" "cs = [] \<longrightarrow> ws = []"
  shows "parse_clauses i (ws @ render_clauses cs) acc = Inr (acc @ cs)"
  using assms
proof (induction cs arbitrary: i ws acc)
  case Nil
  then show ?case by (simp add: parse_clauses.simps parse_clause_end)
next
  case (Cons c cs)
  obtain k v where c: "c = (k, v)" by fastforce
  define rest where "rest = (if cs = [] then [] else CHR '' '' # render_clauses cs)"
  have shape: "ws @ render_clauses (c # cs) = ws @ render_clause (k, v) @ rest"
    by (cases cs) (simp_all add: rest_def c)
  have head: "parse_clause i (ws @ render_clauses (c # cs)) = Inr (Some ((k, v), rest))"
    unfolding shape using Cons.prems c by (intro parse_rendered_clause) simp_all
  define j where "j = i + (length (ws @ render_clauses (c # cs)) - length rest)"
  have "parse_clauses j rest (acc @ [c]) = Inr ((acc @ [c]) @ cs)"
  proof (cases "cs = []")
    case True
    then show ?thesis using Cons.IH[of "[]" j "acc @ [c]"] by (simp add: rest_def)
  next
    case False
    then have rest: "rest = [CHR '' ''] @ render_clauses cs" by (simp add: rest_def)
    show ?thesis unfolding rest using Cons.prems False
      by (intro Cons.IH) (simp_all add: is_ascii_whitespace_def)
  qed
  then show ?case
    using head by (subst parse_clauses.simps) (simp add: c j_def)
qed

lemma render_clauses_last: "cs \<noteq> [] \<Longrightarrow> \<exists>l. render_clauses cs = l @ [CHR 0x22]"
proof (induction cs rule: render_clauses.induct)
  case (2 c)
  then show ?case by (cases c) simp
next
  case (3 c d cs)
  then obtain l where "render_clauses (d # cs) = l @ [CHR 0x22]" by blast
  then have "render_clauses (c # d # cs) = (render_clause c @ CHR '' '' # l) @ [CHR 0x22]" by simp
  then show ?case by blast
qed simp

lemma trim_rendered:
  assumes "list_all plain_clause cs" "cs \<noteq> []"
  shows "trim (render_clauses cs) = render_clauses cs"
proof -
  obtain k v cs' where cs: "cs = (k, v) # cs'" using assms(2) by (metis neq_Nil_conv prod.exhaust)
  then have k: "k \<noteq> []" "trim k = k" using assms(1) by (auto simp: plain_clause_def)
  obtain r where head: "render_clauses cs = k @ CHR ''='' # r" by (cases cs') (auto simp: cs)
  obtain l where last: "render_clauses cs = l @ [CHR 0x22]"
    using render_clauses_last[OF assms(2)] by blast
  have "\<not> starts_with k w" if "w \<in> set white_space" for w
    using trim_fixedD(1)[OF k(2)] white_space_nonempty[OF that] that
    unfolding trim_start_def strip_all_fixed_iff by blast
  then have "trim_start (render_clauses cs) = render_clauses cs"
    unfolding trim_start_def strip_all_fixed_iff head
    using starts_with_append_stop white_space_chars by blast
  moreover have "trim_end (render_clauses cs) = render_clauses cs"
  proof -
    have "strip_all (map rev white_space) (CHR 0x22 # rev l) = CHR 0x22 # rev l"
      unfolding strip_all_fixed_iff
    proof (intro ballI impI notI)
      fix w assume w: "w \<in> set (map rev white_space)" "w \<noteq> []" "starts_with (CHR 0x22 # rev l) w"
      then have "CHR 0x22 \<notin> set w" using white_space_chars by auto
      with w(2,3) show False by (cases w) (auto simp: starts_with_def)
    qed
    then show ?thesis by (simp add: trim_end_def last)
  qed
  ultimately show ?thesis by (simp add: trim_def)
qed

text \<open>C34: Parsing is the inverse of writing a filter down: the text of any list of clauses whose keys
  are trimmed, hold no equals sign and do not start with \<open>attributes.\<close>, and whose values hold no
  quote, parses to exactly these clauses, in their order.\<close>

theorem filter_parse_render:
  assumes "list_all plain_clause cs"
  shows "filter_parse (render_clauses cs) = Inr \<lparr>clauses = cs\<rparr>"
proof (cases "cs = []")
  case True
  then show ?thesis
    by (simp add: filter_parse_def filter_any_def trim_def trim_start_def trim_end_def)
next
  case False
  then have "render_clauses cs \<noteq> []"
    by (cases cs rule: render_clauses.cases) auto
  with trim_rendered[OF assms False] parse_rendered_clauses[OF assms, of "[]" 0 "[]"]
  show ?thesis by (simp add: filter_parse_def)
qed


theorem filter_parse_render_witness:
  "filter_parse (''kind='' @ [CHR 0x22] @ ''order'' @ [CHR 0x22] @ '' eu='' @ [CHR 0x22] @ '' '' @ [CHR 0x22])
     = Inr \<lparr>clauses = [(''kind'', ''order''), (''eu'', '' '')]\<rparr>"
proof -
  have "list_all plain_clause [(''kind'', ''order''), (''eu'', '' '')]" by code_simp
  from filter_parse_render[OF this] show ?thesis by simp
qed

end
