(* ===== verification/Client.thy ===== *)
theory Client
  imports Reader Protocol Attr_Filter
begin

text \<open>
  The publisher and consumer side of \<open>src/src/lib.rs\<close>: the operations of \<open>PubSub\<close> that ask a topic
  owner over the mesh, the durable pull, and the live subscription.  The mesh request of the node
  client is the parameter \<open>ce_request\<close>; it threads a state of the world \<open>'s\<close>, since a request changes
  the owner and may do so even when its reply is lost.
\<close>

section \<open>The handle\<close>

record 's client =
  node_id :: string
  client_hex :: hex_codec
  client_json :: json_codec
  ce_request :: "'s \<Rightarrow> string \<Rightarrow> string \<Rightarrow> bytes \<Rightarrow> u64 \<Rightarrow> 's \<times> (error + bytes)"
  open_reader :: "string \<Rightarrow> string \<Rightarrow> error + replica_view"
  peek_reader :: "string \<Rightarrow> string \<Rightarrow> error + topic_log"
  open_stream :: "string \<Rightarrow> error + (nat \<Rightarrow> message option)"

text \<open>One request with the context of its error: the encoding comes first, its error is passed on.\<close>

definition round_trip ::
  "'s client \<Rightarrow> 's \<Rightarrow> string \<Rightarrow> string \<Rightarrow> string \<Rightarrow> error + bytes \<Rightarrow> u64 \<Rightarrow> 's \<times> (error + bytes)" where
  "round_trip cl s context ow tp encoded timeout =
     (case encoded of
        Inl e \<Rightarrow> (s, Inl e)
      | Inr body \<Rightarrow>
          let (s1, reply) = ce_request cl s ow tp body timeout in (s1, map_err (Context context) reply))"

section \<open>Remote publish\<close>

definition publish_request ::
  "'s client \<Rightarrow> bytes \<Rightarrow> string option \<Rightarrow> publish_options \<Rightarrow> string option \<Rightarrow> ingest_request" where
  "publish_request cl payload grant opts key =
     \<lparr>req_payload_hex = hex_encode (client_hex cl) payload, req_grant = grant, req_idempotency_key = key,
      req_ordering_key = opt_ordering_key opts, req_attributes = opt_attributes opts\<rparr>"

definition publish_to_with ::
  "'s client \<Rightarrow> 's \<Rightarrow> string \<Rightarrow> string \<Rightarrow> bytes \<Rightarrow> string option \<Rightarrow> publish_options \<Rightarrow> string option \<Rightarrow> u64 \<Rightarrow>
    's \<times> (error + cursor)" where
  "publish_to_with cl s tp ow payload grant opts key timeout =
     (case and_then (validate_topic tp) (\<lambda>_. and_then (validate_payload payload) (\<lambda>_. options_validate opts)) of
        Inl e \<Rightarrow> (s, Inl e)
      | Inr _ \<Rightarrow>
          let (s1, r) = round_trip cl s ''publish request to topic owner'' ow (ingest_topic tp)
                (ingest_encode (client_json cl) (publish_request cl payload grant opts key)) timeout in
          (s1, and_then r (\<lambda>bs. and_then (ingest_reply_decode (client_json cl) bs) (\<lambda>reply.
             case reply of
               Accepted c \<Rightarrow> Inr c
             | Ingest_rejected why \<Rightarrow> Inl (Wrapped ''owner rejected publish'' why)))))"

definition publish_to ::
  "'s client \<Rightarrow> 's \<Rightarrow> string \<Rightarrow> string \<Rightarrow> bytes \<Rightarrow> string option \<Rightarrow> u64 \<Rightarrow> 's \<times> (error + cursor)" where
  "publish_to cl s tp ow payload grant timeout =
     publish_to_with cl s tp ow payload grant new_options None timeout"

section \<open>Subscription control\<close>

definition control ::
  "'s client \<Rightarrow> 's \<Rightarrow> string \<Rightarrow> string \<Rightarrow> control_request \<Rightarrow> u64 \<Rightarrow> 's \<times> (error + control_reply)" where
  "control cl s tp ow req timeout =
     (let (s1, r) = round_trip cl s ''control request to topic owner'' ow (control_topic tp)
            (control_encode (client_json cl) req) timeout in
      (s1, and_then r (control_reply_decode (client_json cl))))"

definition control_ok ::
  "'s client \<Rightarrow> 's \<Rightarrow> string \<Rightarrow> string \<Rightarrow> control_request \<Rightarrow> u64 \<Rightarrow> 's \<times> (error + unit)" where
  "control_ok cl s tp ow req timeout =
     (let (s1, r) = control cl s tp ow req timeout in
      (s1, and_then r (\<lambda>reply.
         case reply of
           Control_ok \<Rightarrow> Inr ()
         | Control_rejected why \<Rightarrow> Inl (Wrapped ''owner rejected'' why)
         | _ \<Rightarrow> Inl Unexpected_reply)))"

definition create_subscription ::
  "'s client \<Rightarrow> 's \<Rightarrow> string \<Rightarrow> string \<Rightarrow> string \<Rightarrow> subscription_policy \<Rightarrow> string option \<Rightarrow> u64 \<Rightarrow>
    's \<times> (error + unit)" where
  "create_subscription cl s tp ow name p grant timeout =
     (case and_then (validate_topic tp) (\<lambda>_. and_then (validate_topic name) (\<lambda>_. policy_validate p)) of
        Inl e \<Rightarrow> (s, Inl e)
      | Inr _ \<Rightarrow> control_ok cl s tp ow (CreateSubscription name p grant) timeout)"

definition delete_subscription ::
  "'s client \<Rightarrow> 's \<Rightarrow> string \<Rightarrow> string \<Rightarrow> string \<Rightarrow> string option \<Rightarrow> u64 \<Rightarrow> 's \<times> (error + unit)" where
  "delete_subscription cl s tp ow name grant timeout =
     (case validate_topic tp of
        Inl e \<Rightarrow> (s, Inl e)
      | Inr _ \<Rightarrow> control_ok cl s tp ow (DeleteSubscription name grant) timeout)"

definition list_subscriptions ::
  "'s client \<Rightarrow> 's \<Rightarrow> string \<Rightarrow> string \<Rightarrow> string option \<Rightarrow> u64 \<Rightarrow> 's \<times> (error + string list)" where
  "list_subscriptions cl s tp ow grant timeout =
     (case validate_topic tp of
        Inl e \<Rightarrow> (s, Inl e)
      | Inr _ \<Rightarrow>
          let (s1, r) = control cl s tp ow (ListSubscriptions grant) timeout in
          (s1, and_then r (\<lambda>reply.
             case reply of
               Subscriptions names \<Rightarrow> Inr names
             | Control_rejected why \<Rightarrow> Inl (Wrapped ''list rejected'' why)
             | _ \<Rightarrow> Inl Unexpected_reply)))"

definition lease_messages ::
  "'s client \<Rightarrow> 's \<Rightarrow> string \<Rightarrow> string \<Rightarrow> string \<Rightarrow> usize \<Rightarrow> string option \<Rightarrow> u64 \<Rightarrow>
    's \<times> (error + leased_message list)" where
  "lease_messages cl s tp ow name mx grant timeout =
     (case validate_topic tp of
        Inl e \<Rightarrow> (s, Inl e)
      | Inr _ \<Rightarrow>
          let (s1, r) = control cl s tp ow (Pull name mx grant) timeout in
          (s1, and_then r (\<lambda>reply.
             case reply of
               Pulled ms \<Rightarrow> Inr ms
             | Control_rejected why \<Rightarrow> Inl (Wrapped ''lease rejected'' why)
             | _ \<Rightarrow> Inl Unexpected_reply)))"

definition ack ::
  "'s client \<Rightarrow> 's \<Rightarrow> string \<Rightarrow> string \<Rightarrow> string \<Rightarrow> cursor \<Rightarrow> string option \<Rightarrow> u64 \<Rightarrow> 's \<times> (error + unit)" where
  "ack cl s tp ow name c grant timeout =
     (case validate_topic tp of
        Inl e \<Rightarrow> (s, Inl e)
      | Inr _ \<Rightarrow> control_ok cl s tp ow (AckCursor name c grant) timeout)"

definition nack ::
  "'s client \<Rightarrow> 's \<Rightarrow> string \<Rightarrow> string \<Rightarrow> string \<Rightarrow> cursor \<Rightarrow> string option \<Rightarrow> u64 \<Rightarrow> 's \<times> (error + unit)" where
  "nack cl s tp ow name c grant timeout =
     (case validate_topic tp of
        Inl e \<Rightarrow> (s, Inl e)
      | Inr _ \<Rightarrow> control_ok cl s tp ow (NackCursor name c grant) timeout)"

section \<open>Durable pull\<close>

definition fetch_high_cursor ::
  "'s client \<Rightarrow> 's \<Rightarrow> string \<Rightarrow> string \<Rightarrow> u64 \<Rightarrow> 's \<times> (error + cursor)" where
  "fetch_high_cursor cl s tp ow timeout =
     (if ow = node_id cl then
        (s, and_then (peek_reader cl (log_name tp) ow) (\<lambda>l. Inr (high_cursor l)))
      else
        let (s1, r) = round_trip cl s ''high-cursor request to owner'' ow (control_topic tp)
              (control_encode (client_json cl) (HighCursor None)) timeout in
        (s1, and_then r (\<lambda>bs. and_then (control_reply_decode (client_json cl) bs) (\<lambda>reply.
           case reply of
             High c \<Rightarrow> Inr c
           | Control_rejected why \<Rightarrow> Inl (Wrapped ''owner rejected high-cursor'' why)
           | _ \<Rightarrow> Inl Unexpected_reply))))"

text \<open>\<open>Result::ok\<close>.\<close>

definition ok_value :: "'e + 'a \<Rightarrow> 'a option" where
  "ok_value r = (case r of Inl _ \<Rightarrow> None | Inr a \<Rightarrow> Some a)"

text \<open>\<open>None\<close> is a pull that never returns.\<close>

definition pull_limited ::
  "'s client \<Rightarrow> 's \<Rightarrow> string \<Rightarrow> string \<Rightarrow> cursor \<Rightarrow> nat \<Rightarrow> u64 \<Rightarrow> ('s \<times> (error + replay_page)) option" where
  "pull_limited cl s tp ow from limit timeout =
     (case validate_topic tp of
        Inl e \<Rightarrow> Some (s, Inl e)
      | Inr _ \<Rightarrow>
          (case map_err (Context ''opening durable topic log as reader'') (open_reader cl (log_name tp) ow) of
             Inl e \<Rightarrow> Some (s, Inl e)
           | Inr v \<Rightarrow>
               let (s1, r) = fetch_high_cursor cl s tp ow timeout; target = ok_value r in
               map_option (\<lambda>(converged, i).
                 (s1, Inr (make_page (shown v i) from (clamp_limit limit) target converged)))
                 (converge_to v target)))"

definition pull ::
  "'s client \<Rightarrow> 's \<Rightarrow> string \<Rightarrow> string \<Rightarrow> cursor \<Rightarrow> ('s \<times> (error + replay_page)) option" where
  "pull cl s tp ow from = pull_limited cl s tp ow from DEFAULT_PULL_LIMIT 8000"

section \<open>Live subscription\<close>

text \<open>\<open>incoming\<close> gives the answers of \<open>stream.next()\<close> in order, \<open>None\<close> once the stream is closed.\<close>

record live_subscription =
  incoming :: "nat \<Rightarrow> message option"
  position :: nat
  live_filter :: attribute_filter

definition subscribe :: "'s client \<Rightarrow> string \<Rightarrow> string \<Rightarrow> error + live_subscription" where
  "subscribe cl tp ow =
     and_then (validate_topic tp) (\<lambda>_.
     and_then (map_err (Context ''opening live subscription stream'') (open_stream cl (live_stream_name tp ow)))
       (\<lambda>stream. Inr \<lparr>incoming = stream, position = 0, live_filter = filter_any\<rparr>))"

definition subscribe_filtered ::
  "'s client \<Rightarrow> string \<Rightarrow> string \<Rightarrow> attribute_filter \<Rightarrow> error + live_subscription" where
  "subscribe_filtered cl tp ow flt =
     and_then (subscribe cl tp ow) (\<lambda>sub. Inr (sub\<lparr>live_filter := flt\<rparr>))"

partial_function (option) recv ::
  "live_subscription \<Rightarrow> (live_subscription \<times> message option) option" where
  "recv sub =
     (let sub1 = sub\<lparr>position := Suc (position sub)\<rparr> in
      case incoming sub (position sub) of
        None \<Rightarrow> Some (sub1, None)
      | Some m \<Rightarrow>
          if filter_is_empty (live_filter sub) \<or> filter_matches (live_filter sub) m
          then Some (sub1, Some m) else recv sub1)"

section \<open>Lemmas\<close>

lemma ok_value_Some [simp]: "ok_value r = Some a \<longleftrightarrow> r = Inr a"
  by (simp add: ok_value_def split: sum.split)

lemma control_ok_Inr:
  assumes "control_ok cl s tp ow req timeout = (s', Inr u)"
  shows "control cl s tp ow req timeout = (s', Inr Control_ok)"
proof -
  obtain s1 r where c: "control cl s tp ow req timeout = (s1, r)" by fastforce
  with assms have "s1 = s'" and r: "\<exists>reply. r = Inr reply \<and> (case reply of Control_ok \<Rightarrow> Inr ()
      | Control_rejected why \<Rightarrow> Inl (Wrapped ''owner rejected'' why) | _ \<Rightarrow> Inl Unexpected_reply) = Inr u"
    by (auto simp: control_ok_def result_simps)
  moreover from r have "r = Inr Control_ok" by (auto split: control_reply.splits) (metis control_reply.exhaust)
  ultimately show ?thesis using c by simp
qed

lemma lease_messages_Inr:
  assumes "lease_messages cl s tp ow name mx grant timeout = (s', Inr ms)"
  shows "control cl s tp ow (Pull name mx grant) timeout = (s', Inr (Pulled ms))"
proof -
  obtain s1 r where c: "control cl s tp ow (Pull name mx grant) timeout = (s1, r)" by fastforce
  with assms have "s1 = s'" and r: "\<exists>reply. r = Inr reply \<and> (case reply of Pulled ms \<Rightarrow> Inr ms
      | Control_rejected why \<Rightarrow> Inl (Wrapped ''lease rejected'' why) | _ \<Rightarrow> Inl Unexpected_reply) = Inr ms"
    by (auto simp: lease_messages_def result_simps split: sum.splits)
  moreover from r have "r = Inr (Pulled ms)" by (auto split: control_reply.splits) (metis control_reply.exhaust)
  ultimately show ?thesis using c by simp
qed

text \<open>A look at the stream that ends \<open>recv\<close>.\<close>

definition ends_recv :: "live_subscription \<Rightarrow> nat \<Rightarrow> bool" where
  "ends_recv sub i \<longleftrightarrow> (\<forall>m. incoming sub i = Some m \<longrightarrow> filter_matches (live_filter sub) m)"

lemma recv_step:
  "recv sub = (if ends_recv sub (position sub)
     then Some (sub\<lparr>position := Suc (position sub)\<rparr>, incoming sub (position sub))
     else recv (sub\<lparr>position := Suc (position sub)\<rparr>))"
proof -
  have "filter_is_empty (live_filter sub) \<Longrightarrow> filter_matches (live_filter sub) m" for m
    by (simp add: filter_is_empty_def filter_matches_iff)
  then show ?thesis by (subst recv.simps) (auto simp: Let_def ends_recv_def split: option.split)
qed

lemma ends_recv_position [simp]: "ends_recv (sub\<lparr>position := k\<rparr>) = ends_recv sub"
  by (simp add: ends_recv_def fun_eq_iff)

lemma recv_at:
  assumes "k \<le> i" "ends_recv sub i" "\<And>j. k \<le> j \<Longrightarrow> j < i \<Longrightarrow> \<not> ends_recv sub j"
  shows "recv (sub\<lparr>position := k\<rparr>) = Some (sub\<lparr>position := Suc i\<rparr>, incoming sub i)"
  using assms(1,3)
proof (induction k rule: inc_induct)
  case base
  show ?case using assms(2) by (subst recv_step) simp
next
  case (step k)
  then show ?case by (subst recv_step) simp
qed

lemma recv_found:
  "recv sub = Some (sub', r) \<Longrightarrow> \<exists>i \<ge> position sub. ends_recv sub i"
proof (induction sub "(sub', r)" rule: recv.raw_induct[rotated, consumes 1])
  case (1 f sub)
  show ?case
  proof (cases "ends_recv sub (position sub)")
    case False
    then obtain m where m: "incoming sub (position sub) = Some m" "\<not> filter_matches (live_filter sub) m"
      by (auto simp: ends_recv_def)
    then have "\<not> filter_is_empty (live_filter sub)"
      by (auto simp: filter_is_empty_def filter_matches_iff)
    with 1(2) m have "f (sub\<lparr>position := Suc (position sub)\<rparr>) = Some (sub', r)" by (simp add: Let_def)
    from 1(1)[OF this] obtain i where "Suc (position sub) \<le> i" "ends_recv sub i" by auto
    then show ?thesis by (intro exI[of _ i]) simp
  qed blast
qed

lemma recv_Some_iff:
  "recv sub = Some (sub', r) \<longleftrightarrow> (\<exists>i \<ge> position sub. sub' = sub\<lparr>position := Suc i\<rparr> \<and> r = incoming sub i \<and>
     ends_recv sub i \<and> (\<forall>j. position sub \<le> j \<longrightarrow> j < i \<longrightarrow> \<not> ends_recv sub j))"
proof
  have at: "recv sub = Some (sub\<lparr>position := Suc i\<rparr>, incoming sub i)"
    if "position sub \<le> i" "ends_recv sub i" "\<forall>j. position sub \<le> j \<longrightarrow> j < i \<longrightarrow> \<not> ends_recv sub j" for i
    using recv_at[OF that(1,2)] that(3) by simp
  show "recv sub = Some (sub', r)" if "\<exists>i \<ge> position sub. sub' = sub\<lparr>position := Suc i\<rparr> \<and> r = incoming sub i \<and>
     ends_recv sub i \<and> (\<forall>j. position sub \<le> j \<longrightarrow> j < i \<longrightarrow> \<not> ends_recv sub j)"
    using that at by blast
  assume h: "recv sub = Some (sub', r)"
  define i where "i = (LEAST i. position sub \<le> i \<and> ends_recv sub i)"
  have i: "position sub \<le> i" "ends_recv sub i"
    unfolding i_def by (rule LeastI2_ex, use recv_found[OF h] in blast, blast)+
  have least: "\<forall>j. position sub \<le> j \<longrightarrow> j < i \<longrightarrow> \<not> ends_recv sub j"
    unfolding i_def using not_less_Least by blast
  from at[OF i least] h i least show "\<exists>i \<ge> position sub. sub' = sub\<lparr>position := Suc i\<rparr> \<and> r = incoming sub i \<and>
     ends_recv sub i \<and> (\<forall>j. position sub \<le> j \<longrightarrow> j < i \<longrightarrow> \<not> ends_recv sub j)"
    by auto
qed

lemma pull_limitedE:
  assumes "pull_limited cl s tp ow from limit timeout = Some (s', Inr r)"
  obtains v target yes i where "open_reader cl (log_name tp) ow = Inr v"
    and "target = ok_value (snd (fetch_high_cursor cl s tp ow timeout))"
    and "converge_to v target = Some (yes, i)"
    and "r = make_page (shown v i) from (clamp_limit limit) target yes"
  using assms
  by (auto simp: pull_limited_def Let_def map_err_def split: sum.splits prod.splits)

lemma clamp_limit_pos [simp]: "0 < clamp_limit limit"
  by (simp add: clamp_limit_def)

section \<open>A sample client\<close>

definition sample_view :: replica_view where
  "sample_view = \<lparr>shown = \<lambda>i. replay apply_log empty_log sample_script, applied = \<lambda>i. 3, late = \<lambda>i. i = 1\<rparr>"

definition sample_client :: "unit client" where
  "sample_client = \<lparr>node_id = ''c'', client_hex = letter_hex,
     client_json = bare_json\<lparr>control_to_json := \<lambda>req. Inr [], control_reply_from_json := \<lambda>bs. Inr (High 2)\<rparr>,
     ce_request = \<lambda>s ow tp body timeout. (s, Inr []), open_reader = \<lambda>name ow. Inr sample_view,
     peek_reader = \<lambda>name ow. Inr empty_log, open_stream = \<lambda>name. Inr (\<lambda>i. None)\<rparr>"

lemma sample_view_follows: "follows sample_view"
  using sample_script_inv
  by (auto simp: follows_def sample_view_def intro: exI[of _ "[]"])

lemma sample_fetch: "fetch_high_cursor sample_client () ''t'' ''o'' 9 = ((), Inr 2)"
  by (simp add: fetch_high_cursor_def sample_client_def round_trip_def control_encode_def control_reply_decode_def)

lemma sample_open: "open_reader sample_client name ow = Inr sample_view"
  by (simp add: sample_client_def)

lemma sample_pull:
  "\<exists>r. pull_limited sample_client () ''t'' ''o'' 0 10 9 = Some ((), Inr r) \<and> rp_converged r"
proof -
  have valid: "validate_topic ''t'' = Inr ()" by (simp add: topic_char_def is_ascii_alphanumeric_def)
  have "converge_to sample_view (Some 2) = Some (True, 1)"
    by (simp add: converge_to_def await_target.simps[of _ _ 0]) (simp add: sample_view_def sample_script_high)
  then show ?thesis
    unfolding pull_limited_def valid
    by (simp add: sample_open sample_fetch ok_value_def)
qed

section \<open>Properties\<close>

text \<open>C25: A page is exact and the pages join up: what a pull returns, followed by what is above the cursor to
  continue from, is everything retained above the cursor it was asked from, so paging neither skips
  nor repeats a message.  It is marked truncated exactly if messages are left, and then it is full.\<close>

theorem pull_pages_exact:
  assumes "pull_limited cl s tp ow from limit timeout = Some (s', Inr r)"
    and "open_reader cl (log_name tp) ow = Inr v" "follows v"
  shows "\<exists>i. log_since (shown v i) from = rp_messages r @ log_since (shown v i) (rp_next r) \<and>
    rp_truncated r = (log_since (shown v i) (rp_next r) \<noteq> []) \<and>
    length (rp_messages r) \<le> max 1 (min limit 100000) \<and>
    (rp_truncated r \<longrightarrow> length (rp_messages r) = max 1 (min limit 100000))"
proof -
  obtain target yes i where r: "r = make_page (shown v i) from (clamp_limit limit) target yes"
    using pull_limitedE[OF assms(1)] assms(2) by (metis sum.inject(2))
  have "log_since (shown v i) (rp_next r) = drop (clamp_limit limit) (log_since (shown v i) from)"
    unfolding r by (rule log_since_tail[OF follows_inv[OF assms(3)] clamp_limit_pos])
  moreover have "max 1 (min limit 100000) = clamp_limit limit"
    by (simp add: clamp_limit_def MAX_PULL_LIMIT_def)
  ultimately show ?thesis by (intro exI[of _ i]) (auto simp: r)
qed

lemma pull_pages_exact_witness:
  "\<exists>r i. pull_limited sample_client () ''t'' ''o'' 0 10 9 = Some ((), Inr r) \<and>
     log_since (shown sample_view i) 0 = rp_messages r @ log_since (shown sample_view i) (rp_next r)"
proof -
  obtain r where r: "pull_limited sample_client () ''t'' ''o'' 0 10 9 = Some ((), Inr r)"
    using sample_pull by blast
  show ?thesis using pull_pages_exact[OF r sample_open sample_view_follows] r by blast
qed

text \<open>C14: A pull is honest: it reports convergence only if the owner named a target and the replica reached
  it; then nothing is missing, and every retained cursor above the start up to the target is in the
  page or, if the page is full, after it.  What it reports missing is what the target is ahead.\<close>

theorem pull_honest:
  assumes "pull_limited cl s tp ow from limit timeout = Some (s', Inr r)"
    and "open_reader cl (log_name tp) ow = Inr v" "follows v"
  shows "(rp_converged r \<longrightarrow> (\<exists>t. snd (fetch_high_cursor cl s tp ow timeout) = Inr t \<and> rp_target r = Some t \<and>
      t \<le> rp_high r \<and> rp_missing r = 0 \<and>
      (\<forall>c. max from (rp_floor r) < c \<longrightarrow> c \<le> t \<longrightarrow>
        (\<exists>m \<in> set (rp_messages r). msg_cursor m = c) \<or> (rp_truncated r \<and> rp_next r < c)))) \<and>
    (rp_missing r \<noteq> 0 \<longrightarrow> \<not> rp_converged r \<and>
      (\<exists>t. rp_target r = Some t \<and> unat (rp_missing r) = unat t - unat (rp_high r)))"
proof -
  obtain target yes i where t: "target = ok_value (snd (fetch_high_cursor cl s tp ow timeout))"
    and conv: "converge_to v target = Some (yes, i)"
    and r: "r = make_page (shown v i) from (clamp_limit limit) target yes"
    using pull_limitedE[OF assms(1)] assms(2) by (metis sum.inject(2))
  note inv = follows_inv[OF assms(3), of i]
  have reached: "\<exists>t'. target = Some t' \<and> t' \<le> high_cursor (shown v i)" if yes
    using converged_reached[OF assms(3)] conv that by simp
  have found: "(\<exists>m \<in> set (rp_messages r). msg_cursor m = c) \<or> (rp_truncated r \<and> rp_next r < c)"
    if range: "max from (log_floor (shown v i)) < c" "c \<le> high_cursor (shown v i)" for c
  proof -
    obtain m where m: "m \<in> set (log_since (shown v i) from)" "msg_cursor m = c"
      using in_log_since[OF inv range] by blast
    have tail: "log_since (shown v i) (rp_next r) = drop (clamp_limit limit) (log_since (shown v i) from)"
      unfolding r by (rule log_since_tail[OF inv clamp_limit_pos])
    have "set (log_since (shown v i) from) = set (rp_messages r) \<union> set (log_since (shown v i) (rp_next r))"
      unfolding tail by (simp add: r flip: set_append)
    with m(1) consider "m \<in> set (rp_messages r)" | "m \<in> set (log_since (shown v i) (rp_next r))" by blast
    then show ?thesis
    proof cases
      case 2
      then have "rp_next r < c" using m(2) by (simp add: log_since_def)
      moreover have "rp_truncated r" using 2 unfolding tail by (simp add: r) (metis in_set_dropD drop_all empty_iff list.set(1) not_le)
      ultimately show ?thesis by blast
    qed (use m(2) in blast)
  qed
  have "rp_converged r \<Longrightarrow> \<exists>t. snd (fetch_high_cursor cl s tp ow timeout) = Inr t \<and> rp_target r = Some t \<and>
      t \<le> rp_high r \<and> rp_missing r = 0 \<and>
      (\<forall>c. max from (rp_floor r) < c \<longrightarrow> c \<le> t \<longrightarrow>
        (\<exists>m \<in> set (rp_messages r). msg_cursor m = c) \<or> (rp_truncated r \<and> rp_next r < c))"
    using reached found order_trans t by (fastforce simp: r sat_sub_eq_0_iff)
  moreover have "rp_missing r \<noteq> 0 \<Longrightarrow> \<not> rp_converged r \<and>
      (\<exists>t. rp_target r = Some t \<and> unat (rp_missing r) = unat t - unat (rp_high r))"
    using reached by (auto simp: r sat_sub_eq_0_iff unat_sat_sub split: option.splits)
  ultimately show ?thesis by blast
qed

lemma pull_honest_witness:
  "\<exists>r. pull_limited sample_client () ''t'' ''o'' 0 10 9 = Some ((), Inr r) \<and> rp_target r = Some 2 \<and> rp_missing r = 0"
proof -
  obtain r where r: "pull_limited sample_client () ''t'' ''o'' 0 10 9 = Some ((), Inr r)" "rp_converged r"
    using sample_pull by blast
  show ?thesis using pull_honest[OF r(1) sample_open sample_view_follows] r by (auto simp: sample_fetch)
qed

text \<open>A pull returns: if its deadline passes while it polls, it does not wait for ever, whether or not the
  owner answered and the replica moved.\<close>

theorem pull_returns:
  assumes "open_reader cl (log_name tp) ow = Inr v" "late v k" "0 < k"
  shows "\<exists>s' r. pull_limited cl s tp ow from limit timeout = Some (s', r) \<and>
    (is_ok r = is_ok (validate_topic tp))"
proof (cases "validate_topic tp")
  case (Inr u)
  obtain s1 h where f: "fetch_high_cursor cl s tp ow timeout = (s1, h)" by fastforce
  obtain yes i where "converge_to v (ok_value h) = Some (yes, i)"
    using converge_returns[OF assms(2,3), of "ok_value h"] by auto
  then show ?thesis unfolding pull_limited_def Inr by (simp add: assms(1) f)
qed (simp add: pull_limited_def)

lemma pull_returns_witness: "\<exists>s' r. pull_limited sample_client () ''t'' ''o'' 5 1 9 = Some (s', r)"
proof -
  have "late sample_view 1" by (simp add: sample_view_def)
  from pull_returns[OF sample_open this, where tp = "''t''" and ow = "''o''" and s = "()"]
  show ?thesis by fastforce
qed

text \<open>A live subscription yields the next broadcast that its filter admits, or the end of the stream: it
  answers with the first look that is one of the two, passing over messages the filter refuses.\<close>

theorem live_recv_first:
  "(recv sub = Some (sub', r)) = (\<exists>i \<ge> position sub. sub' = sub\<lparr>position := Suc i\<rparr> \<and> r = incoming sub i \<and>
     (r = None \<or> filter_matches (live_filter sub) (the r)) \<and>
     (\<forall>j. position sub \<le> j \<longrightarrow> j < i \<longrightarrow>
       (\<exists>m. incoming sub j = Some m \<and> \<not> filter_matches (live_filter sub) m)))"
proof -
  have ends: "\<not> ends_recv sub j \<longleftrightarrow> (\<exists>m. incoming sub j = Some m \<and> \<not> filter_matches (live_filter sub) m)" for j
    by (auto simp: ends_recv_def)
  have "ends_recv sub i \<longleftrightarrow> incoming sub i = None \<or> filter_matches (live_filter sub) (the (incoming sub i))" for i
    by (cases "incoming sub i") (auto simp: ends_recv_def)
  then show ?thesis unfolding recv_Some_iff ends by auto
qed

lemma live_recv_first_witness:
  "\<exists>i sub'. recv \<lparr>incoming = (\<lambda>i. if i = 2 then None else Some (sample_message_at 1)), position = 0,
       live_filter = filter_require filter_any ''k'' ''v''\<rparr> = Some (sub', None) \<and> i = position sub' \<and> i = 3"
proof -
  let ?sub = "\<lparr>incoming = (\<lambda>i. if i = 2 then None else Some (sample_message_at 1)), position = 0 :: nat,
       live_filter = filter_require filter_any ''k'' ''v''\<rparr>"
  have "recv ?sub = Some (?sub\<lparr>position := Suc 2\<rparr>, None)"
    unfolding live_recv_first
    by (intro exI[of _ 2]) (auto simp: filter_matches_iff filter_require_def filter_any_def sample_message_at_def)
  then show ?thesis by simp
qed

end
