(* ===== verification/Ack_Floor.thy ===== *)
theory Ack_Floor
  imports Subscription
begin

text \<open>
  What the operations of \<open>Subscription\<close> do to one subscription: the set of cursors it treats as
  handled, the ack floor as the end of the contiguous handled run, and the invariant that ties
  leases, delivery counts, acks and dead letters together.
\<close>

section \<open>Handled cursors\<close>

text \<open>
  The contract of a subscription, without its representation: a cursor is handled once it is
  acknowledged, dead-lettered or below the floor.
\<close>

definition handled :: "subscription_state \<Rightarrow> cursor set" where
  "handled s = {c. c \<le> acked s} \<union> fmdom' (acked_set s) \<union> fmdom' (dead s)"

lemma handled_iff:
  "c \<in> handled s \<longleftrightarrow> c \<le> acked s \<or> c \<in> fmdom' (acked_set s) \<or> c \<in> fmdom' (dead s)"
  by (auto simp: handled_def)

text \<open>The sets the floor is folded over never hold cursor 0, so the floor never wraps.\<close>

definition zero_free :: "subscription_state \<Rightarrow> bool" where
  "zero_free s \<longleftrightarrow> 0 \<notin> fmdom' (acked_set s) \<and> 0 \<notin> fmdom' (dead s)"

definition floor_maximal :: "subscription_state \<Rightarrow> bool" where
  "floor_maximal s \<longleftrightarrow> acked s + 1 \<notin> fmdom' (acked_set s) \<and> acked s + 1 \<notin> fmdom' (dead s)"

text \<open>The fields that advancing the floor leaves alone.\<close>

lemma advance_acked_frame:
  "leases (advance_acked s) = leases s \<and> attempts (advance_acked s) = attempts s \<and>
   policy (advance_acked s) = policy s"
  by (induction s rule: advance_acked.induct) (subst (1 2 3) advance_acked.simps, simp add: Let_def)

lemma advance_acked_sets:
  "fmdom' (acked_set (advance_acked s)) \<subseteq> fmdom' (acked_set s) \<and>
   fmdom' (dead (advance_acked s)) \<subseteq> fmdom' (dead s)"
proof (induction s rule: advance_acked.induct)
  case (1 s)
  then show ?case by (subst (1 2) advance_acked.simps) (auto simp: Let_def)
qed

lemma advance_acked_maximal: "floor_maximal (advance_acked s)"
proof (induction s rule: advance_acked.induct)
  case (1 s)
  then show ?case
    by (subst advance_acked.simps) (simp add: Let_def floor_maximal_def)
qed

lemma advance_step_handled:
  assumes "n = acked s + 1" "n \<noteq> 0"
    and "t = s\<lparr>acked_set := fmdrop n (acked_set s), acked := n\<rparr> \<and> n \<in> fmdom' (acked_set s) \<or>
         t = s\<lparr>dead := fmdrop n (dead s), acked := n\<rparr> \<and> n \<in> fmdom' (dead s)"
  shows "handled t = handled s" and "acked s \<le> acked t"
proof -
  have top: "acked s \<noteq> top_word" using assms(1,2) by (auto simp: add_eq_0_iff2)
  then have le: "c \<le> n \<longleftrightarrow> c \<le> acked s \<or> c = n" for c
    using less_inc_iff[OF top, of c] by (auto simp: assms(1) order_le_less)
  show "handled t = handled s" using assms(3) by (auto simp: handled_iff le)
  show "acked s \<le> acked t" using assms(3) le[of "acked s"] by auto
qed

lemma advance_acked_handled:
  "zero_free s \<Longrightarrow> handled (advance_acked s) = handled s \<and> acked s \<le> acked (advance_acked s)"
proof (induction s rule: advance_acked.induct)
  case (1 s)
  let ?n = "acked s + 1"
  show ?case
  proof (cases "?n \<in> fmdom' (acked_set s) \<or> ?n \<in> fmdom' (dead s)")
    case False
    then show ?thesis by (subst (1 2) advance_acked.simps) (simp add: Let_def)
  next
    case True
    define t where "t = (if ?n \<in> fmdom' (acked_set s)
      then s\<lparr>acked_set := fmdrop ?n (acked_set s), acked := ?n\<rparr>
      else s\<lparr>dead := fmdrop ?n (dead s), acked := ?n\<rparr>)"
    have "advance_acked s = advance_acked t"
      using True by (subst advance_acked.simps) (auto simp: Let_def t_def)
    moreover have "handled (advance_acked t) = handled t \<and> acked t \<le> acked (advance_acked t)"
      using "1.IH"[OF refl] "1.prems" True
      by (cases "?n \<in> fmdom' (acked_set s)") (simp_all add: t_def zero_free_def)
    moreover have "?n \<noteq> 0" using True "1.prems" by (auto simp: zero_free_def)
    then have "handled t = handled s \<and> acked s \<le> acked t"
      using True advance_step_handled[OF refl, of s t] by (auto simp: t_def)
    ultimately show ?thesis by auto
  qed
qed

text \<open>A maximal floor is the end of the contiguous run of handled cursors.\<close>

lemma floor_contiguous:
  assumes "floor_maximal s" "\<And>d. acked s < d \<Longrightarrow> d \<le> c \<Longrightarrow> d \<in> handled s"
  shows "c \<le> acked s"
proof (rule ccontr)
  assume "\<not> c \<le> acked s"
  then have less: "acked s < c" by simp
  note top = less_not_top[OF less]
  have "acked s + 1 \<in> handled s"
    using less by (intro assms(2)) (simp_all add: inc_le_iff[OF top] less_inc_self[OF top])
  with assms(1) show False
    by (auto simp: handled_iff floor_maximal_def inc_le_iff[OF top])
qed

section \<open>The invariant of a subscription\<close>

definition leases_counted :: "subscription_state \<Rightarrow> bool" where
  "leases_counted s \<longleftrightarrow>
     (\<forall>c. map_option lease_attempts (fmlookup (leases s) c) = fmlookup (attempts s) c) \<and>
     (\<forall>c l. fmlookup (leases s) c = Some l \<longrightarrow> lease_cursor l = c)"

definition sub_inv :: "subscription_state \<Rightarrow> bool" where
  "sub_inv s \<longleftrightarrow> zero_free s \<and> floor_maximal s \<and> leases_counted s \<and>
     (\<forall>c \<in> fmdom' (acked_set s). acked s < c) \<and>
     fmdom' (leases s) \<inter> (fmdom' (acked_set s) \<union> fmdom' (dead s)) = {}"

lemma sub_invD:
  assumes "sub_inv s"
  shows "zero_free s" "floor_maximal s" "leases_counted s"
    "c \<in> fmdom' (acked_set s) \<Longrightarrow> acked s < c"
    "c \<in> fmdom' (leases s) \<Longrightarrow> c \<notin> fmdom' (acked_set s) \<and> c \<notin> fmdom' (dead s)"
  using assms by (auto simp: sub_inv_def)

lemma sub_inv_default: "sub_inv default_state"
  by (simp add: sub_inv_def zero_free_def floor_maximal_def leases_counted_def default_state_def)

lemma sub_inv_policy: "sub_inv (s\<lparr>policy := p\<rparr>) = sub_inv s"
  by (simp add: sub_inv_def zero_free_def floor_maximal_def leases_counted_def)

lemma handled_policy [simp]: "handled (s\<lparr>policy := p\<rparr>) = handled s"
  by (simp add: handled_def)

lemma handled_nack [simp]: "handled (apply_nack s c) = handled s"
  by (simp add: handled_def apply_nack_def split: option.splits)

lemma leases_counted_lookup:
  "leases_counted s \<Longrightarrow> fmlookup (leases s) c = Some l \<Longrightarrow> fmlookup (attempts s) c = Some (lease_attempts l)"
  by (metis leases_counted_def option.simps(9))

lemma sub_inv_nack: "sub_inv s \<Longrightarrow> sub_inv (apply_nack s c)"
proof (cases "fmlookup (leases s) c")
  case (Some l)
  assume inv: "sub_inv s"
  then have "leases_counted (apply_nack s c)"
    using Some leases_counted_lookup[of s c l] by (auto simp: sub_inv_def leases_counted_def apply_nack_def)
  moreover have "fmdom' (leases (apply_nack s c)) = fmdom' (leases s)"
    using Some by (auto simp: apply_nack_def intro: fmdom'I)
  ultimately show ?thesis
    using inv Some by (auto simp: sub_inv_def zero_free_def floor_maximal_def apply_nack_def)
qed (simp add: apply_nack_def)

subsection \<open>Acknowledging\<close>

text \<open>The state just before the floor advances.\<close>

definition ack_recorded :: "subscription_state \<Rightarrow> cursor \<Rightarrow> subscription_state" where
  "ack_recorded s c =
     (let s1 = s\<lparr>leases := fmdrop c (leases s), attempts := fmdrop c (attempts s)\<rparr> in
      if acked s1 < c then s1\<lparr>acked_set := fmupd c () (acked_set s1)\<rparr> else s1)"

lemma apply_ack_eq: "apply_ack s c = advance_acked (ack_recorded s c)"
  by (simp add: apply_ack_def ack_recorded_def Let_def)

lemma ack_recorded_zero_free: "zero_free s \<Longrightarrow> zero_free (ack_recorded s c)"
  by (auto simp: zero_free_def ack_recorded_def Let_def)

lemma ack_recorded_handled: "handled (ack_recorded s c) = insert c (handled s)"
  by (auto simp: handled_def ack_recorded_def Let_def)

lemma handled_ack: "zero_free s \<Longrightarrow> handled (apply_ack s c) = insert c (handled s)"
  by (simp add: apply_ack_eq advance_acked_handled ack_recorded_zero_free ack_recorded_handled)

lemma acked_ack_mono: "zero_free s \<Longrightarrow> acked s \<le> acked (apply_ack s c)"
  using advance_acked_handled[OF ack_recorded_zero_free, of s c]
  by (simp add: apply_ack_eq) (simp add: ack_recorded_def Let_def split: if_splits)

lemma ack_leases:
  "leases (apply_ack s c) = fmdrop c (leases s)" "attempts (apply_ack s c) = fmdrop c (attempts s)"
  "policy (apply_ack s c) = policy s"
  by (simp_all add: apply_ack_eq advance_acked_frame) (simp_all add: ack_recorded_def Let_def)

text \<open>Advancing drops every out-of-order ack that the floor has reached.\<close>

lemma advance_acked_above:
  "zero_free s \<Longrightarrow> \<forall>c \<in> fmdom' (acked_set s). acked s < c \<Longrightarrow>
     \<forall>c \<in> fmdom' (acked_set (advance_acked s)). acked (advance_acked s) < c"
proof (induction s rule: advance_acked.induct)
  case (1 s)
  let ?n = "acked s + 1"
  have step: "?n < c" if "c \<in> fmdom' (acked_set s)" "c \<noteq> ?n" for c
    using that "1.prems"(2) inc_le_iff[OF less_not_top, of "acked s" c] by (auto simp: order_le_less)
  show ?case
  proof (cases "?n \<in> fmdom' (acked_set s)")
    case True
    with 1 step show ?thesis
      by (subst (1 2) advance_acked.simps) (simp add: Let_def zero_free_def)
  next
    case False
    with 1 step show ?thesis
      by (subst (1 2) advance_acked.simps) (auto simp: Let_def zero_free_def)
  qed
qed

lemma sub_inv_ack:
  assumes "sub_inv s"
  shows "sub_inv (apply_ack s c)"
proof -
  let ?r = "ack_recorded s c"
  note inv = sub_invD[OF assms]
  have r: "zero_free ?r" using inv(1) by (rule ack_recorded_zero_free)
  have "\<forall>d \<in> fmdom' (acked_set ?r). acked ?r < d"
    using inv(4) by (auto simp: ack_recorded_def Let_def)
  note above = advance_acked_above[OF r this, folded apply_ack_eq]
  have sub: "fmdom' (acked_set (apply_ack s c)) \<subseteq> insert c (fmdom' (acked_set s))"
    "fmdom' (dead (apply_ack s c)) \<subseteq> fmdom' (dead s)"
    using advance_acked_sets[of ?r] by (auto simp: apply_ack_eq ack_recorded_def Let_def split: if_splits)
  have "zero_free (apply_ack s c)"
    using advance_acked_sets[of ?r] r by (auto simp: apply_ack_eq zero_free_def)
  moreover have "leases_counted (apply_ack s c)"
    using inv(3) by (auto simp: leases_counted_def ack_leases)
  moreover have "floor_maximal (apply_ack s c)"
    by (simp add: apply_ack_eq advance_acked_maximal)
  ultimately show ?thesis
    using above sub inv(5) unfolding sub_inv_def by (auto simp: ack_leases)
qed

lemma floor_iff: "sub_inv s \<Longrightarrow> c \<le> acked s \<longleftrightarrow> (\<forall>d \<le> c. d \<in> handled s)"
  using floor_contiguous[OF sub_invD(2), of s c] by (auto simp: handled_iff)

text \<open>A batch of acks.\<close>

lemma acks_inv:
  assumes "sub_inv s"
  shows "sub_inv (foldl apply_ack s cs)" and "handled (foldl apply_ack s cs) = handled s \<union> set cs"
  using assms by (induction cs arbitrary: s) (auto simp: sub_inv_ack handled_ack sub_invD(1))

lemma acks_state:
  "reg_get r n = Some s \<Longrightarrow> reg_get (replay apply_sub r (map (Ack n) cs)) n = Some (foldl apply_ack s cs)"
  by (induction cs arbitrary: r s) (simp_all add: reg_get_apply)

lemma acks_drop:
  "leases (foldl apply_ack w cs) = fmdrop_set (set cs) (leases w)"
  "attempts (foldl apply_ack w cs) = fmdrop_set (set cs) (attempts w)"
  "policy (foldl apply_ack w cs) = policy w"
  by (induction cs arbitrary: w; auto simp: ack_leases intro!: fmap_ext)+

subsection \<open>Applying a lease\<close>

lemma mark_dead_fold:
  "leases (foldl mark_dead s dd) = fmdrop_set (set dd) (leases s)"
  "attempts (foldl mark_dead s dd) = fmdrop_set (set dd) (attempts s)"
  "acked (foldl mark_dead s dd) = acked s"
  "acked_set (foldl mark_dead s dd) = acked_set s"
  "policy (foldl mark_dead s dd) = policy s"
  "fmdom' (dead (foldl mark_dead s dd)) = set dd \<union> fmdom' (dead s)"
  by (induction dd arbitrary: s) (auto simp: mark_dead_def)

lemma add_lease_fold:
  "acked (foldl add_lease s ls) = acked s"
  "acked_set (foldl add_lease s ls) = acked_set s"
  "dead (foldl add_lease s ls) = dead s"
  "policy (foldl add_lease s ls) = policy s"
  "fmdom' (leases (foldl add_lease s ls)) = fst ` set ls \<union> fmdom' (leases s)"
  by (induction ls arbitrary: s) (auto simp: add_lease_def Let_def)

lemma add_lease_fold_other:
  assumes "c \<notin> fst ` set ls"
  shows "fmlookup (leases (foldl add_lease s ls)) c = fmlookup (leases s) c"
    and "fmlookup (attempts (foldl add_lease s ls)) c = fmlookup (attempts s) c"
  using assms by (induction ls arbitrary: s) (auto simp: add_lease_def Let_def)

lemma add_lease_lookup:
  "fmlookup (leases (add_lease s p)) (fst p) = Some \<lparr>lease_cursor = fst p, expires_at = snd p,
     lease_attempts = attempt_count s (fst p) + 1\<rparr>"
  "fmlookup (attempts (add_lease s p)) (fst p) = Some (attempt_count s (fst p) + 1)"
  by (simp_all add: add_lease_def Let_def)

text \<open>A cursor that is leased once gets its delivery count raised by one and the stamped expiry.\<close>

lemma add_lease_fold_leased:
  assumes "(c, e) \<in> set ls" "distinct (map fst ls)"
  shows "fmlookup (leases (foldl add_lease s ls)) c =
      Some \<lparr>lease_cursor = c, expires_at = e, lease_attempts = attempt_count s c + 1\<rparr> \<and>
    fmlookup (attempts (foldl add_lease s ls)) c = Some (attempt_count s c + 1)"
  using assms
proof (induction ls arbitrary: s)
  case (Cons p ls)
  show ?case
  proof (cases "fst p = c")
    case True
    then have other: "c \<notin> fst ` set ls" using Cons.prems by auto
    then have "p = (c, e)" using Cons.prems by force
    then show ?thesis
      using add_lease_fold_other[OF other, of "add_lease s p"] add_lease_lookup[of s p] by simp
  next
    case False
    then have "attempt_count (add_lease s p) c = attempt_count s c" "(c, e) \<in> set ls"
      using Cons.prems by (auto simp: attempt_count_def add_lease_def Let_def)
    then show ?thesis using Cons.IH[of "add_lease s p"] Cons.prems(2) by simp
  qed
qed simp

lemma leases_counted_mark: "leases_counted s \<Longrightarrow> leases_counted (foldl mark_dead s dd)"
  by (auto simp: leases_counted_def mark_dead_fold)

lemma leases_counted_add: "leases_counted s \<Longrightarrow> leases_counted (foldl add_lease s ls)"
proof (induction ls arbitrary: s)
  case (Cons p ls)
  have "leases_counted (add_lease s p)"
    using Cons.prems by (auto simp: leases_counted_def add_lease_def Let_def)
  then show ?case using Cons.IH by simp
qed simp

lemma raise_floor_fields [simp]:
  "leases (raise_floor s n) = leases s" "attempts (raise_floor s n) = attempts s"
  "policy (raise_floor s n) = policy s" "acked (raise_floor s n) = max (acked s) n"
  by (auto simp: raise_floor_def max_def)

lemma raise_floor_sets:
  "fmdom' (acked_set (raise_floor s n)) = {c \<in> fmdom' (acked_set s). acked s < n \<longrightarrow> n < c}"
  "fmdom' (dead (raise_floor s n)) = {c \<in> fmdom' (dead s). acked s < n \<longrightarrow> n < c}"
  by (auto simp: raise_floor_def)

lemma handled_raise_floor: "handled (raise_floor s n) = handled s \<union> {c. c \<le> n}"
  by (auto simp: handled_iff raise_floor_sets max_def split: if_splits)

lemma handled_apply_lease: "handled (apply_lease s ls dd n) = handled s \<union> set dd \<union> {c. c \<le> n}"
  by (auto simp: apply_lease_def handled_raise_floor) (auto simp: handled_iff add_lease_fold mark_dead_fold)

lemma apply_lease_fields:
  "acked (apply_lease s ls dd n) = max (acked s) n"
  "policy (apply_lease s ls dd n) = policy s"
  "fmdom' (leases (apply_lease s ls dd n)) = fst ` set ls \<union> (fmdom' (leases s) - set dd)"
  by (simp_all add: apply_lease_def add_lease_fold mark_dead_fold)

lemma apply_lease_sets:
  "fmdom' (acked_set (apply_lease s ls dd n)) = {c \<in> fmdom' (acked_set s). acked s < n \<longrightarrow> n < c}"
  "fmdom' (dead (apply_lease s ls dd n)) = {c \<in> set dd \<union> fmdom' (dead s). acked s < n \<longrightarrow> n < c}"
  by (simp_all add: apply_lease_def raise_floor_sets add_lease_fold mark_dead_fold)

text \<open>
  A lease keeps the invariant when it leases only cursors that are not handled and its new floor is
  the end of the handled run, which is what planning guarantees.
\<close>

lemma sub_inv_apply_lease:
  assumes inv: "sub_inv s"
    and dd: "0 \<notin> set dd" and disj: "fst ` set ls \<inter> (handled s \<union> set dd) = {}"
    and new: "acked s \<le> n" "n + 1 \<notin> fmdom' (acked_set s) \<union> fmdom' (dead s) \<union> set dd"
  shows "sub_inv (apply_lease s ls dd n)"
proof -
  note I = sub_invD[OF inv]
  have "leases_counted (apply_lease s ls dd n)"
    using leases_counted_add[OF leases_counted_mark[OF I(3)]]
    by (simp add: apply_lease_def leases_counted_def)
  moreover have "zero_free (apply_lease s ls dd n)"
    using I(1) dd by (auto simp: zero_free_def apply_lease_sets)
  moreover have "floor_maximal (apply_lease s ls dd n)"
    using new by (auto simp: floor_maximal_def apply_lease_sets apply_lease_fields max_def)
  moreover have "\<forall>c \<in> fmdom' (acked_set (apply_lease s ls dd n)). acked (apply_lease s ls dd n) < c"
    using I(4) new(1) by (auto simp: apply_lease_sets apply_lease_fields max_def)
  moreover have "fmdom' (leases (apply_lease s ls dd n)) \<inter>
      (fmdom' (acked_set (apply_lease s ls dd n)) \<union> fmdom' (dead (apply_lease s ls dd n))) = {}"
    using I(5) disj by (auto simp: apply_lease_sets apply_lease_fields handled_iff)
  ultimately show ?thesis by (simp add: sub_inv_def)
qed

end
