(* ===== verification/Lease_Plan.thy ===== *)
theory Lease_Plan
  imports Ack_Floor
begin

text \<open>
  Planning a lease, \<open>SubRegistry::plan_lease\<close> of \<open>src/src/subscription.rs\<close>.  Its two loops may run
  for ever on a 64-bit counter that wraps, so they are partial functions: \<open>None\<close> is a loop that does
  not return.  They are shown to return whenever the highest cursor is not the largest word, and to
  compute a selection from the list of candidate cursors.
\<close>

section \<open>The code\<close>

record lease_outcome =
  leased :: "(cursor \<times> u32) list"
  dead_lettered :: "cursor list"

text \<open>The vectors the scan fills: \<open>leased_stamped\<close>, \<open>leased_out\<close> and \<open>dead\<close>.\<close>

record lease_scan =
  scan_stamped :: "(cursor \<times> u64) list"
  scan_out :: "(cursor \<times> u32) list"
  scan_dead :: "cursor list"

definition empty_scan :: lease_scan where
  "empty_scan = \<lparr>scan_stamped = [], scan_out = [], scan_dead = []\<rparr>"

text \<open>\<open>leased_unexpired || is_dead || is_acked\<close>: the cursors the scan steps over.\<close>

definition withheld :: "subscription_state \<Rightarrow> u64 \<Rightarrow> cursor \<Rightarrow> bool" where
  "withheld s now c \<longleftrightarrow>
     (case fmlookup (leases s) c of Some l \<Rightarrow> now < expires_at l | None \<Rightarrow> False) \<or>
     contains_key (dead s) c \<or> contains_key (acked_set s) c"

definition next_attempt :: "subscription_state \<Rightarrow> cursor \<Rightarrow> u32" where
  "next_attempt s c = attempt_count s c + 1"

definition exhausted :: "subscription_state \<Rightarrow> cursor \<Rightarrow> bool" where
  "exhausted s c \<longleftrightarrow> max_delivery_attempts (policy s) \<noteq> 0 \<and>
     max_delivery_attempts (policy s) < next_attempt s c"

partial_function (option) scan_lease ::
  "subscription_state \<Rightarrow> u64 \<Rightarrow> u64 \<Rightarrow> cursor \<Rightarrow> usize \<Rightarrow> cursor \<Rightarrow> lease_scan \<Rightarrow> lease_scan option" where
  "scan_lease s now expiry high cap c acc =
     (if c \<le> high \<and> length (scan_out acc) < unat cap then
        (if withheld s now c then scan_lease s now expiry high cap (c + 1) acc
         else scan_lease s now expiry high cap (c + 1)
           (if exhausted s c then acc\<lparr>scan_dead := scan_dead acc @ [c]\<rparr>
            else acc\<lparr>scan_stamped := scan_stamped acc @ [(c, expiry)],
                     scan_out := scan_out acc @ [(c, next_attempt s c)]\<rparr>))
      else Some acc)"

partial_function (option) bridge_floor :: "cursor fset \<Rightarrow> cursor \<Rightarrow> cursor option" where
  "bridge_floor done_set new_acked =
     (if new_acked + 1 |\<in>| done_set then bridge_floor done_set (new_acked + 1) else Some new_acked)"

definition lease_expiry :: "subscription_state \<Rightarrow> u64 \<Rightarrow> u64" where
  "lease_expiry s now =
     sat_add now (min (max (ack_deadline_secs (policy s)) 1) MAX_ACK_DEADLINE_SECS)"

text \<open>The inner option is the function's own result, the outer one tells whether it returns.\<close>

definition plan_lease ::
  "sub_registry \<Rightarrow> string \<Rightarrow> cursor \<Rightarrow> cursor \<Rightarrow> u64 \<Rightarrow> usize \<Rightarrow> (sub_op \<times> lease_outcome) option option" where
  "plan_lease r name high fl now mx =
     (case reg_get r name of
        None \<Rightarrow> Some None
      | Some s \<Rightarrow>
          let cap = min mx MAX_LEASE_BATCH; start = max (acked s) fl + 1 in
          Option.bind (scan_lease s now (lease_expiry s now) high cap start empty_scan) (\<lambda>sc.
            if scan_stamped sc = [] \<and> scan_dead sc = [] then Some None
            else
              Option.bind
                (bridge_floor (fmdom (dead s) |\<union>| fmdom (acked_set s) |\<union>| fset_of_list (scan_dead sc))
                  (max (acked s) fl))
                (\<lambda>new_acked.
                  Some (Some (ApplyLease name (scan_stamped sc) (scan_dead sc) new_acked,
                    \<lparr>leased = scan_out sc, dead_lettered = scan_dead sc\<rparr>)))))"

section \<open>The scan as a selection\<close>

text \<open>The cursors from \<open>c\<close> up to \<open>high\<close>, in order.\<close>

definition cursors_upto :: "cursor \<Rightarrow> cursor \<Rightarrow> cursor list" where
  "cursors_upto c high = map of_nat [unat c ..< Suc (unat high)]"

lemma of_nat_inverse_u64: "n < 2 ^ 64 \<Longrightarrow> unat (of_nat n :: u64) = n"
  by (rule unat_of_nat_small) simp

lemma set_cursors_upto [simp]: "set (cursors_upto c high) = {d. c \<le> d \<and> d \<le> high}"
proof (intro set_eqI iffI)
  fix d assume "d \<in> set (cursors_upto c high)"
  then obtain n where n: "d = of_nat n" "unat c \<le> n" "n \<le> unat high"
    by (auto simp: cursors_upto_def simp del: upt_Suc)
  then have "unat d = n" using unat_u64_less[of high] by (simp add: of_nat_inverse_u64)
  with n show "d \<in> {d. c \<le> d \<and> d \<le> high}" by (simp add: word_le_nat_alt)
next
  fix d assume "d \<in> {d. c \<le> d \<and> d \<le> high}"
  then show "d \<in> set (cursors_upto c high)"
    by (auto simp: cursors_upto_def word_le_nat_alt simp del: upt_Suc intro!: image_eqI[of _ _ "unat d"])
qed

lemma sorted_cursors_upto: "sorted_wrt (<) (cursors_upto c high)"
proof -
  have "(of_nat i :: u64) < of_nat j" if "i < j" "j \<le> unat high" for i j
    using that unat_u64_less[of high] by (simp add: word_less_nat_alt of_nat_inverse_u64)
  then show ?thesis
    unfolding cursors_upto_def sorted_wrt_map
    by (intro sorted_wrt_mono_rel[OF _ sorted_wrt_upt]) (auto simp del: upt_Suc)
qed

lemma cursors_upto_Nil: "high < c \<Longrightarrow> cursors_upto c high = []"
  by (simp add: cursors_upto_def word_less_nat_alt)

lemma cursors_upto_Cons: "c \<le> high \<Longrightarrow> high \<noteq> top_word \<Longrightarrow> cursors_upto c high = c # cursors_upto (c + 1) high"
proof -
  assume c: "c \<le> high" "high \<noteq> top_word"
  then have "c \<noteq> top_word" using less_not_top by (metis word_order.extremum_unique)
  then show ?thesis using c(1)
    by (simp add: cursors_upto_def unat_inc word_le_nat_alt upt_conv_Cons del: upt_Suc)
qed

text \<open>
  The specification of the scan over a list of candidates: the exhausted ones are set aside, the
  others are taken while there is room.
\<close>

fun pick :: "('c \<Rightarrow> bool) \<Rightarrow> nat \<Rightarrow> 'c list \<Rightarrow> 'c list \<times> 'c list" where
  "pick bad 0 cs = ([], [])"
| "pick bad (Suc n) [] = ([], [])"
| "pick bad (Suc n) (c # cs) =
     (if bad c then apsnd (Cons c) (pick bad (Suc n) cs) else apfst (Cons c) (pick bad n cs))"

definition extend_scan :: "subscription_state \<Rightarrow> u64 \<Rightarrow> lease_scan \<Rightarrow> cursor list \<times> cursor list \<Rightarrow> lease_scan" where
  "extend_scan s expiry acc p =
     \<lparr>scan_stamped = scan_stamped acc @ map (\<lambda>c. (c, expiry)) (fst p),
      scan_out = scan_out acc @ map (\<lambda>c. (c, next_attempt s c)) (fst p),
      scan_dead = scan_dead acc @ snd p\<rparr>"

lemma scan_lease_pick:
  assumes "high \<noteq> top_word"
  shows "scan_lease s now expiry high cap c acc =
    Some (extend_scan s expiry acc (pick (exhausted s) (unat cap - length (scan_out acc))
      (filter (\<lambda>c. \<not> withheld s now c) (cursors_upto c high))))"
proof (induction "Suc (unat high) - unat c" arbitrary: c acc)
  case 0
  then have "high < c" by (simp add: word_less_nat_alt)
  then show ?case
    by (subst scan_lease.simps) (cases "unat cap - length (scan_out acc)",
      simp_all add: cursors_upto_Nil extend_scan_def not_le[symmetric])
next
  case (Suc n)
  from Suc.hyps(2) have c: "c \<le> high" by (simp add: word_le_nat_alt)
  then have top: "c \<noteq> top_word" using assms by (metis word_order.extremum_unique)
  have n: "n = Suc (unat high) - unat (c + 1)" using Suc.hyps(2) by (simp add: unat_inc[OF top])
  note IH = Suc.hyps(1)[OF n]
  note Cons = cursors_upto_Cons[OF c assms]
  show ?case
  proof (cases "length (scan_out acc) < unat cap")
    case False
    then show ?thesis by (subst scan_lease.simps) (simp add: extend_scan_def)
  next
    case True
    then obtain k where k: "unat cap - length (scan_out acc) = Suc k"
      by (metis Suc_diff_Suc)
    then have k': "unat cap - Suc (length (scan_out acc)) = k" by simp
    show ?thesis
      using c True k k' by (subst scan_lease.simps)
        (simp add: IH Cons extend_scan_def apsnd_def apfst_def map_prod_def split: prod.splits)
  qed
qed

text \<open>What the selection is: the admissible candidates up to the limit, and the exhausted ones met on the way.\<close>

lemma pick_fst: "fst (pick bad n cs) = take n (filter (\<lambda>c. \<not> bad c) cs)"
  by (induction bad n cs rule: pick.induct) auto

lemma pick_sets:
  "set (fst (pick bad n cs)) \<subseteq> {c \<in> set cs. \<not> bad c}" "set (snd (pick bad n cs)) \<subseteq> {c \<in> set cs. bad c}"
  by (induction bad n cs rule: pick.induct) auto

lemma pick_sorted:
  "sorted_wrt (<) cs \<Longrightarrow> sorted_wrt (<) (fst (pick bad n cs)) \<and> sorted_wrt (<) (snd (pick bad n cs))"
proof (induction bad n cs rule: pick.induct)
  case (3 bad n c cs)
  then show ?case using pick_sets[of bad "Suc n" cs] pick_sets[of bad n cs] by auto
qed auto

lemma pick_not_full: "length (filter (\<lambda>c. \<not> bad c) cs) < n \<Longrightarrow> snd (pick bad n cs) = filter bad cs"
  by (induction bad n cs rule: pick.induct) auto

lemma pick_full:
  "sorted_wrt (<) cs \<Longrightarrow> n \<le> length (filter (\<lambda>c. \<not> bad c) cs) \<Longrightarrow> 0 < n \<Longrightarrow>
     snd (pick bad n cs) = filter (\<lambda>c. bad c \<and> c < last (fst (pick bad n cs))) (cs :: 'c::order list)"
proof (induction bad n cs rule: pick.induct)
  case (3 bad n c cs)
  show ?case
  proof (cases "bad c \<or> n \<noteq> 0")
    case True
    let ?m = "if bad c then Suc n else n"
    have IH: "snd (pick bad ?m cs) = filter (\<lambda>d. bad d \<and> d < last (fst (pick bad ?m cs))) cs"
      using 3 True by (auto split: if_splits)
    have "length (fst (pick bad ?m cs)) = ?m"
      using "3.prems"(2) by (cases "bad c") (simp_all add: pick_fst)
    then have ne: "fst (pick bad ?m cs) \<noteq> []" using True by auto
    then have "last (fst (pick bad ?m cs)) \<in> set cs" using pick_sets(1)[of bad ?m cs] last_in_set by blast
    then show ?thesis using IH ne "3.prems"(1) by auto
  next
    case False
    then have "filter (\<lambda>d. bad d \<and> d < c) cs = []"
      using "3.prems"(1) by (auto simp: filter_empty_conv)
    then show ?thesis using False by simp
  qed
qed auto

section \<open>The bridge\<close>

lemma bridge_floor_spec:
  assumes "0 |\<notin>| H"
  shows "\<exists>m. bridge_floor H n = Some m \<and> n \<le> m \<and> m + 1 |\<notin>| H \<and> (\<forall>d. n < d \<longrightarrow> d \<le> m \<longrightarrow> d |\<in>| H)"
proof (induction "2 ^ 64 - unat n" arbitrary: n rule: less_induct)
  case less
  show ?case
  proof (cases "n + 1 |\<in>| H")
    case False
    then show ?thesis by (subst bridge_floor.simps) auto
  next
    case True
    then have top: "n \<noteq> top_word" using assms by auto
    have "2 ^ 64 - unat (n + 1) < 2 ^ 64 - unat n"
      using unat_u64_less[of "n + 1"] by (simp add: unat_inc[OF top])
    from less[OF this] obtain m where m: "bridge_floor H (n + 1) = Some m" "n + 1 \<le> m" "m + 1 |\<notin>| H"
      "\<forall>d. n + 1 < d \<longrightarrow> d \<le> m \<longrightarrow> d |\<in>| H" by blast
    have "d |\<in>| H" if "n < d" "d \<le> m" for d
      using that m(4) True inc_le_iff[OF top, of d] by (cases "d = n + 1") auto
    moreover have "n \<le> m" using m(2) less_inc_self[OF top] by simp
    ultimately show ?thesis using True m by (subst bridge_floor.simps) auto
  qed
qed


section \<open>Plans\<close>

text \<open>The cursors a lease considers, and the selection it makes among them.\<close>

definition deliverable :: "subscription_state \<Rightarrow> cursor \<Rightarrow> cursor \<Rightarrow> u64 \<Rightarrow> cursor list" where
  "deliverable s high fl now =
     filter (\<lambda>c. \<not> withheld s now c) (cursors_upto (max (acked s) fl + 1) high)"

definition lease_picked ::
  "subscription_state \<Rightarrow> cursor \<Rightarrow> cursor \<Rightarrow> u64 \<Rightarrow> usize \<Rightarrow> cursor list \<times> cursor list" where
  "lease_picked s high fl now mx =
     pick (exhausted s) (unat (min mx MAX_LEASE_BATCH)) (deliverable s high fl now)"

lemma withheldI [intro]:
  "c \<in> fmdom' (dead s) \<Longrightarrow> withheld s now c" "c \<in> fmdom' (acked_set s) \<Longrightarrow> withheld s now c"
  by (simp_all add: withheld_def)

lemma set_deliverable:
  assumes "max (acked s) fl \<noteq> top_word"
  shows "set (deliverable s high fl now) =
    {c. fl < c \<and> c \<le> high \<and> c \<notin> handled s \<and> \<not> withheld s now c}"
proof -
  have "max (acked s) fl + 1 \<le> c \<longleftrightarrow> acked s < c \<and> fl < c" for c
    by (simp only: inc_le_iff[OF assms] max_less_iff_conj)
  moreover have "acked s < c \<and> \<not> withheld s now c \<longleftrightarrow> c \<notin> handled s \<and> \<not> withheld s now c" for c
    using withheldI[of c s now] by (simp only: handled_iff not_le[symmetric]) blast
  ultimately show ?thesis
    unfolding deliverable_def set_filter set_cursors_upto by blast
qed

lemma sorted_deliverable: "sorted_wrt (<) (deliverable s high fl now)"
  by (simp add: deliverable_def sorted_cursors_upto sorted_wrt_filter)

lemma picked_facts:
  assumes "max (acked s) fl \<noteq> top_word"
  shows "set (fst (lease_picked s high fl now mx)) \<subseteq>
      {c. fl < c \<and> c \<le> high \<and> c \<notin> handled s \<and> \<not> withheld s now c \<and> \<not> exhausted s c}"
    and "set (snd (lease_picked s high fl now mx)) \<subseteq>
      {c. fl < c \<and> c \<le> high \<and> c \<notin> handled s \<and> \<not> withheld s now c \<and> exhausted s c}"
    and "sorted_wrt (<) (fst (lease_picked s high fl now mx))"
    and "sorted_wrt (<) (snd (lease_picked s high fl now mx))"
    and "length (fst (lease_picked s high fl now mx)) \<le> unat (min mx MAX_LEASE_BATCH)"
proof -
  let ?bad = "exhausted s" and ?n = "unat (min mx MAX_LEASE_BATCH)" and ?cs = "deliverable s high fl now"
  show "set (fst (lease_picked s high fl now mx)) \<subseteq>
      {c. fl < c \<and> c \<le> high \<and> c \<notin> handled s \<and> \<not> withheld s now c \<and> \<not> exhausted s c}"
    "set (snd (lease_picked s high fl now mx)) \<subseteq>
      {c. fl < c \<and> c \<le> high \<and> c \<notin> handled s \<and> \<not> withheld s now c \<and> exhausted s c}"
    using pick_sets[of ?bad ?n ?cs] unfolding lease_picked_def set_deliverable[OF assms] by blast+
  show "sorted_wrt (<) (fst (lease_picked s high fl now mx))"
    "sorted_wrt (<) (snd (lease_picked s high fl now mx))"
    unfolding lease_picked_def using pick_sorted[OF sorted_deliverable] by blast+
  show "length (fst (lease_picked s high fl now mx)) \<le> ?n"
    by (simp add: lease_picked_def pick_fst)
qed

text \<open>What planning computes, once for both outcomes.\<close>

lemma plan_lease_cases:
  assumes s: "reg_get r name = Some s" and "zero_free s"
    and high: "high \<noteq> top_word" and top: "max (acked s) fl \<noteq> top_word"
  obtains (Nothing) "lease_picked s high fl now mx = ([], [])" "plan_lease r name high fl now mx = Some None"
  | (Plan) ls dd n where "lease_picked s high fl now mx = (ls, dd)" "(ls, dd) \<noteq> ([], [])"
    "plan_lease r name high fl now mx =
       Some (Some (ApplyLease name (map (\<lambda>c. (c, lease_expiry s now)) ls) dd n,
         \<lparr>leased = map (\<lambda>c. (c, next_attempt s c)) ls, dead_lettered = dd\<rparr>))"
    "max (acked s) fl \<le> n" "n + 1 \<notin> fmdom' (acked_set s) \<union> fmdom' (dead s) \<union> set dd"
    "\<And>d. d \<le> n \<Longrightarrow> d \<in> handled s \<or> d \<le> fl \<or> d \<in> set dd"
proof -
  obtain ls dd where p: "lease_picked s high fl now mx = (ls, dd)" by fastforce
  have scan: "scan_lease s now (lease_expiry s now) high (min mx MAX_LEASE_BATCH) (max (acked s) fl + 1) empty_scan =
    Some \<lparr>scan_stamped = map (\<lambda>c. (c, lease_expiry s now)) ls,
      scan_out = map (\<lambda>c. (c, next_attempt s c)) ls, scan_dead = dd\<rparr>"
    using p by (simp add: scan_lease_pick[OF high] extend_scan_def empty_scan_def lease_picked_def
        deliverable_def)
  show thesis
  proof (cases "(ls, dd) = ([], [])")
    case True
    then have "plan_lease r name high fl now mx = Some None"
      by (simp add: plan_lease_def s Let_def scan)
    with True p show thesis by (intro Nothing) simp_all
  next
    case False
    let ?H = "fmdom (dead s) |\<union>| fmdom (acked_set s) |\<union>| fset_of_list dd"
    have "0 \<notin> set dd" using picked_facts(2)[OF top, of high now mx] p by auto
    then have "0 |\<notin>| ?H"
      using assms(2) by (auto simp: zero_free_def fmdom'_alt_def fset_of_list_elem)
    from bridge_floor_spec[OF this, of "max (acked s) fl"] obtain n where
      n: "bridge_floor ?H (max (acked s) fl) = Some n" "max (acked s) fl \<le> n" "n + 1 |\<notin>| ?H"
      "\<forall>d. max (acked s) fl < d \<longrightarrow> d \<le> n \<longrightarrow> d |\<in>| ?H" by blast
    have "plan_lease r name high fl now mx =
       Some (Some (ApplyLease name (map (\<lambda>c. (c, lease_expiry s now)) ls) dd n,
         \<lparr>leased = map (\<lambda>c. (c, next_attempt s c)) ls, dead_lettered = dd\<rparr>))"
      using False by (auto simp: plan_lease_def s Let_def scan n(1))
    moreover have "d \<in> handled s \<or> d \<le> fl \<or> d \<in> set dd" if "d \<le> n" for d
      using n(4) that by (auto simp: handled_iff fmdom'_alt_def fset_of_list_elem not_le)
    moreover have "n + 1 \<notin> fmdom' (acked_set s) \<union> fmdom' (dead s) \<union> set dd"
      using n(3) by (auto simp: fmdom'_alt_def fset_of_list_elem)
    ultimately show thesis using False p n(2) by (intro Plan) auto
  qed
qed

end
