(* ===== verification/Registry.thy ===== *)
theory Registry
  imports Lease_Plan
begin

text \<open>
  The subscription registry as a replicated state machine: which scripts of operations the owner can
  produce (a lease is applied only as planned), the invariant such scripts keep, and the delivery
  contract of a subscription stated over them.
\<close>

section \<open>Admissible operations\<close>

definition reg_inv :: "sub_registry \<Rightarrow> bool" where
  "reg_inv r \<longleftrightarrow> (\<forall>n s. reg_get r n = Some s \<longrightarrow> sub_inv s)"

text \<open>
  A lease is applied in the state it was planned for, with a retention floor that is at most \<open>F\<close> and
  not above the highest cursor.  The 64-bit range of cursors is not used up.
\<close>

definition lease_request ::
  "cursor \<Rightarrow> sub_registry \<Rightarrow> string \<Rightarrow> subscription_state \<Rightarrow> cursor \<Rightarrow> cursor \<Rightarrow> bool" where
  "lease_request F r name s high fl \<longleftrightarrow>
     reg_get r name = Some s \<and> sub_inv s \<and> acked s \<noteq> top_word \<and> high \<noteq> top_word \<and> fl \<le> high \<and> fl \<le> F"

definition lease_planned :: "cursor \<Rightarrow> sub_registry \<Rightarrow> sub_op \<Rightarrow> bool" where
  "lease_planned F r x \<longleftrightarrow>
     (case x of
        ApplyLease name _ _ _ \<Rightarrow>
          \<exists>s high fl now mx out. lease_request F r name s high fl \<and>
            plan_lease r name high fl now mx = Some (Some (x, out))
      | _ \<Rightarrow> True)"

lemma reg_invD: "reg_inv r \<Longrightarrow> reg_get r n = Some s \<Longrightarrow> sub_inv s"
  by (simp add: reg_inv_def)

lemma reg_inv_empty [simp]: "reg_inv empty_registry"
  by (simp add: reg_inv_def)

lemma lease_request_top:
  "lease_request F r name s high fl \<Longrightarrow> max (acked s) fl \<noteq> top_word"
  by (auto simp: lease_request_def max_def dest: word_order.extremum_unique[THEN iffD1])

text \<open>What is known of a planned lease, for use by every proof about it.\<close>

lemma planned_leaseE:
  assumes "lease_request F r name s high fl"
    and "plan_lease r name high fl now mx = Some (Some (x, out))"
  obtains ls dd n where "lease_picked s high fl now mx = (ls, dd)"
    and "x = ApplyLease name (map (\<lambda>c. (c, lease_expiry s now)) ls) dd n"
    and "out = \<lparr>leased = map (\<lambda>c. (c, next_attempt s c)) ls, dead_lettered = dd\<rparr>"
    and "reg_get (apply_sub r x) name = Some (apply_lease s (map (\<lambda>c. (c, lease_expiry s now)) ls) dd n)"
    and "set ls \<subseteq> {c. fl < c \<and> c \<le> high \<and> c \<notin> handled s \<and> \<not> withheld s now c \<and> \<not> exhausted s c}"
    and "set dd \<subseteq> {c. fl < c \<and> c \<le> high \<and> c \<notin> handled s \<and> \<not> withheld s now c \<and> exhausted s c}"
    and "sorted_wrt (<) ls" "length ls \<le> unat (min mx MAX_LEASE_BATCH)"
    and "max (acked s) fl \<le> n" "n + 1 \<notin> fmdom' (acked_set s) \<union> fmdom' (dead s) \<union> set dd"
    and "\<And>d. d \<le> n \<Longrightarrow> d \<in> handled s \<or> d \<le> fl \<or> d \<in> set dd"
proof -
  from assms(1) have s: "reg_get r name = Some s" "zero_free s" "high \<noteq> top_word"
    by (auto simp: lease_request_def dest: sub_invD)
  note top = lease_request_top[OF assms(1)]
  note facts = picked_facts[OF top, of high now mx]
  show thesis
  proof (rule plan_lease_cases[OF s top, of now mx])
    assume "plan_lease r name high fl now mx = Some None"
    with assms(2) show thesis by simp
  next
    fix ls dd n
    assume p: "lease_picked s high fl now mx = (ls, dd)"
      and plan: "plan_lease r name high fl now mx =
         Some (Some (ApplyLease name (map (\<lambda>c. (c, lease_expiry s now)) ls) dd n,
           \<lparr>leased = map (\<lambda>c. (c, next_attempt s c)) ls, dead_lettered = dd\<rparr>))"
      and n: "max (acked s) fl \<le> n" "n + 1 \<notin> fmdom' (acked_set s) \<union> fmdom' (dead s) \<union> set dd"
        "\<And>d. d \<le> n \<Longrightarrow> d \<in> handled s \<or> d \<le> fl \<or> d \<in> set dd"
    from plan assms(2)
    have x: "x = ApplyLease name (map (\<lambda>c. (c, lease_expiry s now)) ls) dd n"
      and out: "out = \<lparr>leased = map (\<lambda>c. (c, next_attempt s c)) ls, dead_lettered = dd\<rparr>"
      by simp_all
    have "reg_get (apply_sub r x) name = Some (apply_lease s (map (\<lambda>c. (c, lease_expiry s now)) ls) dd n)"
      by (simp add: x reg_get_apply s(1))
    from that[OF p x out this facts(1,2,3,5)[unfolded p fst_conv snd_conv] n] show thesis .
  qed
qed

lemma planned_lease_inv:
  assumes "lease_request F r name s high fl"
    and "plan_lease r name high fl now mx = Some (Some (x, out))"
    and "reg_get (apply_sub r x) name = Some t"
  shows "sub_inv t" and "handled s \<subseteq> handled t" and "policy t = policy s"
    and "handled t \<subseteq> handled s \<union> {c. c \<le> fl} \<union> {c. exhausted s c}" and "fl \<le> acked t"
proof -
  have inv: "sub_inv s" using assms(1) by (simp add: lease_request_def)
  obtain ls dd n where get: "reg_get (apply_sub r x) name =
        Some (apply_lease s (map (\<lambda>c. (c, lease_expiry s now)) ls) dd n)"
    and ls: "set ls \<subseteq> {c. fl < c \<and> c \<le> high \<and> c \<notin> handled s \<and> \<not> withheld s now c \<and> \<not> exhausted s c}"
    and dd: "set dd \<subseteq> {c. fl < c \<and> c \<le> high \<and> c \<notin> handled s \<and> \<not> withheld s now c \<and> exhausted s c}"
    and n: "max (acked s) fl \<le> n" "n + 1 \<notin> fmdom' (acked_set s) \<union> fmdom' (dead s) \<union> set dd"
      "\<And>d. d \<le> n \<Longrightarrow> d \<in> handled s \<or> d \<le> fl \<or> d \<in> set dd"
    by (rule planned_leaseE[OF assms(1,2)]) (rule that)
  from get assms(3) have t: "t = apply_lease s (map (\<lambda>c. (c, lease_expiry s now)) ls) dd n" by simp
  have lsi: "fst ` set (map (\<lambda>c. (c, lease_expiry s now)) ls) = set ls" by (simp add: image_image)
  have "0 \<notin> set dd" using dd by auto
  moreover have "fst ` set (map (\<lambda>c. (c, lease_expiry s now)) ls) \<inter> (handled s \<union> set dd) = {}"
    unfolding lsi using ls dd by blast
  ultimately show "sub_inv t"
    unfolding t using n(1,2) by (intro sub_inv_apply_lease[OF inv]) simp_all
  show "handled s \<subseteq> handled t" by (auto simp: t handled_apply_lease)
  show "policy t = policy s" by (simp add: t apply_lease_fields)
  show "handled t \<subseteq> handled s \<union> {c. c \<le> fl} \<union> {c. exhausted s c}"
    using n(3) dd by (auto simp: t handled_apply_lease)
  show "fl \<le> acked t" using n(1) by (auto simp: t apply_lease_fields)
qed

lemma reg_inv_apply:
  assumes "reg_inv r" "lease_planned F r x"
  shows "reg_inv (apply_sub r x)"
proof -
  have "sub_inv t" if t: "reg_get (apply_sub r x) m = Some t" for m t
  proof (cases x)
    case (ApplyLease name ls dd na)
    show ?thesis
    proof (cases "m = name")
      case True
      from assms(2) obtain s high fl now mx out where "lease_request F r name s high fl"
        "plan_lease r name high fl now mx = Some (Some (x, out))"
        by (auto simp: lease_planned_def ApplyLease)
      then show ?thesis using t unfolding True by (rule planned_lease_inv(1))
    next
      case False
      with t have "reg_get r m = Some t" by (simp add: ApplyLease reg_get_apply)
      then show ?thesis by (rule reg_invD[OF assms(1)])
    qed
  qed (use t assms(1) in \<open>auto simp: reg_get_apply sub_inv_policy reg_inv_def sub_inv_default
        intro: sub_inv_ack sub_inv_nack split: if_splits option.splits\<close>)
  then show ?thesis by (simp add: reg_inv_def)
qed

interpretation registry: state_machine apply_sub reg_inv "lease_planned F" for F
  by unfold_locales (rule reg_inv_apply)

section \<open>The handled cursors of a subscription\<close>

definition handled_in :: "string \<Rightarrow> sub_registry \<Rightarrow> cursor set" where
  "handled_in n r = (case reg_get r n of Some s \<Rightarrow> handled s | None \<Rightarrow> {})"

lemma handled_in_ack:
  assumes "reg_inv r" "reg_get r n = Some s"
  shows "handled_in n (apply_sub r (Ack n c)) = insert c (handled s)"
  using assms(2) handled_ack[OF sub_invD(1)[OF reg_invD[OF assms]]]
  by (simp add: handled_in_def reg_get_apply)

text \<open>Operations that do not delete the subscription.\<close>

definition keeps :: "string \<Rightarrow> cursor \<Rightarrow> sub_registry \<Rightarrow> sub_op \<Rightarrow> bool" where
  "keeps n F r x \<longleftrightarrow> lease_planned F r x \<and> x \<noteq> Delete n"

lemma handled_in_apply:
  assumes "reg_inv r" "keeps n F r x"
  shows "handled_in n r \<subseteq> handled_in n (apply_sub r x)"
proof (cases x)
  case (ApplyLease name ls dd na)
  then show ?thesis
    by (auto simp: handled_in_def reg_get_apply handled_apply_lease split: option.splits)
next
  case (Ack name c)
  then show ?thesis
    using assms(1) handled_ack[of _ c]
    by (auto simp: handled_in_def reg_get_apply dest: reg_invD sub_invD(1) split: option.splits)
qed (use assms(2) in \<open>auto simp: handled_in_def reg_get_apply keeps_def split: option.splits\<close>)

interpretation registry_handled: monotone_machine apply_sub reg_inv "keeps n F" "handled_in n" for n F
proof unfold_locales
  show "reg_inv r \<Longrightarrow> keeps n F r x \<Longrightarrow> reg_inv (apply_sub r x)" for r x
    by (rule reg_inv_apply[of r F]) (simp_all add: keeps_def)
qed (rule handled_in_apply)

section \<open>Consequences of a planned lease\<close>

lemma pick_empty_iff: "pick bad n cs = ([], []) \<longleftrightarrow> n = 0 \<or> cs = []"
  by (cases "(bad, n, cs)" rule: pick.cases) (auto simp: apsnd_def apfst_def map_prod_def split: prod.splits)

lemma lease_room_0: "unat (min mx MAX_LEASE_BATCH) = 0 \<longleftrightarrow> mx = 0"
  by (auto simp: unat_eq_0 min_def MAX_LEASE_BATCH_def)

lemma plan_lease_none:
  assumes "lease_request F r n s high fl"
  shows "(plan_lease r n high fl now mx = Some None) = (mx = 0 \<or> deliverable s high fl now = [])"
proof -
  from assms have s: "reg_get r n = Some s" "zero_free s" "high \<noteq> top_word"
    by (auto simp: lease_request_def dest: sub_invD)
  have picked: "lease_picked s high fl now mx = ([], []) \<longleftrightarrow> mx = 0 \<or> deliverable s high fl now = []"
    by (simp add: lease_picked_def pick_empty_iff lease_room_0)
  show ?thesis
    by (rule plan_lease_cases[OF s lease_request_top[OF assms], of now mx]) (auto simp flip: picked)
qed

lemma lease_planned_intro:
  assumes "lease_request F r n s high fl" "plan_lease r n high fl now mx = Some (Some (x, out))"
  shows "lease_planned F r x"
proof (rule planned_leaseE[OF assms])
  fix ls dd na
  assume x: "x = ApplyLease n (map (\<lambda>c. (c, lease_expiry s now)) ls) dd na"
  show ?thesis unfolding lease_planned_def x sub_op.case
    using assms unfolding x by blast
qed

lemma handled_not_planned:
  assumes "reg_inv r" "c \<in> handled_in n r" "admissible_run apply_sub (keeps n F) r ops"
    and "lease_request F (replay apply_sub r ops) n s high fl"
    and "plan_lease (replay apply_sub r ops) n high fl now mx = Some (Some (x, out))"
  shows "c \<notin> fst ` set (leased out) \<and> c \<notin> set (dead_lettered out)"
proof -
  have "c \<in> handled_in n (replay apply_sub r ops)"
    using registry_handled.replay_mono[OF assms(1,3)] assms(2) by blast
  then have c: "c \<in> handled s" using assms(4) by (simp add: handled_in_def lease_request_def)
  show ?thesis
    by (rule planned_leaseE[OF assms(4,5)]) (use c in auto)
qed

text \<open>One operation handles a cursor above the retention floor only by an ack or at the delivery limit.\<close>

lemma newly_handled:
  assumes "reg_inv r" "lease_planned F r x" "F < c"
    and "c \<in> handled_in n (apply_sub r x)" "c \<notin> handled_in n r"
  shows "x = Ack n c \<or> (\<exists>s ls dd na. x = ApplyLease n ls dd na \<and> c \<in> set dd \<and> reg_get r n = Some s \<and> exhausted s c)"
proof (cases x)
  case (Create m p)
  have "c \<noteq> 0" using assms(3) by auto
  with assms(4,5) show ?thesis
    by (auto simp: Create handled_in_def reg_get_apply handled_iff default_state_def split: if_splits option.splits)
next
  case (ApplyLease m ls dd na)
  show ?thesis
  proof (cases "m = n")
    case True
    from assms(2) obtain s high fl now mx out where req: "lease_request F r n s high fl"
      and plan: "plan_lease r n high fl now mx = Some (Some (x, out))"
      by (auto simp: lease_planned_def ApplyLease True)
    from req have s: "reg_get r n = Some s" "fl \<le> F" by (simp_all add: lease_request_def)
    show ?thesis
    proof (rule planned_leaseE[OF req plan])
      fix ls' dd' na'
      assume x: "x = ApplyLease n (map (\<lambda>c. (c, lease_expiry s now)) ls') dd' na'"
        and get: "reg_get (apply_sub r x) n = Some (apply_lease s (map (\<lambda>c. (c, lease_expiry s now)) ls') dd' na')"
        and dd: "set dd' \<subseteq> {c. fl < c \<and> c \<le> high \<and> c \<notin> handled s \<and> \<not> withheld s now c \<and> exhausted s c}"
        and na: "\<And>d. d \<le> na' \<Longrightarrow> d \<in> handled s \<or> d \<le> fl \<or> d \<in> set dd'"
      have "c \<in> set dd'"
        using assms(3-5) s na[of c] get by (auto simp: handled_in_def handled_apply_lease)
      with s(1) x dd show ?thesis by auto
    qed
  qed (use assms(4,5) in \<open>simp add: ApplyLease handled_in_def reg_get_apply\<close>)
next
  case (Ack m d)
  then show ?thesis
    using assms(1,4,5) handled_ack[OF sub_invD(1)[OF reg_invD[OF assms(1)]], of n _ d]
    by (auto simp: handled_in_def reg_get_apply split: if_splits option.splits)
qed (use assms(4,5) in \<open>auto simp: handled_in_def reg_get_apply split: if_splits option.splits\<close>)

lemma unhandled_top: "c \<notin> handled s \<Longrightarrow> fl < c \<Longrightarrow> max (acked s) fl \<noteq> top_word"
  by (rule less_not_top[of _ c]) (simp add: handled_iff not_le)

text \<open>What applying a planned lease leaves for a cursor it handed out.\<close>

lemma leased_state:
  assumes "lease_request F r n s high fl"
    and "plan_lease r n high fl now mx = Some (Some (x, out))"
    and "reg_get (apply_sub r x) n = Some t" "(c, k) \<in> set (leased out)"
  shows "c \<notin> handled t \<and> attempt_count t c = k \<and> fmlookup (leases t) c =
    Some \<lparr>lease_cursor = c, expires_at = lease_expiry s now, lease_attempts = k\<rparr>"
proof -
  obtain ls dd na where out: "leased out = map (\<lambda>c. (c, next_attempt s c)) ls"
    and get: "reg_get (apply_sub r x) n = Some (apply_lease s (map (\<lambda>c. (c, lease_expiry s now)) ls) dd na)"
    and ls: "set ls \<subseteq> {c. fl < c \<and> c \<le> high \<and> c \<notin> handled s \<and> \<not> withheld s now c \<and> \<not> exhausted s c}"
    and dd: "set dd \<subseteq> {c. fl < c \<and> c \<le> high \<and> c \<notin> handled s \<and> \<not> withheld s now c \<and> exhausted s c}"
    and sorted: "sorted_wrt (<) ls"
    and new: "\<And>d. d \<le> na \<Longrightarrow> d \<in> handled s \<or> d \<le> fl \<or> d \<in> set dd"
    by (rule planned_leaseE[OF assms(1,2)]) (rule that, simp_all)
  let ?ls = "map (\<lambda>c. (c, lease_expiry s now)) ls"
  have t: "t = apply_lease s ?ls dd na" using get assms(3) by simp
  from assms(4) have c: "c \<in> set ls" "k = attempt_count s c + 1" by (auto simp: out next_attempt_def)
  have dd': "c \<notin> set dd" using c(1) ls dd by blast
  have "c \<notin> handled t" using new[of c] c(1) ls dd' by (auto simp: t handled_apply_lease)
  moreover have "attempt_count (foldl mark_dead s dd) c = attempt_count s c"
    using dd' by (simp add: attempt_count_def mark_dead_fold)
  moreover have "distinct (map fst ?ls)"
    using sorted[unfolded strict_sorted_iff] by (simp add: comp_def)
  ultimately show ?thesis
    using add_lease_fold_leased[of c "lease_expiry s now" ?ls "foldl mark_dead s dd"] c
    by (auto simp: t apply_lease_def attempt_count_def)
qed

text \<open>The delivery limit of a subscription that is only ever created with the limit \<open>m\<close>.\<close>

definition within_limit :: "string \<Rightarrow> u32 \<Rightarrow> sub_registry \<Rightarrow> bool" where
  "within_limit n m r \<longleftrightarrow> m \<noteq> 0 \<and>
     (\<forall>s. reg_get r n = Some s \<longrightarrow> max_delivery_attempts (policy s) = m \<and> (\<forall>c. attempt_count s c \<le> m))"

definition limited :: "string \<Rightarrow> u32 \<Rightarrow> cursor \<Rightarrow> sub_registry \<Rightarrow> sub_op \<Rightarrow> bool" where
  "limited n m F r x \<longleftrightarrow> lease_planned F r x \<and> (\<forall>p. x = Create n p \<longrightarrow> max_delivery_attempts p = m)"

lemma attempt_count_apply_lease:
  assumes "attempt_count s c \<le> m" "distinct (map fst ls)"
    and "\<And>e. (c, e) \<in> set ls \<Longrightarrow> c \<notin> set dd \<and> next_attempt s c \<le> m"
  shows "attempt_count (apply_lease s ls dd na) c \<le> m"
proof (cases "c \<in> fst ` set ls")
  case True
  then obtain e where e: "(c, e) \<in> set ls" by auto
  then have "attempt_count (foldl mark_dead s dd) c = attempt_count s c"
    using assms(3) by (simp add: attempt_count_def mark_dead_fold)
  with add_lease_fold_leased[OF e assms(2), of "foldl mark_dead s dd"] assms(3)[OF e]
  show ?thesis by (simp add: attempt_count_def apply_lease_def next_attempt_def)
next
  case False
  then have "fmlookup (attempts (apply_lease s ls dd na)) c = fmlookup (attempts (foldl mark_dead s dd)) c"
    by (simp add: apply_lease_def add_lease_fold_other)
  with assms(1) show ?thesis by (simp add: attempt_count_def mark_dead_fold)
qed

lemma within_limit_apply:
  assumes "within_limit n m r" "limited n m F r x"
  shows "within_limit n m (apply_sub r x)"
proof (cases x)
  case (ApplyLease p ls dd na)
  show ?thesis
  proof (cases "p = n")
    case True
    from assms(2) obtain s high fl now mx out where req: "lease_request F r n s high fl"
      and plan: "plan_lease r n high fl now mx = Some (Some (x, out))"
      by (auto simp: limited_def lease_planned_def ApplyLease True)
    from req assms(1) have s: "max_delivery_attempts (policy s) = m" "attempt_count s c \<le> m" for c
      by (simp_all add: within_limit_def lease_request_def)
    show ?thesis
    proof (rule planned_leaseE[OF req plan])
      fix ls' dd' na'
      assume get: "reg_get (apply_sub r x) n = Some (apply_lease s (map (\<lambda>c. (c, lease_expiry s now)) ls') dd' na')"
        and ls: "set ls' \<subseteq> {c. fl < c \<and> c \<le> high \<and> c \<notin> handled s \<and> \<not> withheld s now c \<and> \<not> exhausted s c}"
        and dd: "set dd' \<subseteq> {c. fl < c \<and> c \<le> high \<and> c \<notin> handled s \<and> \<not> withheld s now c \<and> exhausted s c}"
        and sorted: "sorted_wrt (<) ls'"
      have "attempt_count (apply_lease s (map (\<lambda>c. (c, lease_expiry s now)) ls') dd' na') c \<le> m" for c
      proof (rule attempt_count_apply_lease[OF s(2)])
        show "distinct (map fst (map (\<lambda>c. (c, lease_expiry s now)) ls'))"
          using sorted[unfolded strict_sorted_iff] by (simp add: comp_def)
        fix e assume "(c, e) \<in> set (map (\<lambda>c. (c, lease_expiry s now)) ls')"
        then have "c \<in> set ls'" by auto
        then have "c \<notin> set dd'" "\<not> exhausted s c" using ls dd by blast+
        then show "c \<notin> set dd' \<and> next_attempt s c \<le> m" using assms(1) by (simp add: exhausted_def s(1) not_less within_limit_def)
      qed
      then show ?thesis using get s(1) assms(1) by (simp add: within_limit_def apply_lease_fields)
    qed
  qed (use assms(1) in \<open>simp add: ApplyLease within_limit_def reg_get_apply\<close>)
qed (use assms in \<open>auto simp: within_limit_def limited_def reg_get_apply attempt_count_def default_state_def
      ack_leases apply_nack_def split: option.splits if_splits\<close>)

interpretation delivery_limit: state_machine apply_sub "within_limit n m" "limited n m F" for n m F
  by unfold_locales (rule within_limit_apply)

end
