(* ===== verification/Dedup.thy ===== *)
theory Dedup
  imports State_Machine
begin

text \<open>
  The two bounded, time-evicting caches of \<open>src/src/dedup.rs\<close>: \<open>IdempotencyCache\<close> for the ingest
  path and \<open>TokenSet\<close> for the control path.  Both keep a map and a queue of keys in insertion order;
  an expired entry leaves the map when it is looked up, but its key stays in the queue.
\<close>

section \<open>The caches\<close>

datatype seen = Seen_cursor cursor | Seen_handled

record idempotency_cache =
  cache_map :: "(string, seen \<times> u64) fmap"
  cache_order :: "string list"
  cache_capacity :: nat
  cache_ttl :: u64

definition new_cache :: "nat \<Rightarrow> u64 \<Rightarrow> idempotency_cache" where
  "new_cache capacity ttl =
     \<lparr>cache_map = fmempty, cache_order = [], cache_capacity = max capacity 1, cache_ttl = ttl\<rparr>"

definition cache_get :: "string \<Rightarrow> u64 \<Rightarrow> idempotency_cache \<Rightarrow> idempotency_cache \<times> seen option" where
  "cache_get key now c =
     (case fmlookup (cache_map c) key of
        Some (seen, at) \<Rightarrow>
          if cache_ttl c \<noteq> 0 \<and> cache_ttl c < sat_sub now at
          then (c\<lparr>cache_map := fmdrop key (cache_map c)\<rparr>, None)
          else (c, Some seen)
      | None \<Rightarrow> (c, None))"

text \<open>
  The eviction loop of both caches: while the map is full, take the oldest key off the queue and drop
  it from the map.
\<close>

fun evict :: "nat \<Rightarrow> ('k, 'v) fmap \<Rightarrow> 'k list \<Rightarrow> ('k, 'v) fmap \<times> 'k list" where
  "evict cap m [] = (m, [])"
| "evict cap m (oldest # ks) =
     (if cap \<le> map_len m then evict cap (fmdrop oldest m) ks else (m, oldest # ks))"

definition cache_insert :: "string \<Rightarrow> seen \<Rightarrow> u64 \<Rightarrow> idempotency_cache \<Rightarrow> idempotency_cache" where
  "cache_insert key seen now c =
     (if contains_key (cache_map c) key
      then c\<lparr>cache_map := fmupd key (seen, now) (cache_map c)\<rparr>
      else let (m, ks) = evict (cache_capacity c) (cache_map c) (cache_order c) in
        c\<lparr>cache_map := fmupd key (seen, now) m, cache_order := ks @ [key]\<rparr>)"

definition cache_len :: "idempotency_cache \<Rightarrow> nat" where
  "cache_len c = map_len (cache_map c)"

definition cache_is_empty :: "idempotency_cache \<Rightarrow> bool" where
  "cache_is_empty c \<longleftrightarrow> cache_map c = fmempty"

record token_set =
  token_map :: "(u64, u64) fmap"
  token_order :: "u64 list"
  token_capacity :: nat
  token_ttl :: u64

definition new_token_set :: "nat \<Rightarrow> u64 \<Rightarrow> token_set" where
  "new_token_set capacity ttl =
     \<lparr>token_map = fmempty, token_order = [], token_capacity = max capacity 1, token_ttl = ttl\<rparr>"

definition token_seen :: "u64 \<Rightarrow> u64 \<Rightarrow> token_set \<Rightarrow> token_set \<times> bool" where
  "token_seen token now t =
     (let live = (case fmlookup (token_map t) token of
                    Some at \<Rightarrow> token_ttl t = 0 \<or> sat_sub now at \<le> token_ttl t
                  | None \<Rightarrow> False) in
      if live then (t, True)
      else
        let (m, ks) = evict (token_capacity t) (fmdrop token (token_map t)) (token_order t) in
        (t\<lparr>token_map := fmupd token now m, token_order := ks @ [token]\<rparr>, False))"

definition token_len :: "token_set \<Rightarrow> nat" where
  "token_len t = map_len (token_map t)"

definition token_is_empty :: "token_set \<Rightarrow> bool" where
  "token_is_empty t \<longleftrightarrow> token_map t = fmempty"

section \<open>The queue bounds the map\<close>

text \<open>Every live key is queued, and the map never exceeds its capacity.\<close>

definition bounded :: "nat \<Rightarrow> ('k, 'v) fmap \<Rightarrow> 'k list \<Rightarrow> bool" where
  "bounded cap m ks \<longleftrightarrow> fmdom' m \<subseteq> set ks \<and> map_len m \<le> cap \<and> 0 < cap"

lemma bounded_drop: "bounded cap m ks \<Longrightarrow> bounded cap (fmdrop k m) ks"
  by (auto simp: bounded_def map_len_drop)

lemma evict_room:
  assumes "bounded cap m ks" "evict cap m ks = (m', ks')"
  shows "fmdom' m' \<subseteq> set ks'" and "map_len m' < cap"
proof -
  have "fmdom' m' \<subseteq> set ks' \<and> map_len m' < cap" if "fmdom' m \<subseteq> set ks" "0 < cap"
    using that assms(2)
  proof (induction cap m ks rule: evict.induct)
    case (1 cap m)
    then have "m = fmempty" by (intro fmap_ext) (auto simp: fmlookup_dom'_iff)
    with 1 show ?case by simp
  next
    case (2 cap m k ks)
    then show ?case by (auto split: if_splits)
  qed
  with assms(1) show "fmdom' m' \<subseteq> set ks'" "map_len m' < cap" by (simp_all add: bounded_def)
qed

lemma bounded_insert_new:
  assumes "bounded cap m ks" "evict cap m ks = (m', ks')"
  shows "bounded cap (fmupd k v m') (ks' @ [k])"
  using evict_room[OF assms] assms(1) by (auto simp: bounded_def map_len_upd)

lemma bounded_update: "bounded cap m ks \<Longrightarrow> k \<in> fmdom' m \<Longrightarrow> bounded cap (fmupd k v m) ks"
  by (auto simp: bounded_def map_len_upd)

definition cache_inv :: "idempotency_cache \<Rightarrow> bool" where
  "cache_inv c \<longleftrightarrow> bounded (cache_capacity c) (cache_map c) (cache_order c)"

definition token_inv :: "token_set \<Rightarrow> bool" where
  "token_inv t \<longleftrightarrow> bounded (token_capacity t) (token_map t) (token_order t)"

lemma new_cache_inv [simp]: "cache_inv (new_cache capacity ttl)"
  by (simp add: cache_inv_def new_cache_def bounded_def)

lemma new_token_inv [simp]: "token_inv (new_token_set capacity ttl)"
  by (simp add: token_inv_def new_token_set_def bounded_def)

lemma cache_get_inv: "cache_inv c \<Longrightarrow> cache_inv (fst (cache_get key now c))"
  by (auto simp: cache_get_def cache_inv_def bounded_drop split: option.splits)

lemma cache_insert_inv: "cache_inv c \<Longrightarrow> cache_inv (cache_insert key seen now c)"
  by (auto simp: cache_insert_def cache_inv_def Let_def bounded_update bounded_insert_new split: prod.splits)

lemma cache_insert_frame [simp]:
  "cache_capacity (cache_insert key seen now c) = cache_capacity c"
  "cache_ttl (cache_insert key seen now c) = cache_ttl c"
  by (simp_all add: cache_insert_def Let_def split: prod.splits)

lemma cache_get_frame [simp]:
  "cache_capacity (fst (cache_get key now c)) = cache_capacity c"
  "cache_ttl (fst (cache_get key now c)) = cache_ttl c"
  by (auto simp: cache_get_def split: option.splits)

lemma cache_insert_lookup [simp]: "fmlookup (cache_map (cache_insert key seen now c)) key = Some (seen, now)"
  by (simp add: cache_insert_def Let_def split: prod.splits)

lemma token_seen_inv: "token_inv t \<Longrightarrow> token_inv (fst (token_seen token now t))"
  using bounded_drop[of "token_capacity t" "token_map t" "token_order t" token]
  by (auto simp: token_seen_def token_inv_def Let_def intro: bounded_insert_new split: prod.splits)

lemma token_seen_again:
  assumes "token_ttl t = 0 \<or> unat now' - unat now \<le> unat (token_ttl t)" "\<not> snd (token_seen k now t)"
  shows "token_seen k now' (fst (token_seen k now t)) = (fst (token_seen k now t), True)"
  using assms
  by (auto simp: token_seen_def Let_def word_le_nat_alt unat_sat_sub split: prod.splits if_splits option.splits)

text \<open>Scripts of cache operations.\<close>

datatype cache_op = Get string u64 | Insert string seen u64

fun cache_step :: "idempotency_cache \<Rightarrow> cache_op \<Rightarrow> idempotency_cache" where
  "cache_step c (Get key now) = fst (cache_get key now c)"
| "cache_step c (Insert key seen now) = cache_insert key seen now c"

interpretation dedup_cache: state_machine cache_step cache_inv "\<lambda>_ _. True"
  by unfold_locales (metis cache_get_inv cache_insert_inv cache_step.elims)

section \<open>The interface a handler relies on\<close>

text \<open>
  A store that remembers the outcome of a request: what was recorded is found again while it is live,
  and finding it changes nothing.
\<close>

locale outcome_store =
  fixes find :: "'k \<Rightarrow> u64 \<Rightarrow> 's \<Rightarrow> 's \<times> 'v option"
    and record_outcome :: "'k \<Rightarrow> 'v \<Rightarrow> u64 \<Rightarrow> 's \<Rightarrow> 's"
    and inv :: "'s \<Rightarrow> bool"
    and live :: "'s \<Rightarrow> u64 \<Rightarrow> u64 \<Rightarrow> bool"
  assumes find_inv: "inv s \<Longrightarrow> inv (fst (find k now s))"
    and record_inv: "inv s \<Longrightarrow> inv (record_outcome k v now s)"
    and find_hit: "snd (find k now s) = Some v \<Longrightarrow> fst (find k now s) = s"
    and find_recorded: "live s at now \<Longrightarrow> snd (find k now (record_outcome k v at s)) = Some v"
    and live_find: "live (fst (find k now' s)) at now = live s at now"
begin

text \<open>A retry while the outcome is live finds it and leaves the store as it was.\<close>

lemma retry:
  assumes "live s at now"
  shows "find k now (record_outcome k v at (fst (find k at s))) =
    (record_outcome k v at (fst (find k at s)), Some v)"
proof -
  let ?s = "record_outcome k v at (fst (find k at s))"
  have "snd (find k now ?s) = Some v" using assms by (simp add: find_recorded live_find)
  with find_hit[OF this] show ?thesis by (metis prod.collapse)
qed

end

definition cache_live :: "idempotency_cache \<Rightarrow> u64 \<Rightarrow> u64 \<Rightarrow> bool" where
  "cache_live c at now \<longleftrightarrow> cache_ttl c = 0 \<or> sat_sub now at \<le> cache_ttl c"

interpretation ingest_store: outcome_store cache_get cache_insert cache_inv cache_live
proof unfold_locales
  show "cache_inv s \<Longrightarrow> cache_inv (fst (cache_get k now s))" for s k now by (rule cache_get_inv)
  show "cache_inv s \<Longrightarrow> cache_inv (cache_insert k v now s)" for s k v now by (rule cache_insert_inv)
  show "snd (cache_get k now s) = Some v \<Longrightarrow> fst (cache_get k now s) = s" for k now s v
    by (auto simp: cache_get_def split: option.splits if_splits)
  show "cache_live s at now \<Longrightarrow> snd (cache_get k now (cache_insert k v at s)) = Some v" for s at now k v
    by (auto simp: cache_get_def cache_live_def)
  show "cache_live (fst (cache_get k now' s)) at now = cache_live s at now" for k now' s at now
    by (simp add: cache_live_def)
qed

section \<open>Retention without expiry\<close>

text \<open>
  Without a time limit the queue is the list of the live keys, each once, so eviction is first in,
  first out.  \<open>queued_behind\<close> says that a key is live with its outcome and at most \<open>n\<close> keys are
  queued behind it.
\<close>

definition exact_queue :: "idempotency_cache \<Rightarrow> bool" where
  "exact_queue c \<longleftrightarrow> cache_ttl c = 0 \<and> distinct (cache_order c) \<and> set (cache_order c) = fmdom' (cache_map c)"

definition queued_behind :: "string \<Rightarrow> seen \<Rightarrow> nat \<Rightarrow> idempotency_cache \<Rightarrow> bool" where
  "queued_behind key v n c \<longleftrightarrow>
     (\<exists>pre post. cache_order c = pre @ key # post \<and> length post \<le> n) \<and>
     map_option fst (fmlookup (cache_map c) key) = Some v"

lemma evict_exact:
  assumes "distinct ks" "set ks = fmdom' m" "evict cap m ks = (m', ks')"
  shows "distinct ks' \<and> set ks' = fmdom' m' \<and> set ks' \<subseteq> set ks"
  using assms
proof (induction cap m ks rule: evict.induct)
  case (2 cap m k ks)
  show ?case
  proof (cases "cap \<le> map_len m")
    case True
    have "set ks = fmdom' (fmdrop k m)" using 2 by (metis Diff_insert_absorb distinct.simps(2)
      fmdom'_drop list.simps(15))
    from "2.IH"[OF True _ this] have "distinct ks' \<and> set ks' = fmdom' m' \<and> set ks' \<subseteq> set ks"
      using "2.prems"(1,3) True by (metis distinct.simps(2) evict.simps(2))
    then show ?thesis by (metis list.set_intros(2) subset_iff)
  next
    case False
    with "2.prems"(3) have "m' = m" "ks' = k # ks" by simp_all
    with "2.prems"(1,2) show ?thesis by blast
  qed
qed simp

lemma exact_queue_step: "exact_queue c \<Longrightarrow> exact_queue (cache_step c x)"
proof (cases x)
  case (Insert key v now)
  assume ex: "exact_queue c"
  obtain m ks where e: "evict (cache_capacity c) (cache_map c) (cache_order c) = (m, ks)" by fastforce
  from ex have "distinct ks \<and> set ks = fmdom' m \<and> set ks \<subseteq> set (cache_order c)"
    by (intro evict_exact[OF _ _ e]) (simp_all add: exact_queue_def)
  with ex have ks: "distinct ks" "set ks = fmdom' m" "set ks \<subseteq> fmdom' (cache_map c)"
    unfolding exact_queue_def by blast+
  show ?thesis
  proof (cases "key \<in> fmdom' (cache_map c)")
    case True
    with ex show ?thesis by (simp add: Insert exact_queue_def cache_insert_def insert_absorb)
  next
    case False
    then have "key \<notin> set ks" using ks(3) by blast
    with ex ks(1,2) False show ?thesis by (simp add: Insert exact_queue_def cache_insert_def e)
  qed
qed (auto simp: exact_queue_def cache_get_def split: option.splits)

text \<open>Eviction stops before a key with fewer than \<open>cap\<close> keys from it on.\<close>

lemma evict_keeps:
  assumes "distinct (pre @ k # post)" "set (pre @ k # post) = fmdom' m" "Suc (length post) < cap"
    and "evict cap m (pre @ k # post) = (m', ks')"
  shows "(\<exists>pre'. ks' = pre' @ k # post) \<and> fmlookup m' k = fmlookup m k"
  using assms
proof (induction pre arbitrary: m)
  case Nil
  have "map_len m = Suc (length post)"
    using Nil.prems(1,2) distinct_card[of "k # post"] by (simp add: map_len_card)
  with Nil.prems(3,4) show ?case by auto
next
  case (Cons a pre)
  show ?case
  proof (cases "cap \<le> map_len m")
    case True
    have "set (pre @ k # post) = fmdom' (fmdrop a m)" using Cons.prems(1,2) by auto
    from Cons.IH[OF _ this Cons.prems(3)] Cons.prems(1,4) True show ?thesis by auto
  next
    case False
    with Cons.prems(4) show ?thesis by auto
  qed
qed

lemma queued_behind_mono: "queued_behind key v n c \<Longrightarrow> n \<le> m \<Longrightarrow> queued_behind key v m c"
  unfolding queued_behind_def by (blast intro: order_trans)

lemma queued_behind_insert:
  assumes "exact_queue c" "queued_behind key v n c" "Suc n < cache_capacity c" "k \<noteq> key"
  shows "queued_behind key v (Suc n) (cache_insert k w now c)"
proof -
  obtain pre post where o: "cache_order c = pre @ key # post" "length post \<le> n"
    and v: "map_option fst (fmlookup (cache_map c) key) = Some v"
    using assms(2) by (auto simp: queued_behind_def)
  show ?thesis
  proof (cases "contains_key (cache_map c) k")
    case True
    then have "queued_behind key v n (cache_insert k w now c)"
      using assms(2,4) by (simp add: queued_behind_def cache_insert_def)
    then show ?thesis by (rule queued_behind_mono) simp
  next
    case False
    obtain m ks where e: "evict (cache_capacity c) (cache_map c) (pre @ key # post) = (m, ks)" by fastforce
    have "(\<exists>pre'. ks = pre' @ key # post) \<and> fmlookup m key = fmlookup (cache_map c) key"
      using assms(1,3) o by (intro evict_keeps[OF _ _ _ e]) (auto simp: exact_queue_def)
    then obtain pre' where ks: "ks @ [k] = pre' @ key # (post @ [k])"
      and m: "fmlookup m key = fmlookup (cache_map c) key" by auto
    have "cache_order (cache_insert k w now c) = pre' @ key # (post @ [k])"
      using False e ks by (simp add: cache_insert_def o(1))
    moreover have "length (post @ [k]) \<le> Suc n" using o(2) by simp
    moreover have "fmlookup (cache_map (cache_insert k w now c)) key = fmlookup (cache_map c) key"
      using False e m assms(4) by (simp add: cache_insert_def o(1))
    ultimately show ?thesis using v unfolding queued_behind_def by metis
  qed
qed

lemma queued_behind_step:
  assumes "exact_queue c" "queued_behind key v n c" "Suc n < cache_capacity c"
    and "\<And>w now. x \<noteq> Insert key w now"
  shows "queued_behind key v (Suc n) (cache_step c x)"
proof (cases x)
  case (Get k now)
  with assms(1,2) have "queued_behind key v n (cache_step c x)"
    by (auto simp: exact_queue_def cache_get_def queued_behind_def split: option.splits)
  then show ?thesis by (rule queued_behind_mono) simp
next
  case (Insert k w now)
  then show ?thesis using assms by (auto intro: queued_behind_insert)
qed

lemma cache_step_frame [simp]: "cache_capacity (cache_step c x) = cache_capacity c"
  by (cases x) simp_all

lemma queued_behind_replay:
  assumes "exact_queue c" "queued_behind key v n c" "n + length ops < cache_capacity c"
    and "\<forall>w now. Insert key w now \<notin> set ops"
  shows "queued_behind key v (n + length ops) (replay cache_step c ops) \<and> exact_queue (replay cache_step c ops)"
  using assms
proof (induction ops arbitrary: c n)
  case (Cons x ops)
  have "queued_behind key v (Suc n) (cache_step c x)"
    using Cons.prems by (intro queued_behind_step) auto
  then show ?case using Cons.IH[of "cache_step c x" "Suc n"] Cons.prems exact_queue_step[OF Cons.prems(1)] by simp
qed simp


definition stale_script :: "cache_op list" where
  "stale_script = [Insert ''a'' (Seen_cursor 1) 0, Insert ''b'' (Seen_cursor 2) 1, Get ''a'' 20,
    Insert ''a'' (Seen_cursor 3) 20, Insert ''c'' (Seen_cursor 4) 20]"

section \<open>Properties\<close>

text \<open>The cache is bounded: after any script of lookups and insertions the map holds at most the
  capacity it was created with (at least one), and every live key is queued for eviction.\<close>

theorem cache_stays_bounded:
  "cache_len (replay cache_step (new_cache capacity ttl) ops) \<le> max capacity 1 \<and>
   fmdom' (cache_map (replay cache_step (new_cache capacity ttl) ops)) \<subseteq>
     set (cache_order (replay cache_step (new_cache capacity ttl) ops))"
proof -
  let ?c = "replay cache_step (new_cache capacity ttl) ops"
  have "admissible_run cache_step (\<lambda>_ _. True) c ops" for c by (induction ops arbitrary: c) auto
  then have "cache_inv ?c" by (rule dedup_cache.replay_inv[OF new_cache_inv])
  moreover have "cache_capacity (replay cache_step c ops) = cache_capacity c" for c
    by (induction ops arbitrary: c) simp_all
  ultimately show ?thesis by (simp add: cache_inv_def bounded_def cache_len_def new_cache_def)
qed

text \<open>A recorded outcome is found again within the time limit, and looking it up changes
  nothing; past the time limit it is absent.\<close>

theorem cache_get_recorded:
  "cache_get key now (cache_insert key v at c) =
     (if cache_ttl c = 0 \<or> unat now - unat at \<le> unat (cache_ttl c)
      then (cache_insert key v at c, Some v)
      else ((cache_insert key v at c)\<lparr>cache_map := fmdrop key (cache_map (cache_insert key v at c))\<rparr>, None))"
  by (simp add: cache_get_def word_less_nat_alt unat_sat_sub not_less)

text \<open>First in, first out: without a time limit, a recorded outcome survives every script of lookups
  and of insertions under other keys that is shorter than the capacity.\<close>

theorem cache_retains_recent:
  assumes "exact_queue c" "\<not> contains_key (cache_map c) key"
    and "length ops < cache_capacity c" "\<forall>w now. Insert key w now \<notin> set ops"
  shows "snd (cache_get key now (replay cache_step (cache_insert key v at c) ops)) = Some v"
proof -
  let ?c = "cache_insert key v at c"
  have "exact_queue ?c" using exact_queue_step[OF assms(1), of "Insert key v at"] by simp
  moreover have "queued_behind key v 0 ?c"
    using assms(2) by (auto simp: queued_behind_def cache_insert_def split: prod.splits)
  ultimately have "queued_behind key v (length ops) (replay cache_step ?c ops) \<and> exact_queue (replay cache_step ?c ops)"
    using queued_behind_replay[of ?c key v 0 ops] assms(3,4) by simp
  then show ?thesis
    by (auto simp: queued_behind_def exact_queue_def cache_get_def split: option.splits)
qed

lemma cache_retains_recent_witness:
  "snd (cache_get ''a'' 9 (replay cache_step (cache_insert ''a'' Seen_handled 1 (new_cache 2 0))
     [Insert ''b'' Seen_handled 2])) = Some Seen_handled"
  by (rule cache_retains_recent) (simp_all add: exact_queue_def new_cache_def)

text \<open>An expired key that is recorded again can be evicted before older entries: its stale place in
  the queue still counts.  Here \<open>a\<close> was recorded again at time 20, \<open>b\<close> at time 1; recording \<open>c\<close>
  forgets \<open>a\<close>, so a retry of \<open>a\<close> one second later is not recognised.\<close>

theorem stale_place_evicts_fresh_key:
  "snd (cache_get ''a'' 21 (replay cache_step (new_cache 2 10) stale_script)) = None \<and>
   ''b'' \<in> fmdom' (cache_map (replay cache_step (new_cache 2 10) stale_script))"
  by (simp add: stale_script_def new_cache_def cache_insert_def cache_get_def sat_sub_def map_len_upd
      map_len_drop fmdrop_fmupd word_le_nat_alt word_less_nat_alt)

text \<open>The queue is not bounded by the capacity: a key that is looked up after it expired and recorded
  again leaves one queue entry per round, although the cache holds one key.\<close>

theorem queue_grows_without_bound:
  assumes "fmdom' (cache_map c) = {''a''}" "1 < cache_capacity c" "cache_ttl c \<noteq> 0"
    and "\<forall>v at. fmlookup (cache_map c) ''a'' = Some (v, at) \<longrightarrow> cache_ttl c < sat_sub now at"
  shows "cache_order (replay cache_step c [Get ''a'' now, Insert ''a'' w now]) = cache_order c @ [''a'']"
    and "fmdom' (cache_map (replay cache_step c [Get ''a'' now, Insert ''a'' w now])) = {''a''}"
proof -
  obtain v at where a: "fmlookup (cache_map c) ''a'' = Some (v, at)"
    using assms(1) by (metis fmlookup_dom'_iff prod.exhaust singletonI)
  have "map_len (fmdrop ''a'' (cache_map c)) = 0"
    using assms(1) by (simp add: map_len_card)
  then have "evict (cache_capacity c) (fmdrop ''a'' (cache_map c)) ks = (fmdrop ''a'' (cache_map c), ks)" for ks
    using assms(2) by (cases ks) simp_all
  then show "cache_order (replay cache_step c [Get ''a'' now, Insert ''a'' w now]) = cache_order c @ [''a'']"
    "fmdom' (cache_map (replay cache_step c [Get ''a'' now, Insert ''a'' w now])) = {''a''}"
    using a assms by (simp_all add: cache_get_def cache_insert_def)
qed

lemma queue_grows_without_bound_witness:
  "cache_order (replay cache_step (cache_insert ''a'' Seen_handled 0 (new_cache 2 10))
     [Get ''a'' 20, Insert ''a'' Seen_handled 20]) = [''a'', ''a'']"
  using queue_grows_without_bound(1)[of "cache_insert ''a'' Seen_handled 0 (new_cache 2 10)" 20 Seen_handled]
  by (simp add: cache_insert_def new_cache_def sat_sub_def word_less_nat_alt)

text \<open>A control token is handled once: a token recorded now is reported as seen, without any change,
  for as long as it is live, and the set stays within its capacity.\<close>

theorem token_seen_once:
  assumes "token_inv t" "token_ttl t = 0 \<or> unat now' - unat now \<le> unat (token_ttl t)"
    and "\<not> snd (token_seen k now t)"
  shows "token_seen k now' (fst (token_seen k now t)) = (fst (token_seen k now t), True)"
    and "token_len (fst (token_seen k now t)) \<le> token_capacity t"
proof -
  have cap: "token_capacity (fst (token_seen k now t)) = token_capacity t"
    by (simp add: token_seen_def Let_def split: prod.splits)
  show "token_len (fst (token_seen k now t)) \<le> token_capacity t"
    using token_seen_inv[OF assms(1), of k now] by (simp add: token_inv_def bounded_def token_len_def cap)
  show "token_seen k now' (fst (token_seen k now t)) = (fst (token_seen k now t), True)"
    using assms(2,3) by (rule token_seen_again)
qed

lemma token_seen_once_witness:
  "snd (token_seen 7 150 (fst (token_seen 7 100 (new_token_set 16384 3600))))"
  using token_seen_once(1)[OF new_token_inv, of 16384 3600 150 100 7]
  by (simp add: token_seen_def new_token_set_def)

end
