(* ===== verification/Caps.thy ===== *)
theory Caps
  imports Attr_Filter "HOL-Library.Countable"
begin

text \<open>
  Capability links, \<open>src/src/caps.rs\<close>.  Chains, their signatures and their check belong to
  \<open>ce-iam-core\<close> and identities to \<open>ce-identity\<close>, which are not part of the repository: they are the
  record parameter \<open>iam\<close>, over a type of identities and a type of signed capabilities.
\<close>

section \<open>The capability library, as a parameter\<close>

text \<open>The two caveats the code sets; the others keep their default.\<close>

record caveats =
  not_after :: u64
  path_prefix :: "string option"

record ('i, 'c) iam =
  identity_node_id :: "'i \<Rightarrow> node_id"
  issue_cap :: "'i \<Rightarrow> node_id \<Rightarrow> string list \<Rightarrow> node_id \<Rightarrow> caveats \<Rightarrow> u64 \<Rightarrow> 'c"
  cap_abilities :: "'c \<Rightarrow> string list"
  cap_path_prefix :: "'c \<Rightarrow> string option"
  encode_chain :: "'c list \<Rightarrow> string"
  decode_chain :: "string \<Rightarrow> error + 'c list"
  authorize_chain :: "node_id \<Rightarrow> node_id list \<Rightarrow> string list \<Rightarrow> u64 \<Rightarrow> node_id \<Rightarrow> string \<Rightarrow> 'c list \<Rightarrow>
    (node_id \<Rightarrow> u64 \<Rightarrow> bool) \<Rightarrow> error + unit"

text \<open>Decoding inverts encoding, and an issued capability carries what it was issued with.\<close>

definition iam_contract :: "('i, 'c) iam \<Rightarrow> bool" where
  "iam_contract lib \<longleftrightarrow>
     (\<forall>ch. decode_chain lib (encode_chain lib ch) = Inr ch) \<and>
     (\<forall>i aud ab res cv n. cap_abilities lib (issue_cap lib i aud ab res cv n) = ab \<and>
        cap_path_prefix lib (issue_cap lib i aud ab res cv n) = path_prefix cv)"

section \<open>The code\<close>

definition ABILITY_PUBLISH :: string where "ABILITY_PUBLISH = ''pubsub:publish''"
definition ABILITY_SUBSCRIBE :: string where "ABILITY_SUBSCRIBE = ''pubsub:subscribe''"

definition topic_allows :: "string \<Rightarrow> string \<Rightarrow> bool" where
  "topic_allows scope_topic topic = starts_with topic scope_topic"

definition mint_link ::
  "('i, 'c) iam \<Rightarrow> 'i \<Rightarrow> node_id \<Rightarrow> string \<Rightarrow> string \<Rightarrow> u64 \<Rightarrow> u64 \<Rightarrow> error + string" where
  "mint_link lib owner audience ability scope_topic expiry nonce =
     (let cv = \<lparr>not_after = expiry, path_prefix = Some scope_topic\<rparr>;
          cap = issue_cap lib owner audience [ability] (identity_node_id lib owner) cv nonce in
      Inr (encode_chain lib [cap]))"

definition inspect_link :: "('i, 'c) iam \<Rightarrow> string \<Rightarrow> error + string list \<times> string" where
  "inspect_link lib token =
     and_then (map_err (Context ''decoding capability link'') (decode_chain lib token)) (\<lambda>chain.
       if chain = [] then Inl Empty_chain
       else
         let leaf = last chain;
             scope = (case cap_path_prefix lib leaf of Some s \<Rightarrow> s | None \<Rightarrow> []) in
         Inr (cap_abilities lib leaf, scope))"

definition verify_link ::
  "('i, 'c) iam \<Rightarrow> node_id \<Rightarrow> node_id list \<Rightarrow> string list \<Rightarrow> u64 \<Rightarrow> node_id \<Rightarrow> string \<Rightarrow> string \<Rightarrow> string \<Rightarrow>
    (node_id \<Rightarrow> u64 \<Rightarrow> bool) \<Rightarrow> error + unit" where
  "verify_link lib self_id accepted_roots self_tags now requester ability topic token is_revoked =
     and_then (decode_chain lib token) (\<lambda>chain.
     and_then (authorize_chain lib self_id accepted_roots self_tags now requester ability chain is_revoked) (\<lambda>_.
       if chain = [] then Inl Empty_chain
       else
         case cap_path_prefix lib (last chain) of
           None \<Rightarrow> Inl No_topic_scope
         | Some scope \<Rightarrow>
             if \<not> topic_allows scope topic then Inl (Scope_mismatch scope topic) else Inr ()))"

lemma verify_link_Inr:
  "verify_link lib self rs tags now requester ability topic token revoked = Inr u \<longleftrightarrow>
     (\<exists>chain scope. decode_chain lib token = Inr chain \<and> chain \<noteq> [] \<and>
        authorize_chain lib self rs tags now requester ability chain revoked = Inr () \<and>
        cap_path_prefix lib (last chain) = Some scope \<and> topic_allows scope topic)"
  by (auto simp: verify_link_def result_simps split: option.splits if_splits)

lemma topic_allows_iff: "topic_allows scope topic \<longleftrightarrow> (\<exists>rest. topic = scope @ rest)"
  unfolding topic_allows_def starts_with_def
  by (metis append_eq_conv_conj append_take_drop_id)

section \<open>A small capability library\<close>

text \<open>
  An instance for the witnesses: a capability is its audience, abilities and scope, a token is its
  chain counted off in letters, and a chain is good for the audience of its last link.
\<close>

definition plain_iam :: "(node_id, nat list \<times> string list \<times> string option) iam" where
  "plain_iam = \<lparr>identity_node_id = id,
     issue_cap = \<lambda>i aud ab res cv n. (map unat aud, ab, path_prefix cv),
     cap_abilities = \<lambda>c. fst (snd c), cap_path_prefix = \<lambda>c. snd (snd c),
     encode_chain = \<lambda>ch. replicate (to_nat ch) (CHR ''x''),
     decode_chain = \<lambda>s. Inr (from_nat (length s)),
     authorize_chain = \<lambda>self rs tags now requester ability chain revoked.
       if chain \<noteq> [] \<and> fst (last chain) = map unat requester \<and> ability \<in> set (fst (snd (last chain)))
       then Inr () else Inl (External ''denied'')\<rparr>"

lemma plain_iam_contract: "iam_contract plain_iam"
  by (simp add: iam_contract_def plain_iam_def)

section \<open>Properties\<close>

text \<open>A presented link is accepted exactly if it decodes, the chain check of the capability library
  accepts it for the requester and the ability, its last link names a topic scope, and the topic
  starts with that scope.\<close>

theorem verify_link_exact:
  "(verify_link lib self rs tags now requester ability topic token revoked = Inr ()) =
     (\<exists>chain scope rest. decode_chain lib token = Inr chain \<and> chain \<noteq> [] \<and>
        authorize_chain lib self rs tags now requester ability chain revoked = Inr () \<and>
        cap_path_prefix lib (last chain) = Some scope \<and> topic = scope @ rest)"
  by (auto simp: verify_link_Inr topic_allows_iff)

text \<open>A minted link means what it was minted for: inspecting it returns its ability and its scope, and
  it is accepted exactly for the topics under the scope for which the chain check accepts it.\<close>

theorem minted_link:
  assumes "iam_contract lib" "mint_link lib owner audience ability scope expiry nonce = Inr token"
  shows "inspect_link lib token = Inr ([ability], scope) \<and>
    (\<exists>cap. decode_chain lib token = Inr [cap] \<and>
      (verify_link lib self rs tags now requester ability' topic token revoked = Inr ()) =
        (authorize_chain lib self rs tags now requester ability' [cap] revoked = Inr () \<and> topic_allows scope topic))"
  using assms
  by (auto simp: mint_link_def Let_def inspect_link_def iam_contract_def verify_link_Inr)

lemma minted_link_witness:
  "\<exists>token. mint_link plain_iam [1] [2] ABILITY_PUBLISH ''orders'' 0 7 = Inr token \<and>
     inspect_link plain_iam token = Inr ([ABILITY_PUBLISH], ''orders'')"
proof -
  obtain token where "mint_link plain_iam [1] [2] ABILITY_PUBLISH ''orders'' 0 7 = Inr token"
    by (simp add: mint_link_def)
  with minted_link[OF plain_iam_contract this] show ?thesis by blast
qed

end
