(* ===== verification/Owner.thy ===== *)
theory Owner
  imports Topic_Log Registry Dedup Protocol Caps
begin

text \<open>
  The owner of a topic, \<open>Topic\<close> of \<open>src/src/lib.rs\<close>: its state and the handlers that its two workers
  run for each request, with the owner's own calls.  What a handler asks of code outside the
  repository is answered by the record parameter \<open>world\<close>, one for each call; messages handed to the
  live stream and to the dead-letter stream are recorded in the state.
\<close>

section \<open>The world around a call\<close>

record ('i, 'c) world =
  hexlib :: hex_codec
  json :: json_codec
  iamlib :: "('i, 'c) iam"
  log_propose :: "topic_log \<Rightarrow> log_op \<Rightarrow> topic_log \<times> (error + unit)"
  subs_propose :: "sub_registry \<Rightarrow> sub_op \<Rightarrow> sub_registry \<times> (error + unit)"
  live_publish :: "message \<Rightarrow> error + unit"
  revoked_set :: "error + (string \<times> u64) list"
  dlq_open :: "string \<Rightarrow> error + unit"
  dlq_publish :: "string \<Rightarrow> message \<Rightarrow> error + unit"

text \<open>
  A writer that reports success has applied the operation; one that reports an error has applied it
  or left the state alone.
\<close>

definition propose_contract :: "('s \<Rightarrow> 'o \<Rightarrow> 's) \<Rightarrow> ('s \<Rightarrow> 'o \<Rightarrow> 's \<times> (error + unit)) \<Rightarrow> bool" where
  "propose_contract app propose \<longleftrightarrow>
     (\<forall>s x s' e. propose s x = (s', Inr e) \<longrightarrow> s' = app s x) \<and>
     (\<forall>s x s' e. propose s x = (s', Inl e) \<longrightarrow> s' = s \<or> s' = app s x)"

definition world_ok :: "('i, 'c) world \<Rightarrow> bool" where
  "world_ok W \<longleftrightarrow> hex_contract (hexlib W) \<and> propose_contract apply_log (log_propose W) \<and>
     propose_contract apply_sub (subs_propose W)"

lemma propose_contractD:
  assumes "propose_contract app propose" "propose s x = (s', r)"
  shows "is_ok r \<Longrightarrow> s' = app s x" and "s' = s \<or> s' = app s x"
  using assms by (cases r; auto simp: propose_contract_def)+

section \<open>State\<close>

definition DEDUP_CAPACITY :: nat where "DEDUP_CAPACITY = 16384"
definition DEDUP_TTL_SECS :: u64 where "DEDUP_TTL_SECS = 3600"

record owner =
  own_id :: string
  topic_name :: string
  writer :: topic_log
  own_subs :: sub_registry
  live_out :: "message list"
  dlq_out :: "(string \<times> message) list"
  accepted_roots :: "node_id list"
  require_cap :: bool
  shutdown :: bool
  dedup :: idempotency_cache

text \<open>What opening the two logs and the live stream answers.\<close>

definition create_topic ::
  "string \<Rightarrow> (string \<Rightarrow> error + topic_log) \<Rightarrow> (string \<Rightarrow> error + sub_registry) \<Rightarrow> (string \<Rightarrow> error + unit) \<Rightarrow>
    string \<Rightarrow> error + owner" where
  "create_topic node open_log open_subs open_stream tp =
     and_then (validate_topic tp) (\<lambda>_.
     and_then (map_err (Context ''opening durable topic log as writer'') (open_log (log_name tp))) (\<lambda>w.
     and_then (map_err (Context ''opening subscription registry as writer'') (open_subs (subs_log_name tp))) (\<lambda>r.
     and_then (map_err (Context ''opening live broadcast stream'') (open_stream (live_stream_name tp node))) (\<lambda>_.
       Inr \<lparr>own_id = node, topic_name = tp, writer = w, own_subs = r, live_out = [], dlq_out = [],
         accepted_roots = [], require_cap = False, shutdown = False,
         dedup = new_cache DEDUP_CAPACITY DEDUP_TTL_SECS\<rparr>))))"

definition owner_high_cursor :: "owner \<Rightarrow> cursor" where
  "owner_high_cursor own = high_cursor (writer own)"

definition owner_retained :: "owner \<Rightarrow> nat" where
  "owner_retained own = log_len (writer own)"

definition subscription_names :: "owner \<Rightarrow> string list" where
  "subscription_names own = reg_names (own_subs own)"

definition require_publish_cap :: "owner \<Rightarrow> bool \<Rightarrow> owner" where
  "require_publish_cap own yes = own\<lparr>require_cap := yes\<rparr>"

section \<open>Authorization\<close>

definition parse_node_id :: "hex_codec \<Rightarrow> string \<Rightarrow> error + node_id" where
  "parse_node_id hx s =
     and_then (map_err (Context ''node id is not valid hex'') (hex_decode hx (trim s)))
       (\<lambda>bs. if length bs = 32 then Inr bs else Inl Node_id_length)"

definition accept_root :: "hex_codec \<Rightarrow> owner \<Rightarrow> string \<Rightarrow> error + owner" where
  "accept_root hx own root =
     and_then (parse_node_id hx root) (\<lambda>i.
       Inr (if i \<in> set (accepted_roots own) then own
            else own\<lparr>accepted_roots := accepted_roots own @ [i]\<rparr>))"

definition fetch_revoked :: "('i, 'c) world \<Rightarrow> error + (node_id \<times> u64) list" where
  "fetch_revoked W =
     and_then (map_err (Context ''querying on-chain revocation set'') (revoked_set W)) (\<lambda>entries.
       Inr (List.map_filter (\<lambda>(issuer_hex, nonce).
         case parse_node_id (hexlib W) issuer_hex of Inr i \<Rightarrow> Some (i, nonce) | Inl _ \<Rightarrow> None) entries))"

definition authorize ::
  "('i, 'c) world \<Rightarrow> owner \<Rightarrow> string \<Rightarrow> string \<Rightarrow> string \<Rightarrow> u64 \<Rightarrow> error + unit" where
  "authorize W own requester_hex ability token now =
     and_then (map_err (Wrapped ''bad publisher node id'') (parse_node_id (hexlib W) requester_hex)) (\<lambda>requester.
     and_then (map_err (Wrapped ''bad owner node id'') (parse_node_id (hexlib W) (own_id own))) (\<lambda>self_id.
     and_then (map_err (Wrapped ''cannot verify revocation (fail-closed)'') (fetch_revoked W)) (\<lambda>revoked.
       verify_link (iamlib W) self_id (accepted_roots own) [] now requester ability (topic_name own) token
         (\<lambda>issuer nonce. (issuer, nonce) \<in> set revoked))))"

section \<open>Publishing\<close>

definition append_and_fanout :: "('i, 'c) world \<Rightarrow> owner \<Rightarrow> message \<Rightarrow> owner \<times> (error + cursor)" where
  "append_and_fanout W own msg =
     (let c = next_cursor (writer own);
          m = msg\<lparr>msg_cursor := c\<rparr>;
          (w, res) = log_propose W (writer own) (Append m);
          own1 = own\<lparr>writer := w\<rparr> in
      case res of
        Inl e \<Rightarrow> (own1, Inl (Context ''durable append'' e))
      | Inr _ \<Rightarrow>
          (case live_publish W m of
             Inl _ \<Rightarrow> own1
           | Inr _ \<Rightarrow> own1\<lparr>live_out := live_out own1 @ [m]\<rparr>,
           Inr c))"

definition publish :: "('i, 'c) world \<Rightarrow> owner \<Rightarrow> bytes \<Rightarrow> u64 \<Rightarrow> owner \<times> (error + cursor)" where
  "publish W own payload now =
     (case validate_payload payload of
        Inl e \<Rightarrow> (own, Inl e)
      | Inr _ \<Rightarrow> append_and_fanout W own (authenticated (new_message (hexlib W) 0 (own_id own) payload now) True))"

definition publish_with ::
  "('i, 'c) world \<Rightarrow> owner \<Rightarrow> bytes \<Rightarrow> publish_options \<Rightarrow> u64 \<Rightarrow> owner \<times> (error + cursor)" where
  "publish_with W own payload opts now =
     (case and_then (validate_payload payload) (\<lambda>_. options_validate opts) of
        Inl e \<Rightarrow> (own, Inl e)
      | Inr _ \<Rightarrow>
          let msg = authenticated (new_message (hexlib W) 0 (own_id own) payload now) True in
          append_and_fanout W own
            (msg\<lparr>ordering_key := opt_ordering_key opts, attributes := opt_attributes opts\<rparr>))"

definition prune_to :: "('i, 'c) world \<Rightarrow> owner \<Rightarrow> cursor \<Rightarrow> owner \<times> (error + unit)" where
  "prune_to W own up_to =
     (let (w, res) = log_propose W (writer own) (PruneTo up_to) in
      (own\<lparr>writer := w\<rparr>, map_err (Context ''prune'') res))"

section \<open>The ingest path\<close>

text \<open>\<open>Display\<close> of an unsigned integer.\<close>

fun decimal :: "nat \<Rightarrow> string" where
  "decimal n = (if n < 10 then [] else decimal (n div 10)) @ [char_of (48 + n mod 10)]"

declare decimal.simps [simp del]

lemma decimal_inject: "decimal n = decimal m \<longleftrightarrow> n = m"
proof (induction n arbitrary: m rule: decimal.induct)
  case (1 n)
  have digit: "char_of (48 + i mod 10) = (char_of (48 + j mod 10) :: char) \<longleftrightarrow> i mod 10 = j mod 10" for i j :: nat
    by (auto dest!: arg_cong[of _ _ "of_char :: char \<Rightarrow> nat"])
  have ne: "decimal i \<noteq> []" for i by (subst decimal.simps) simp
  show ?case
  proof
    assume eq: "decimal n = decimal m"
    then have mods: "n mod 10 = m mod 10"
      and front: "(if n < 10 then [] else decimal (n div 10)) = (if m < 10 then [] else decimal (m div 10))"
      unfolding decimal.simps[of n] decimal.simps[of m] append1_eq_conv digit by blast+
    show "n = m"
    proof (cases "n < 10")
      case True
      with front have "m < 10" using ne[of "m div 10"] by (simp split: if_splits)
      with True mods show ?thesis by simp
    next
      case False
      with front have "\<not> m < 10" "decimal (n div 10) = decimal (m div 10)"
        using ne[of "n div 10"] by (simp_all split: if_splits)
      then have "n div 10 = m div 10" using "1"[OF False] by simp
      with mods show ?thesis by (metis div_mult_mod_eq)
    qed
  qed simp
qed

definition dedup_key :: "u64 \<Rightarrow> ingest_request \<Rightarrow> string" where
  "dedup_key token req =
     (case req_idempotency_key req of Some k \<Rightarrow> k | None \<Rightarrow> ''tok:'' @ decimal (unat token))"

text \<open>The grant check of \<open>apply_ingest\<close>; it answers whether the publisher was authenticated.\<close>

definition ingest_gate ::
  "('i, 'c) world \<Rightarrow> owner \<Rightarrow> ingest_request \<Rightarrow> string \<Rightarrow> u64 \<Rightarrow> error + bool" where
  "ingest_gate W own req from now =
     (if require_cap own then
        case req_grant req of
          None \<Rightarrow> Inl No_publish_grant
        | Some token \<Rightarrow> and_then (authorize W own from ABILITY_PUBLISH token now) (\<lambda>_. Inr True)
      else Inr False)"

text \<open>The checks on the request, up to the message that is to be appended.\<close>

definition ingest_message ::
  "('i, 'c) world \<Rightarrow> owner \<Rightarrow> ingest_request \<Rightarrow> string \<Rightarrow> u64 \<Rightarrow> error + message" where
  "ingest_message W own req from now =
     and_then (ingest_gate W own req from now) (\<lambda>auth.
     and_then (validate_ordering_key (req_ordering_key req)) (\<lambda>_.
     and_then (validate_attributes (req_attributes req)) (\<lambda>_.
     and_then (map_err (Wrapped ''bad payload hex'') (hex_decode (hexlib W) (req_payload_hex req))) (\<lambda>payload.
     and_then (validate_payload payload) (\<lambda>_.
       Inr ((authenticated (new_message (hexlib W) 0 from payload now) auth)
         \<lparr>ordering_key := req_ordering_key req, attributes := req_attributes req\<rparr>))))))"

definition apply_ingest ::
  "('i, 'c) world \<Rightarrow> owner \<Rightarrow> ingest_request \<Rightarrow> string \<Rightarrow> u64 \<Rightarrow> owner \<times> (error + cursor)" where
  "apply_ingest W own req from now =
     (case ingest_message W own req from now of
        Inl e \<Rightarrow> (own, Inl e)
      | Inr msg \<Rightarrow>
          let (own1, res) = append_and_fanout W own msg in
          (own1, map_err (Wrapped ''append failed'') res))"

definition handle_ingest ::
  "('i, 'c) world \<Rightarrow> owner \<Rightarrow> u64 \<Rightarrow> string \<Rightarrow> string \<Rightarrow> u64 \<Rightarrow> owner \<times> ingest_reply option" where
  "handle_ingest W own token payload from now =
     (case ingest_decode_hex (hexlib W) (json W) payload of
        Inl e \<Rightarrow> (own, Some (Ingest_rejected (Wrapped ''bad request'' e)))
      | Inr req \<Rightarrow>
          let key = dedup_key token req; (cache, found) = cache_get key now (dedup own);
              own1 = own\<lparr>dedup := cache\<rparr> in
          case found of
            Some (Seen_cursor c) \<Rightarrow> (own1, Some (Accepted c))
          | Some Seen_handled \<Rightarrow> (own1, Some (Ingest_rejected Duplicate_request))
          | None \<Rightarrow>
              let (own2, outcome) = apply_ingest W own1 req from now;
                  seen = (case outcome of Inr c \<Rightarrow> Seen_cursor c | Inl _ \<Rightarrow> Seen_handled);
                  own3 = own2\<lparr>dedup := cache_insert key seen now (dedup own2)\<rparr> in
              (own3, Some (case outcome of Inr c \<Rightarrow> Accepted c | Inl why \<Rightarrow> Ingest_rejected why)))"

section \<open>The control path\<close>

definition route_dead_letters :: "('i, 'c) world \<Rightarrow> owner \<Rightarrow> cursor list \<Rightarrow> owner" where
  "route_dead_letters W own cursors =
     (let dlq_live_name = live_stream_name (dead_letter_topic (topic_name own)) (own_id own) in
      case dlq_open W dlq_live_name of
        Inl _ \<Rightarrow> own
      | Inr _ \<Rightarrow>
          own\<lparr>dlq_out := dlq_out own @ map (Pair dlq_live_name)
            (filter (\<lambda>m. is_ok (dlq_publish W dlq_live_name m)) (List.map_filter (log_get (writer own)) cursors))\<rparr>)"

definition handle_lease ::
  "('i, 'c) world \<Rightarrow> owner \<Rightarrow> string \<Rightarrow> usize \<Rightarrow> u64 \<Rightarrow> (owner \<times> control_reply) option" where
  "handle_lease W own name max_messages now =
     (if reg_get (own_subs own) name = None
      then Some (own, Control_rejected (No_such_subscription name))
      else
        let high = high_cursor (writer own); fl = log_floor (writer own) in
        case plan_lease (own_subs own) name high fl now max_messages of
          None \<Rightarrow> None
        | Some None \<Rightarrow> Some (own, Pulled [])
        | Some (Some (x, outcome)) \<Rightarrow>
            let (r, res) = subs_propose W (own_subs own) x; own1 = own\<lparr>own_subs := r\<rparr> in
            case res of
              Inl e \<Rightarrow> Some (own1, Control_rejected (Wrapped ''lease failed'' e))
            | Inr _ \<Rightarrow>
                let own2 = (if dead_lettered outcome \<noteq> []
                            then route_dead_letters W own1 (dead_lettered outcome) else own1) in
                Some (own2, Pulled (List.map_filter (\<lambda>(c, attempt).
                  map_option (\<lambda>m. \<lparr>leased_msg = m, delivery_attempt = attempt\<rparr>) (log_get (writer own2) c))
                  (leased outcome))))"

text \<open>\<open>match self.inner.subs.propose(op).await\<close> with \<open>Ok\<close> as the reply to success.\<close>

definition propose_sub :: "('i, 'c) world \<Rightarrow> owner \<Rightarrow> string \<Rightarrow> sub_op \<Rightarrow> owner \<times> control_reply" where
  "propose_sub W own failed x =
     (let (r, res) = subs_propose W (own_subs own) x in
      (own\<lparr>own_subs := r\<rparr>,
       case res of Inr _ \<Rightarrow> Control_ok | Inl e \<Rightarrow> Control_rejected (Wrapped failed e)))"

definition control_gate ::
  "('i, 'c) world \<Rightarrow> owner \<Rightarrow> control_request \<Rightarrow> string \<Rightarrow> u64 \<Rightarrow> error + unit" where
  "control_gate W own req requester now =
     (if require_cap own then
        case request_grant req of
          None \<Rightarrow> Inl No_subscribe_grant
        | Some token \<Rightarrow> authorize W own requester ABILITY_SUBSCRIBE token now
      else Inr ())"

text \<open>The \<open>match\<close> on the request, once it is authorized.\<close>

fun serve_request ::
  "('i, 'c) world \<Rightarrow> owner \<Rightarrow> control_request \<Rightarrow> u64 \<Rightarrow> (owner \<times> control_reply) option" where
  "serve_request W own (HighCursor _) now = Some (own, High (high_cursor (writer own)))"
| "serve_request W own (CreateSubscription name p _) now =
     (case policy_validate p of
        Inl e \<Rightarrow> Some (own, Control_rejected (Wrapped ''invalid policy'' e))
      | Inr _ \<Rightarrow>
          (case validate_topic name of
             Inl e \<Rightarrow> Some (own, Control_rejected (Wrapped ''invalid subscription name'' e))
           | Inr _ \<Rightarrow>
               if at_capacity (own_subs own) name then Some (own, Control_rejected Subscription_limit)
               else Some (propose_sub W own ''create failed'' (Create name p))))"
| "serve_request W own (DeleteSubscription name _) now =
     Some (propose_sub W own ''delete failed'' (Delete name))"
| "serve_request W own (ListSubscriptions _) now = Some (own, Subscriptions (reg_names (own_subs own)))"
| "serve_request W own (Pull name mx _) now = handle_lease W own name mx now"
| "serve_request W own (AckCursor name c _) now =
     (if reg_get (own_subs own) name = None then Some (own, Control_rejected (No_such_subscription name))
      else Some (propose_sub W own ''ack failed'' (Ack name c)))"
| "serve_request W own (NackCursor name c _) now =
     (if reg_get (own_subs own) name = None then Some (own, Control_rejected (No_such_subscription name))
      else Some (propose_sub W own ''nack failed'' (Nack name c)))"

definition is_high_cursor :: "control_request \<Rightarrow> bool" where
  "is_high_cursor req \<longleftrightarrow> (case req of HighCursor _ \<Rightarrow> True | _ \<Rightarrow> False)"

definition handle_control ::
  "('i, 'c) world \<Rightarrow> owner \<Rightarrow> string \<Rightarrow> string \<Rightarrow> u64 \<Rightarrow> (owner \<times> control_reply) option" where
  "handle_control W own payload requester now =
     (case hex_decode (hexlib W) payload of
        Inl e \<Rightarrow> Some (own, Control_rejected (Wrapped ''bad request hex'' e))
      | Inr bs \<Rightarrow>
          (case control_decode (json W) bs of
             Inl e \<Rightarrow> Some (own, Control_rejected (Wrapped ''bad request body'' e))
           | Inr req \<Rightarrow>
               if is_high_cursor req then Some (own, High (high_cursor (writer own)))
               else
                 (case control_gate W own req requester now of
                    Inl why \<Rightarrow> Some (own, Control_rejected why)
                  | Inr _ \<Rightarrow> serve_request W own req now)))"

section \<open>The workers\<close>

text \<open>What the body of each polling loop does with one message of the node's inbox.\<close>

record app_message =
  am_topic :: string
  am_reply_token :: "u64 option"
  am_payload_hex :: string
  am_from :: string

definition serve_ingest_message ::
  "('i, 'c) world \<Rightarrow> owner \<Rightarrow> app_message \<Rightarrow> u64 \<Rightarrow> owner \<times> (u64 \<times> bytes) option" where
  "serve_ingest_message W own m now =
     (if am_topic m \<noteq> ingest_topic (topic_name own) then (own, None)
      else
        case am_reply_token m of
          None \<Rightarrow> (own, None)
        | Some token \<Rightarrow>
            let (own1, reply) = handle_ingest W own token (am_payload_hex m) (am_from m) now in
            (own1, case reply of
               None \<Rightarrow> None
             | Some r \<Rightarrow> (case ingest_reply_encode (json W) r of Inr bs \<Rightarrow> Some (token, bs) | Inl _ \<Rightarrow> None)))"

definition serve_control_message ::
  "('i, 'c) world \<Rightarrow> owner \<times> token_set \<Rightarrow> app_message \<Rightarrow> u64 \<Rightarrow>
    ((owner \<times> token_set) \<times> (u64 \<times> bytes) option) option" where
  "serve_control_message W st m now =
     (let (own, hs) = st in
      if am_topic m \<noteq> control_topic (topic_name own) then Some (st, None)
      else
        case am_reply_token m of
          None \<Rightarrow> Some (st, None)
        | Some token \<Rightarrow>
            let (hs1, again) = token_seen token now hs in
            if again then Some ((own, hs1), None)
            else
              (case handle_control W own (am_payload_hex m) (am_from m) now of
                 None \<Rightarrow> None
               | Some (own1, reply) \<Rightarrow>
                   Some ((own1, hs1),
                     case control_reply_encode (json W) reply of Inr bs \<Rightarrow> Some (token, bs) | Inl _ \<Rightarrow> None)))"

end
