(* ===== verification/Cli.thy ===== *)
theory Cli
  imports Display Client Owner
begin

text \<open>
  The command line, \<open>src/src/main.rs\<close>.  The arguments arrive parsed (\<open>clap\<close>); a command changes the
  state of the world the client works in, prints lines and ends in one of four ways.  What a command
  reads of its surroundings is the record \<open>setting\<close>: the node connection, files, the identity store,
  the clock and, for a topic owned by this process, what opening its logs answers.
\<close>

section \<open>Commands\<close>

text \<open>The fields stand in the order of the source.\<close>

datatype (plugins del: "quickcheck") command =
    Cmd_create_topic string bool
  | Cmd_publish string "string option" "string option" bool "string option" "string option" "string option"
      "(string \<times> string) list" "string option" u64
  | Cmd_subscribe string string "usize option" "string option"
  | Cmd_pull string string cursor
  | Cmd_grant string bool u64 "string option" "string option"
  | Cmd_inspect string
  | Cmd_create_subscription string string string u64 u32 "string option" u64
  | Cmd_lease string string string usize bool "string option" u64
  | Cmd_ack string string cursor string "string option" u64
  | Cmd_nack string string cursor string "string option" u64
  | Cmd_delete_subscription string string string "string option" u64
  | Cmd_list_subscriptions string string "string option" u64

text \<open>One constructor for each \<open>println!\<close> or \<open>eprintln!\<close>, with the values it formats.\<close>

datatype (plugins del: "quickcheck") line =
    Owning string string
  | Publish_hint string string
  | Subscribe_hint string string
  | Grant_hint string
  | Serving_hint
  | One_shot_note string
  | Published_as_owner string cursor
  | Published_via string cursor string
  | Subscribed string string
  | Shown cursor string string
  | Replayed nat cursor cursor
  | More_remain cursor
  | Not_converged u64
  | Minted_token string
  | Token_note string string u64
  | Abilities_line "string list"
  | Scope_line string
  | Created_subscription string string string
  | Lease_hint string string string
  | No_messages string
  | Shown_leased cursor u32 string string
  | Acked_all nat
  | Acked_cursor cursor string
  | Nacked_cursor cursor string
  | Deleted_subscription string string
  | No_subscriptions string
  | Subscription_name string

text \<open>A command ends, fails with an error, panics, or idles for ever as the owner of a topic.\<close>

datatype (plugins del: "quickcheck") ending = Finished | Failed error | Panicked | Serving

record 's cli_run =
  after :: 's
  owned :: "owner option"
  printed :: "line list"
  ending :: ending

record ('i, 'c, 's) setting =
  coord_connect :: "error + 's client"
  local_world :: "('i, 'c) world"
  open_writer :: "string \<Rightarrow> error + topic_log"
  open_registry :: "string \<Rightarrow> error + sub_registry"
  open_live :: "string \<Rightarrow> error + unit"
  read_file :: "string \<Rightarrow> error + bytes"
  load_identity :: "string \<Rightarrow> error + 'i"
  project_data_dir :: "string option"
  clock :: "nat \<Rightarrow> error + u64"

section \<open>Helpers\<close>

text \<open>\<open>split_once\<close> cuts at the first equals sign.\<close>

definition parse_attr :: "string \<Rightarrow> error + string \<times> string" where
  "parse_attr s =
     (let k = takeWhile (\<lambda>c. c \<noteq> CHR ''='') s; rest = dropWhile (\<lambda>c. c \<noteq> CHR ''='') s in
      if rest \<noteq> [] \<and> k \<noteq> [] then Inr (k, tl rest) else Inl (Bad_attribute_argument s))"

text \<open>The \<open>i\<close>-th reading of the clock; a clock before the epoch reads as 0.\<close>

definition now_secs :: "('i, 'c, 's) setting \<Rightarrow> nat \<Rightarrow> u64" where
  "now_secs env i = (case clock env i of Inr t \<Rightarrow> t | Inl _ \<Rightarrow> 0)"

definition default_data_dir :: "('i, 'c, 's) setting \<Rightarrow> string" where
  "default_data_dir env = (case project_data_dir env of Some d \<Rightarrow> d | None \<Rightarrow> ''.'')"

definition pubsub_connect :: "('i, 'c, 's) setting \<Rightarrow> error + 's client" where
  "pubsub_connect env = map_err (Context ''starting ce-coord'') (coord_connect env)"

definition connect :: "('i, 'c, 's) setting \<Rightarrow> error + 's client" where
  "connect env = map_err (Context ''connecting to the local CE node'') (pubsub_connect env)"

definition parse_audience ::
  "('i, 'c, 's) setting \<Rightarrow> string option \<Rightarrow> 'i \<Rightarrow> error + node_id" where
  "parse_audience env audience identity =
     (case audience of
        None \<Rightarrow> Inr (identity_node_id (iamlib (local_world env)) identity)
      | Some hex_id \<Rightarrow>
          and_then (map_err (Context ''audience is not valid hex'') (hex_decode (hexlib (local_world env)) (trim hex_id)))
            (\<lambda>bs. if length bs = 32 then Inr bs else Inl Audience_length))"

text \<open>A command that ends with an error prints nothing more.\<close>

definition finish :: "'s \<Rightarrow> error + line list \<Rightarrow> 's cli_run" where
  "finish s r =
     \<lparr>after = s, owned = None, printed = (case r of Inl _ \<Rightarrow> [] | Inr ls \<Rightarrow> ls),
      ending = (case r of Inl e \<Rightarrow> Failed e | Inr _ \<Rightarrow> Finished)\<rparr>"

definition with_client :: "('i, 'c, 's) setting \<Rightarrow> 's \<Rightarrow> ('s client \<Rightarrow> 's cli_run) \<Rightarrow> 's cli_run" where
  "with_client env s act = (case connect env of Inl e \<Rightarrow> finish s (Inl e) | Inr cl \<Rightarrow> act cl)"

text \<open>The line for one message; \<open>None\<close> is the panic of the slice.\<close>

definition show_message :: "hex_codec \<Rightarrow> message \<Rightarrow> line option" where
  "show_message hx m =
     map_option (\<lambda>p. Shown (msg_cursor m) p (message_text hx m)) (short_publisher (publisher m))"

definition show_leased :: "hex_codec \<Rightarrow> leased_message \<Rightarrow> line option" where
  "show_leased hx lm =
     (let m = leased_msg lm in
      map_option (\<lambda>p. Shown_leased (msg_cursor m) (delivery_attempt lm) p (message_text hx m))
        (short_publisher (publisher m)))"

fun show_messages :: "hex_codec \<Rightarrow> message list \<Rightarrow> line list \<times> ending" where
  "show_messages hx [] = ([], Finished)"
| "show_messages hx (m # ms) =
     (case show_message hx m of
        None \<Rightarrow> ([], Panicked)
      | Some l \<Rightarrow> let (ls, e) = show_messages hx ms in (l # ls, e))"

section \<open>Owning and publishing\<close>

definition cli_create_topic :: "('i, 'c, 's) setting \<Rightarrow> 's client \<Rightarrow> string \<Rightarrow> error + owner" where
  "cli_create_topic env cl tp =
     create_topic (node_id cl) (open_writer env) (open_registry env) (open_live env) tp"

definition cmd_create_topic :: "('i, 'c, 's) setting \<Rightarrow> 's \<Rightarrow> string \<Rightarrow> bool \<Rightarrow> 's cli_run" where
  "cmd_create_topic env s tp gated =
     with_client env s (\<lambda>cl.
       case cli_create_topic env cl tp of
         Inl e \<Rightarrow> finish s (Inl e)
       | Inr own \<Rightarrow>
           \<lparr>after = s, owned = Some (require_publish_cap own gated),
            printed = [Owning tp (node_id cl), Publish_hint tp (node_id cl), Subscribe_hint tp (node_id cl)] @
              (if gated then [Grant_hint tp] else []) @ [Serving_hint],
            ending = Serving\<rparr>)"

definition publish_payload ::
  "('i, 'c, 's) setting \<Rightarrow> string option \<Rightarrow> string option \<Rightarrow> error + bytes" where
  "publish_payload env file msg =
     (case file of
        Some path \<Rightarrow> map_err (Context (''reading '' @ path)) (read_file env path)
      | None \<Rightarrow> (case msg of Some m \<Rightarrow> Inr (map of_char m) | None \<Rightarrow> Inl No_payload))"

definition publish_opts :: "string option \<Rightarrow> (string \<times> string) list \<Rightarrow> publish_options" where
  "publish_opts key attrs =
     fold (\<lambda>(k, v) opts. options_attribute opts k v) attrs
       (case key of Some k \<Rightarrow> options_ordering_key new_options k | None \<Rightarrow> new_options)"

definition publish_own ::
  "('i, 'c, 's) setting \<Rightarrow> 's \<Rightarrow> 's client \<Rightarrow> string \<Rightarrow> bytes \<Rightarrow> publish_options \<Rightarrow> 's cli_run" where
  "publish_own env s cl tp payload opts =
     (case cli_create_topic env cl tp of
        Inl e \<Rightarrow> (finish s (Inl e))\<lparr>printed := [One_shot_note tp]\<rparr>
      | Inr own \<Rightarrow>
          let (own1, r) = publish_with (local_world env) own payload opts (now_secs env 0) in
          case r of
            Inl e \<Rightarrow> \<lparr>after = s, owned = Some own1, printed = [One_shot_note tp], ending = Failed e\<rparr>
          | Inr c \<Rightarrow>
              \<lparr>after = s, owned = Some own1, printed = [One_shot_note tp, Published_as_owner tp c],
               ending = Finished\<rparr>)"

definition publish_remote ::
  "'s client \<Rightarrow> 's \<Rightarrow> string \<Rightarrow> string option \<Rightarrow> bytes \<Rightarrow> string option \<Rightarrow> publish_options \<Rightarrow> string option \<Rightarrow> u64 \<Rightarrow>
    's cli_run" where
  "publish_remote cl s tp ow payload grant opts key timeout =
     (case ow of
        None \<Rightarrow> finish s (Inl Owner_required)
      | Some o1 \<Rightarrow>
          let (s1, r) = publish_to_with cl s tp o1 payload grant opts key timeout in
          finish s1 (and_then r (\<lambda>c. Inr [Published_via tp c o1])))"

definition cmd_publish ::
  "('i, 'c, 's) setting \<Rightarrow> 's \<Rightarrow> string \<Rightarrow> string option \<Rightarrow> string option \<Rightarrow> bool \<Rightarrow> string option \<Rightarrow>
    string option \<Rightarrow> string option \<Rightarrow> (string \<times> string) list \<Rightarrow> string option \<Rightarrow> u64 \<Rightarrow> 's cli_run" where
  "cmd_publish env s tp msg file own ow grant key attrs idem timeout =
     (case publish_payload env file msg of
        Inl e \<Rightarrow> finish s (Inl e)
      | Inr payload \<Rightarrow>
          with_client env s (\<lambda>cl.
            if own then publish_own env s cl tp payload (publish_opts key attrs)
            else publish_remote cl s tp ow payload grant (publish_opts key attrs) idem timeout))"

section \<open>Reading a topic\<close>

text \<open>The \<open>while let\<close> loop of the live tail: \<open>seen\<close> counts the messages printed, \<open>out\<close> holds their
  lines.  \<open>None\<close> is a tail that waits for ever.\<close>

partial_function (option) tail_loop ::
  "hex_codec \<Rightarrow> usize option \<Rightarrow> live_subscription \<Rightarrow> usize \<Rightarrow> line list \<Rightarrow> (line list \<times> ending) option" where
  "tail_loop hx count sub seen out =
     (case recv sub of
        None \<Rightarrow> None
      | Some (sub1, next) \<Rightarrow>
          (case next of
             None \<Rightarrow> Some (out, Finished)
           | Some m \<Rightarrow>
               (case show_message hx m of
                  None \<Rightarrow> Some (out, Panicked)
                | Some l \<Rightarrow>
                    if (case count of Some limit \<Rightarrow> limit \<le> seen + 1 | None \<Rightarrow> False)
                    then Some (out @ [l], Finished)
                    else tail_loop hx count sub1 (seen + 1) (out @ [l]))))"

definition open_tail ::
  "'s client \<Rightarrow> string \<Rightarrow> string \<Rightarrow> string option \<Rightarrow> error + live_subscription" where
  "open_tail cl tp ow flt =
     (case flt of
        Some f \<Rightarrow>
          and_then (map_err (Context ''parsing --filter'') (filter_parse f)) (\<lambda>p. subscribe_filtered cl tp ow p)
      | None \<Rightarrow> subscribe cl tp ow)"

definition cmd_subscribe ::
  "('i, 'c, 's) setting \<Rightarrow> 's \<Rightarrow> string \<Rightarrow> string \<Rightarrow> usize option \<Rightarrow> string option \<Rightarrow> 's cli_run option" where
  "cmd_subscribe env s tp ow count flt =
     (case and_then (connect env) (\<lambda>cl. and_then (open_tail cl tp ow flt) (\<lambda>sub. Inr (cl, sub))) of
        Inl e \<Rightarrow> Some (finish s (Inl e))
      | Inr (cl, sub) \<Rightarrow>
          map_option (\<lambda>(ls, e). \<lparr>after = s, owned = None, printed = Subscribed tp ow # ls, ending = e\<rparr>)
            (tail_loop (client_hex cl) count sub 0 []))"

definition pull_notes :: "cursor \<Rightarrow> replay_page \<Rightarrow> line list" where
  "pull_notes from page =
     [Replayed (replay_len page) from (rp_high page)] @
     (if rp_truncated page then [More_remain (rp_next page)] else []) @
     (if \<not> rp_converged page then [Not_converged (rp_missing page)] else [])"

definition cmd_pull ::
  "('i, 'c, 's) setting \<Rightarrow> 's \<Rightarrow> string \<Rightarrow> string \<Rightarrow> cursor \<Rightarrow> 's cli_run option" where
  "cmd_pull env s tp ow from =
     (case connect env of
        Inl e \<Rightarrow> Some (finish s (Inl e))
      | Inr cl \<Rightarrow>
          map_option (\<lambda>(s1, r).
            case r of
              Inl e \<Rightarrow> finish s1 (Inl e)
            | Inr page \<Rightarrow>
                let (ls, e) = show_messages (client_hex cl) (rp_messages page) in
                \<lparr>after = s1, owned = None,
                 printed = ls @ (if e = Finished then pull_notes from page else []), ending = e\<rparr>)
            (pull cl s tp ow from))"

section \<open>Capability links\<close>

text \<open>The clock is read once for an expiry that is asked for, then for the nonce.  The expiry is an
  unchecked addition, which wraps in a release build.\<close>

definition cmd_grant ::
  "('i, 'c, 's) setting \<Rightarrow> 's \<Rightarrow> string \<Rightarrow> bool \<Rightarrow> u64 \<Rightarrow> string option \<Rightarrow> string option \<Rightarrow> 's cli_run" where
  "cmd_grant env s tp for_subscribe expires_in audience data_dir =
     (let dir = (case data_dir of Some d \<Rightarrow> d | None \<Rightarrow> default_data_dir env) in
      finish s
        (and_then (map_err (Context ''loading owner identity'') (load_identity env dir)) (\<lambda>identity.
         and_then (parse_audience env audience identity) (\<lambda>aud.
           let ability = (if for_subscribe then ABILITY_SUBSCRIBE else ABILITY_PUBLISH);
               expiry = (if expires_in = 0 then 0 else now_secs env 0 + expires_in);
               nonce = now_secs env (if expires_in = 0 then 0 else 1) in
           and_then (mint_link (iamlib (local_world env)) identity aud ability tp expiry nonce) (\<lambda>token.
             Inr [Minted_token token, Token_note ability tp expiry])))))"

definition cmd_inspect :: "('i, 'c, 's) setting \<Rightarrow> 's \<Rightarrow> string \<Rightarrow> 's cli_run" where
  "cmd_inspect env s token =
     finish s (and_then (inspect_link (iamlib (local_world env)) token) (\<lambda>(abilities, scope).
       Inr [Abilities_line abilities, Scope_line scope]))"

section \<open>Durable subscriptions\<close>

definition cmd_create_subscription ::
  "('i, 'c, 's) setting \<Rightarrow> 's \<Rightarrow> string \<Rightarrow> string \<Rightarrow> string \<Rightarrow> u64 \<Rightarrow> u32 \<Rightarrow> string option \<Rightarrow> u64 \<Rightarrow> 's cli_run" where
  "cmd_create_subscription env s tp name ow deadline limit grant timeout =
     with_client env s (\<lambda>cl.
       let policy = \<lparr>ack_deadline_secs = deadline, max_delivery_attempts = limit\<rparr>;
           (s1, r) = create_subscription cl s tp ow name policy grant timeout in
       finish s1 (and_then r (\<lambda>_. Inr [Created_subscription name tp ow, Lease_hint tp name ow])))"

text \<open>The loop over a leased batch: each message is printed, then acked if that is asked for; the first
  ack that fails ends the command.\<close>

fun lease_loop ::
  "'s client \<Rightarrow> 's \<Rightarrow> string \<Rightarrow> string \<Rightarrow> string \<Rightarrow> bool \<Rightarrow> string option \<Rightarrow> u64 \<Rightarrow> leased_message list \<Rightarrow>
    's \<times> line list \<times> ending" where
  "lease_loop cl s tp ow name auto_ack grant timeout [] = (s, [], Finished)"
| "lease_loop cl s tp ow name auto_ack grant timeout (lm # lms) =
     (case show_leased (client_hex cl) lm of
        None \<Rightarrow> (s, [], Panicked)
      | Some l \<Rightarrow>
          let (s1, r) = (if auto_ack then ack cl s tp ow name (msg_cursor (leased_msg lm)) grant timeout
                         else (s, Inr ())) in
          case r of
            Inl e \<Rightarrow> (s1, [l], Failed e)
          | Inr _ \<Rightarrow>
              let (s2, ls, e) = lease_loop cl s1 tp ow name auto_ack grant timeout lms in (s2, l # ls, e))"

definition cmd_lease ::
  "('i, 'c, 's) setting \<Rightarrow> 's \<Rightarrow> string \<Rightarrow> string \<Rightarrow> string \<Rightarrow> usize \<Rightarrow> bool \<Rightarrow> string option \<Rightarrow> u64 \<Rightarrow> 's cli_run" where
  "cmd_lease env s tp name ow mx auto_ack grant timeout =
     with_client env s (\<lambda>cl.
       let (s1, r) = lease_messages cl s tp ow name mx grant timeout in
       case r of
         Inl e \<Rightarrow> finish s1 (Inl e)
       | Inr batch \<Rightarrow>
           let (s2, ls, e) = lease_loop cl s1 tp ow name auto_ack grant timeout batch in
           \<lparr>after = s2, owned = None,
            printed = (if batch = [] then [No_messages name] else []) @ ls @
              (if e = Finished \<and> auto_ack \<and> batch \<noteq> [] then [Acked_all (length batch)] else []),
            ending = e\<rparr>)"

definition cmd_ack ::
  "('i, 'c, 's) setting \<Rightarrow> 's \<Rightarrow> string \<Rightarrow> string \<Rightarrow> cursor \<Rightarrow> string \<Rightarrow> string option \<Rightarrow> u64 \<Rightarrow> 's cli_run" where
  "cmd_ack env s tp name c ow grant timeout =
     with_client env s (\<lambda>cl.
       let (s1, r) = ack cl s tp ow name c grant timeout in
       finish s1 (and_then r (\<lambda>_. Inr [Acked_cursor c name])))"

definition cmd_nack ::
  "('i, 'c, 's) setting \<Rightarrow> 's \<Rightarrow> string \<Rightarrow> string \<Rightarrow> cursor \<Rightarrow> string \<Rightarrow> string option \<Rightarrow> u64 \<Rightarrow> 's cli_run" where
  "cmd_nack env s tp name c ow grant timeout =
     with_client env s (\<lambda>cl.
       let (s1, r) = nack cl s tp ow name c grant timeout in
       finish s1 (and_then r (\<lambda>_. Inr [Nacked_cursor c name])))"

definition cmd_delete_subscription ::
  "('i, 'c, 's) setting \<Rightarrow> 's \<Rightarrow> string \<Rightarrow> string \<Rightarrow> string \<Rightarrow> string option \<Rightarrow> u64 \<Rightarrow> 's cli_run" where
  "cmd_delete_subscription env s tp name ow grant timeout =
     with_client env s (\<lambda>cl.
       let (s1, r) = delete_subscription cl s tp ow name grant timeout in
       finish s1 (and_then r (\<lambda>_. Inr [Deleted_subscription name tp])))"

definition cmd_list_subscriptions ::
  "('i, 'c, 's) setting \<Rightarrow> 's \<Rightarrow> string \<Rightarrow> string \<Rightarrow> string option \<Rightarrow> u64 \<Rightarrow> 's cli_run" where
  "cmd_list_subscriptions env s tp ow grant timeout =
     with_client env s (\<lambda>cl.
       let (s1, r) = list_subscriptions cl s tp ow grant timeout in
       finish s1 (and_then r (\<lambda>names.
         Inr ((if names = [] then [No_subscriptions tp] else []) @ map Subscription_name names))))"

section \<open>The dispatch\<close>

text \<open>\<open>None\<close> is a command that never returns.\<close>

fun run_command :: "('i, 'c, 's) setting \<Rightarrow> 's \<Rightarrow> command \<Rightarrow> 's cli_run option" where
  "run_command env s (Cmd_create_topic tp gated) = Some (cmd_create_topic env s tp gated)"
| "run_command env s (Cmd_publish tp msg file own ow grant key attrs idem timeout) =
     Some (cmd_publish env s tp msg file own ow grant key attrs idem timeout)"
| "run_command env s (Cmd_subscribe tp ow count flt) = cmd_subscribe env s tp ow count flt"
| "run_command env s (Cmd_pull tp ow from) = cmd_pull env s tp ow from"
| "run_command env s (Cmd_grant tp for_subscribe expires_in audience data_dir) =
     Some (cmd_grant env s tp for_subscribe expires_in audience data_dir)"
| "run_command env s (Cmd_inspect token) = Some (cmd_inspect env s token)"
| "run_command env s (Cmd_create_subscription tp name ow deadline limit grant timeout) =
     Some (cmd_create_subscription env s tp name ow deadline limit grant timeout)"
| "run_command env s (Cmd_lease tp name ow mx auto_ack grant timeout) =
     Some (cmd_lease env s tp name ow mx auto_ack grant timeout)"
| "run_command env s (Cmd_ack tp name c ow grant timeout) = Some (cmd_ack env s tp name c ow grant timeout)"
| "run_command env s (Cmd_nack tp name c ow grant timeout) = Some (cmd_nack env s tp name c ow grant timeout)"
| "run_command env s (Cmd_delete_subscription tp name ow grant timeout) =
     Some (cmd_delete_subscription env s tp name ow grant timeout)"
| "run_command env s (Cmd_list_subscriptions tp ow grant timeout) =
     Some (cmd_list_subscriptions env s tp ow grant timeout)"

end
