(* ===== verification/Service.thy ===== *)
theory Service
  imports Owner
begin

text \<open>
  What the owner's handlers do to its state, step by step: which operations reach the two logs, the
  system invariant, and its preservation along every interleaving of requests and owner calls.
\<close>

section \<open>Effects of a handler on the two logs\<close>

text \<open>A stored message is within the bounds of the message model.\<close>

definition wf_message :: "message \<Rightarrow> bool" where
  "wf_message m \<longleftrightarrow> attributes_ok (attributes m) \<and> ordering_key_ok (ordering_key m) \<and>
     length (payload_hex m) \<le> 2 * MAX_PAYLOAD_BYTES"

text \<open>At most one operation is appended to the topic log, and at most one to the registry.\<close>

definition log_progress :: "topic_log \<Rightarrow> topic_log \<Rightarrow> bool" where
  "log_progress w w' \<longleftrightarrow> w' = w \<or> (\<exists>m. wf_message m \<and> w' = apply_log w (Append m)) \<or>
     (\<exists>c. w' = apply_log w (PruneTo c))"

definition subs_progress :: "cursor \<Rightarrow> sub_registry \<Rightarrow> sub_registry \<Rightarrow> bool" where
  "subs_progress F r r' \<longleftrightarrow> r' = r \<or>
     (\<exists>x. lease_planned F r x \<and> (\<forall>n p. x = Create n p \<longrightarrow> \<not> at_capacity r n) \<and> r' = apply_sub r x)"

lemma log_progress_refl [simp]: "log_progress w w"
  by (simp add: log_progress_def)

lemma subs_progress_refl [simp]: "subs_progress F r r"
  by (simp add: subs_progress_def)

lemma subs_progress_apply:
  "lease_planned F r x \<Longrightarrow> (\<And>n p. x = Create n p \<Longrightarrow> \<not> at_capacity r n) \<Longrightarrow>
     r' = r \<or> r' = apply_sub r x \<Longrightarrow> subs_progress F r r'"
  unfolding subs_progress_def by blast

text \<open>The 64-bit range of cursors is not used up.\<close>

definition cursor_room :: "owner \<Rightarrow> bool" where
  "cursor_room own \<longleftrightarrow> high_cursor (writer own) \<noteq> top_word \<and>
     (\<forall>n s. reg_get (own_subs own) n = Some s \<longrightarrow> acked s \<noteq> top_word)"

definition owner_inv :: "owner \<Rightarrow> bool" where
  "owner_inv own \<longleftrightarrow> log_inv (writer own) \<and> (\<forall>m \<in> set (log_messages (writer own)). wf_message m) \<and>
     reg_inv (own_subs own) \<and> reg_len (own_subs own) \<le> MAX_SUBSCRIPTIONS \<and> cache_inv (dedup own)"

lemma owner_invD:
  assumes "owner_inv own"
  shows "log_inv (writer own)" "reg_inv (own_subs own)" "cache_inv (dedup own)"
    "reg_len (own_subs own) \<le> MAX_SUBSCRIPTIONS"
    "m \<in> set (log_messages (writer own)) \<Longrightarrow> wf_message m"
  using assms by (auto simp: owner_inv_def)

lemma world_okD:
  assumes "world_ok W"
  shows "hex_contract (hexlib W)" "propose_contract apply_log (log_propose W)"
    "propose_contract apply_sub (subs_propose W)"
  using assms by (auto simp: world_ok_def)

lemma apply_append_stamp: "apply_log l (Append (m\<lparr>msg_cursor := c\<rparr>)) = apply_log l (Append m)"
  by (simp add: apply_log.simps)

lemma wf_message_stamp [simp]: "wf_message (m\<lparr>msg_cursor := c\<rparr>) = wf_message m"
  by (simp add: wf_message_def)

subsection \<open>Appending\<close>

lemma append_and_fanout_frame:
  assumes "append_and_fanout W own msg = (own', res)"
  shows "own_subs own' = own_subs own" "dedup own' = dedup own" "require_cap own' = require_cap own"
    "topic_name own' = topic_name own" "own_id own' = own_id own" "accepted_roots own' = accepted_roots own"
  using assms by (auto simp: append_and_fanout_def Let_def split: prod.splits sum.splits)

lemma append_and_fanout_log:
  assumes "world_ok W" "append_and_fanout W own msg = (own', res)"
  shows "writer own' = writer own \<or> writer own' = apply_log (writer own) (Append msg)"
    and "res = Inr c \<Longrightarrow> c = next_cursor (writer own) \<and> writer own' = apply_log (writer own) (Append msg)"
proof -
  obtain w r where p: "log_propose W (writer own) (Append (msg\<lparr>msg_cursor := next_cursor (writer own)\<rparr>)) = (w, r)"
    by fastforce
  have w: "writer own' = w"
    using assms(2) p by (auto simp: append_and_fanout_def Let_def split: prod.splits sum.splits)
  show "writer own' = writer own \<or> writer own' = apply_log (writer own) (Append msg)"
    using propose_contractD(2)[OF world_okD(2)[OF assms(1)] p] by (simp add: w apply_append_stamp)
  assume "res = Inr c"
  with assms(2) p have "is_ok r" "c = next_cursor (writer own)"
    by (auto simp: append_and_fanout_def Let_def split: prod.splits sum.splits)
  then show "c = next_cursor (writer own) \<and> writer own' = apply_log (writer own) (Append msg)"
    using propose_contractD(1)[OF world_okD(2)[OF assms(1)] p] by (simp add: w apply_append_stamp)
qed

lemma append_progress:
  assumes "world_ok W" "append_and_fanout W own msg = (own', res)" "wf_message msg"
  shows "log_progress (writer own) (writer own')"
  using append_and_fanout_log(1)[OF assms(1,2)] assms(3) by (auto simp: log_progress_def)

lemma wf_new_message:
  "hex_contract hx \<Longrightarrow> length payload \<le> MAX_PAYLOAD_BYTES \<Longrightarrow>
     wf_message (authenticated (new_message hx c pub payload at) yes)"
  by (simp add: wf_message_def authenticated_def new_message_def hex_contractD attributes_ok_def
      ordering_key_ok_def)

lemma ingest_message_wf:
  assumes "world_ok W" "ingest_message W own req from now = Inr msg"
  shows "wf_message msg"
  using assms(2) hex_contractD(3)[OF world_okD(1)[OF assms(1)]]
  by (auto simp: ingest_message_def result_simps wf_message_def authenticated_def new_message_def)

lemma publish_progress:
  assumes "world_ok W"
  shows "publish W own payload now = (own', res) \<Longrightarrow>
      log_progress (writer own) (writer own') \<and> own_subs own' = own_subs own \<and> dedup own' = dedup own"
    and "publish_with W own payload opts now = (own', res) \<Longrightarrow>
      log_progress (writer own) (writer own') \<and> own_subs own' = own_subs own \<and> dedup own' = dedup own"
proof -
  assume p: "publish W own payload now = (own', res)"
  show "log_progress (writer own) (writer own') \<and> own_subs own' = own_subs own \<and> dedup own' = dedup own"
  proof (cases "validate_payload payload")
    case (Inr u)
    with p have a: "append_and_fanout W own (authenticated (new_message (hexlib W) 0 (own_id own) payload now) True) = (own', res)"
      by (simp add: publish_def)
    show ?thesis
      using append_progress[OF assms a] append_and_fanout_frame[OF a] Inr
        wf_new_message[OF world_okD(1)[OF assms]] by simp
  qed (use p in \<open>simp add: publish_def\<close>)
next
  assume p: "publish_with W own payload opts now = (own', res)"
  show "log_progress (writer own) (writer own') \<and> own_subs own' = own_subs own \<and> dedup own' = dedup own"
  proof (cases "and_then (validate_payload payload) (\<lambda>_. options_validate opts)")
    case (Inr u)
    define msg where "msg = (authenticated (new_message (hexlib W) 0 (own_id own) payload now) True)
      \<lparr>ordering_key := opt_ordering_key opts, attributes := opt_attributes opts\<rparr>"
    have a: "append_and_fanout W own msg = (own', res)"
      using p Inr by (simp add: publish_with_def msg_def)
    have "wf_message msg"
      using Inr hex_contractD(3)[OF world_okD(1)[OF assms]]
      by (simp add: result_simps options_validate_iff wf_message_def msg_def authenticated_def new_message_def)
    then show ?thesis
      using append_progress[OF assms a] append_and_fanout_frame[OF a] by simp
  qed (use p in \<open>simp add: publish_with_def\<close>)
qed

subsection \<open>The ingest path\<close>

lemma apply_ingest_effect:
  assumes "world_ok W" "apply_ingest W own req from now = (own', res)"
  shows "log_progress (writer own) (writer own')" "own_subs own' = own_subs own" "dedup own' = dedup own"
proof -
  have "log_progress (writer own) (writer own') \<and> own_subs own' = own_subs own \<and> dedup own' = dedup own"
  proof (cases "ingest_message W own req from now")
    case (Inr msg)
    obtain own1 r where a: "append_and_fanout W own msg = (own1, r)" by fastforce
    with assms(2) Inr have "own' = own1" by (simp add: apply_ingest_def)
    then show ?thesis
      using append_progress[OF assms(1) a ingest_message_wf[OF assms(1) Inr]] append_and_fanout_frame[OF a] by simp
  qed (use assms(2) in \<open>simp add: apply_ingest_def\<close>)
  then show "log_progress (writer own) (writer own')" "own_subs own' = own_subs own" "dedup own' = dedup own"
    by simp_all
qed

lemma handle_ingest_effect:
  assumes "world_ok W" "cache_inv (dedup own)" "handle_ingest W own token payload from now = (own', reply)"
  shows "log_progress (writer own) (writer own') \<and> own_subs own' = own_subs own \<and> cache_inv (dedup own')"
proof (cases "ingest_decode_hex (hexlib W) (json W) payload")
  case (Inr req)
  obtain cache found where g: "cache_get (dedup_key token req) now (dedup own) = (cache, found)" by fastforce
  have ci: "cache_inv cache" using ingest_store.find_inv[OF assms(2)] g by (metis fst_conv)
  show ?thesis
  proof (cases found)
    case None
    obtain own2 out where a: "apply_ingest W (own\<lparr>dedup := cache\<rparr>) req from now = (own2, out)" by fastforce
    have "own' = own2\<lparr>dedup := cache_insert (dedup_key token req)
        (case out of Inr c \<Rightarrow> Seen_cursor c | Inl _ \<Rightarrow> Seen_handled) now (dedup own2)\<rparr>"
      using assms(3) g None a by (simp add: handle_ingest_def Inr Let_def)
    then show ?thesis
      using apply_ingest_effect[OF assms(1) a] ingest_store.record_inv[OF ci] by simp
  next
    case (Some v)
    then have "own' = own\<lparr>dedup := cache\<rparr>"
      using assms(3) g by (cases v) (simp_all add: handle_ingest_def Inr Let_def)
    then show ?thesis using ci by simp
  qed
qed (use assms in \<open>simp add: handle_ingest_def\<close>)

lemma handle_ingest_appends:
  assumes "world_ok W" "handle_ingest W own token payload from now = (own', reply)"
  shows "writer own' = writer own \<or> (\<exists>m. writer own' = apply_log (writer own) (Append m))"
proof -
  have "writer own2 = writer own1 \<or> (\<exists>m. writer own2 = apply_log (writer own1) (Append m))"
    if "apply_ingest W own1 req from now = (own2, out)" for own1 own2 req out
  proof (cases "ingest_message W own1 req from now")
    case (Inr msg)
    with that append_and_fanout_log(1)[OF assms(1), of own1 msg] show ?thesis
      by (cases "append_and_fanout W own1 msg") (auto simp: apply_ingest_def)
  qed (use that in \<open>simp add: apply_ingest_def\<close>)
  with assms(2) show ?thesis
    by (fastforce simp: handle_ingest_def Let_def split: sum.splits prod.splits option.splits seen.splits)
qed

lemma handle_ingest_subs:
  assumes "handle_ingest W own token payload from now = (own', reply)"
  shows "own_subs own' = own_subs own"
proof -
  have "own_subs own2 = own_subs own1" if "apply_ingest W own1 req from now = (own2, out)" for own1 own2 req out
    using that by (auto simp: apply_ingest_def dest: append_and_fanout_frame split: sum.splits prod.splits)
  with assms show ?thesis
    by (auto simp: handle_ingest_def Let_def split: sum.splits prod.splits option.splits seen.splits)
qed

subsection \<open>The control path\<close>

lemma route_dead_letters_frame [simp]:
  "writer (route_dead_letters W own cs) = writer own"
  "own_subs (route_dead_letters W own cs) = own_subs own"
  "dedup (route_dead_letters W own cs) = dedup own"
  "live_out (route_dead_letters W own cs) = live_out own"
  by (simp_all add: route_dead_letters_def Let_def split: sum.splits)

text \<open>The lease request of the handler meets the conditions under which planning was analysed.\<close>

lemma owner_lease_request:
  assumes "owner_inv own" "cursor_room own" "reg_get (own_subs own) name = Some s"
  shows "lease_request (high_cursor (writer own)) (own_subs own) name s
    (high_cursor (writer own)) (log_floor (writer own))"
  using assms topic_store.ordered[OF owner_invD(1)[OF assms(1)]] reg_invD[OF owner_invD(2)[OF assms(1)]]
  by (auto simp: lease_request_def cursor_room_def)

lemma propose_sub_effect:
  assumes "world_ok W" "propose_sub W own failed x = (own', reply)"
    and "lease_planned F (own_subs own) x" "\<And>n p. x = Create n p \<Longrightarrow> \<not> at_capacity (own_subs own) n"
  shows "writer own' = writer own \<and> subs_progress F (own_subs own) (own_subs own') \<and> dedup own' = dedup own"
proof -
  obtain r res where p: "subs_propose W (own_subs own) x = (r, res)" by fastforce
  with assms(2) have "own' = own\<lparr>own_subs := r\<rparr>" by (simp add: propose_sub_def)
  then show ?thesis
    using propose_contractD(2)[OF world_okD(3)[OF assms(1)] p] assms(3,4)
    by (auto simp: subs_progress_def)
qed

lemma handle_lease_effect:
  assumes "world_ok W" "owner_inv own" "cursor_room own" "handle_lease W own name mx now = Some (own', reply)"
  shows "writer own' = writer own \<and>
    subs_progress (high_cursor (writer own)) (own_subs own) (own_subs own') \<and> dedup own' = dedup own"
proof (cases "reg_get (own_subs own) name")
  case None
  with assms(4) show ?thesis by (simp add: handle_lease_def)
next
  case (Some s)
  note req = owner_lease_request[OF assms(2,3) Some]
  show ?thesis
  proof (cases "plan_lease (own_subs own) name (high_cursor (writer own)) (log_floor (writer own)) now mx")
    case None
    with assms(4) Some show ?thesis by (simp add: handle_lease_def Let_def)
  next
    case (Some plan)
    show ?thesis
    proof (cases plan)
      case None
      with assms(4) Some \<open>reg_get (own_subs own) name = Some s\<close> show ?thesis
        by (simp add: handle_lease_def Let_def)
    next
      fix xo assume "plan = Some xo"
      then obtain x out where plan: "plan_lease (own_subs own) name (high_cursor (writer own))
          (log_floor (writer own)) now mx = Some (Some (x, out))"
        using Some by (cases xo) simp
      note planned = lease_planned_intro[OF req plan]
      have nc: "\<And>n p. x \<noteq> Create n p" by (rule planned_leaseE[OF req plan]) simp
      obtain r res where p: "subs_propose W (own_subs own) x = (r, res)" by fastforce
      have "own_subs own' = r \<and> writer own' = writer own \<and> dedup own' = dedup own"
        using assms(4) plan p \<open>reg_get (own_subs own) name = Some s\<close>
        by (auto simp: handle_lease_def Let_def split: sum.splits)
      then show ?thesis
        using propose_contractD(2)[OF world_okD(3)[OF assms(1)] p] nc
        by (auto intro!: subs_progress_apply[OF planned])
    qed
  qed
qed

lemma serve_request_effect:
  assumes "world_ok W" "owner_inv own" "cursor_room own" "serve_request W own req now = Some (own', reply)"
  shows "writer own' = writer own \<and>
    subs_progress (high_cursor (writer own)) (own_subs own) (own_subs own') \<and> dedup own' = dedup own"
proof (cases req)
  case (Pull name mx grant)
  with assms(4) show ?thesis by (intro handle_lease_effect[OF assms(1-3)]) simp
next
  case (CreateSubscription name p grant)
  then show ?thesis
    using assms(4) propose_sub_effect[OF assms(1), of own "''create failed''" "Create name p" own' reply]
    by (auto simp: lease_planned_def split: sum.splits if_splits)
next
  case (DeleteSubscription name grant)
  then show ?thesis
    using assms(4) propose_sub_effect[OF assms(1), of own "''delete failed''" "Delete name" own' reply]
    by (auto simp: lease_planned_def)
next
  case (AckCursor name c grant)
  then show ?thesis
    using assms(4) propose_sub_effect[OF assms(1), of own "''ack failed''" "Ack name c" own' reply]
    by (auto simp: lease_planned_def split: if_splits)
next
  case (NackCursor name c grant)
  then show ?thesis
    using assms(4) propose_sub_effect[OF assms(1), of own "''nack failed''" "Nack name c" own' reply]
    by (auto simp: lease_planned_def split: if_splits)
qed (use assms(4) in auto)

lemma handle_control_cases:
  assumes "handle_control W own payload requester now = Some (own', reply)"
  obtains (Unserved) "own' = own"
    "(\<exists>why. reply = Control_rejected why) \<or> reply = High (high_cursor (writer own))"
  | (Served) bs req where "hex_decode (hexlib W) payload = Inr bs" "control_decode (json W) bs = Inr req"
    "control_gate W own req requester now = Inr ()" "serve_request W own req now = Some (own', reply)"
  using assms
  by (cases "hex_decode (hexlib W) payload"; cases "control_decode (json W) (projr (hex_decode (hexlib W) payload))")
    (auto simp: handle_control_def split: if_splits sum.splits)

lemma handle_control_effect:
  assumes "world_ok W" "owner_inv own" "cursor_room own"
    and "handle_control W own payload requester now = Some (own', reply)"
  shows "writer own' = writer own \<and>
    subs_progress (high_cursor (writer own)) (own_subs own) (own_subs own') \<and> dedup own' = dedup own"
  using assms(4)
proof (cases rule: handle_control_cases)
  case (Served bs req)
  then show ?thesis by (intro serve_request_effect[OF assms(1-3)])
qed simp


section \<open>The system\<close>

text \<open>
  One step of the owner: a request served by a worker, or a call of its own, in some world of \<open>Ws\<close>.
  Requests and calls interleave in any order.
\<close>

inductive owner_step :: "('i, 'c) world set \<Rightarrow> owner \<Rightarrow> owner \<Rightarrow> bool" for Ws where
  Ingest: "W \<in> Ws \<Longrightarrow> handle_ingest W own token payload from now = (own', reply) \<Longrightarrow> owner_step Ws own own'"
| Control: "W \<in> Ws \<Longrightarrow> handle_control W own payload from now = Some (own', creply) \<Longrightarrow> owner_step Ws own own'"
| Publish: "W \<in> Ws \<Longrightarrow> publish W own bs now = (own', res) \<Longrightarrow> owner_step Ws own own'"
| Publish_with: "W \<in> Ws \<Longrightarrow> publish_with W own bs opts now = (own', res) \<Longrightarrow> owner_step Ws own own'"
| Prune: "W \<in> Ws \<Longrightarrow> prune_to W own c = (own', pres) \<Longrightarrow> owner_step Ws own own'"
| Accept_root: "W \<in> Ws \<Longrightarrow> accept_root (hexlib W) own root = Inr own' \<Longrightarrow> owner_step Ws own own'"
| Require_cap: "owner_step Ws own (require_publish_cap own yes)"

inductive_cases owner_stepE: "owner_step Ws own own'"

inductive reachable :: "('i, 'c) world set \<Rightarrow> owner \<Rightarrow> owner \<Rightarrow> bool" for Ws own0 where
  Start: "reachable Ws own0 own0"
| Step: "reachable Ws own0 own \<Longrightarrow> cursor_room own \<Longrightarrow> owner_step Ws own own' \<Longrightarrow> reachable Ws own0 own'"

lemma log_progress_inv:
  assumes "log_progress w w'" "log_inv w" "high_cursor w \<noteq> top_word" "\<forall>m \<in> set (log_messages w). wf_message m"
  shows "log_inv w'" and "\<forall>m \<in> set (log_messages w'). wf_message m"
proof -
  have "log_inv w' \<and> (\<forall>m \<in> set (log_messages w'). wf_message m)"
    using assms(1) unfolding log_progress_def
  proof (elim disjE exE conjE)
    fix m assume "wf_message m" "w' = apply_log w (Append m)"
    then show ?thesis
      using assms(2-4) by (auto intro!: topic_log.apply_inv simp: log_admissible_def)
  next
    fix c assume "w' = apply_log w (PruneTo c)"
    then show ?thesis
      using assms(2,4) topic_log.apply_inv[of w "PruneTo c"]
      by (auto simp: log_admissible_def apply_prune_drop dest: in_set_dropD)
  qed (use assms in simp)
  then show "log_inv w'" and "\<forall>m \<in> set (log_messages w'). wf_message m" by blast+
qed

lemma reg_len_modify: "reg_len (modify_sub r n f) = reg_len r"
  by (auto simp: reg_len_def modify_sub_def map_len_upd fmlookup_dom'_iff split: option.splits)

lemma reg_len_apply:
  assumes "reg_len r \<le> MAX_SUBSCRIPTIONS" "\<And>n p. x = Create n p \<Longrightarrow> \<not> at_capacity r n"
  shows "reg_len (apply_sub r x) \<le> MAX_SUBSCRIPTIONS"
proof (cases x)
  case (Create n p)
  with assms show ?thesis
    by (auto simp: apply_sub.simps reg_len_def at_capacity_def map_len_upd Let_def)
next
  case (Delete n)
  with assms(1) show ?thesis by (auto simp: apply_sub.simps reg_len_def map_len_drop)
qed (use assms(1) in \<open>simp_all add: apply_sub.simps reg_len_modify\<close>)

lemma subs_progress_inv:
  assumes "subs_progress F r r'" "reg_inv r" "reg_len r \<le> MAX_SUBSCRIPTIONS"
  shows "reg_inv r' \<and> reg_len r' \<le> MAX_SUBSCRIPTIONS"
  using assms by (auto simp: subs_progress_def intro: registry.apply_inv reg_len_apply)

lemma owner_step_progress:
  assumes "\<forall>W \<in> Ws. world_ok W" "owner_inv own" "cursor_room own" "owner_step Ws own own'"
  shows "log_progress (writer own) (writer own') \<and>
    subs_progress (high_cursor (writer own)) (own_subs own) (own_subs own') \<and> cache_inv (dedup own')"
proof -
  note cache = owner_invD(3)[OF assms(2)]
  from assms(4) show ?thesis
  proof cases
    case (Ingest W token payload "from" now reply)
    with assms(1) handle_ingest_effect[of W own token payload "from" now own' reply] cache
    show ?thesis by simp
  next
    case (Control W payload "from" now creply)
    with assms handle_control_effect[of W own payload "from" now own' creply] cache
    show ?thesis by simp
  next
    case (Publish W bs now res)
    with assms(1) publish_progress(1)[of W own bs now own' res] cache show ?thesis by simp
  next
    case (Publish_with W bs opts now res)
    with assms(1) publish_progress(2)[of W own bs opts now own' res] cache show ?thesis by simp
  next
    case (Prune W c pres)
    obtain w r where p: "log_propose W (writer own) (PruneTo c) = (w, r)" by fastforce
    with Prune(2) have own': "own' = own\<lparr>writer := w\<rparr>" by (simp add: prune_to_def)
    have "world_ok W" using assms(1) Prune(1) by blast
    from propose_contractD(2)[OF world_okD(2)[OF this] p]
    have "log_progress (writer own) w" by (auto simp: log_progress_def)
    then show ?thesis using cache own' by simp
  next
    case (Accept_root W root)
    then show ?thesis using cache by (auto simp: accept_root_def result_simps split: if_splits)
  next
    case (Require_cap yes)
    then show ?thesis using cache by (simp add: require_publish_cap_def)
  qed
qed

lemma owner_inv_step:
  assumes "\<forall>W \<in> Ws. world_ok W" "owner_inv own" "cursor_room own" "owner_step Ws own own'"
  shows "owner_inv own'"
proof -
  have top: "high_cursor (writer own) \<noteq> top_word" using assms(3) by (simp add: cursor_room_def)
  have wf: "\<forall>m \<in> set (log_messages (writer own)). wf_message m"
    using assms(2) by (simp add: owner_inv_def)
  have eff: "log_progress (writer own) (writer own')"
    "subs_progress (high_cursor (writer own)) (own_subs own) (own_subs own')" "cache_inv (dedup own')"
    using owner_step_progress[OF assms] by blast+
  show ?thesis
    using log_progress_inv[OF eff(1) owner_invD(1)[OF assms(2)] top wf]
      subs_progress_inv[OF eff(2) owner_invD(2,4)[OF assms(2)]] eff(3)
    unfolding owner_inv_def by blast
qed

lemma reachable_inv:
  assumes "\<forall>W \<in> Ws. world_ok W" "owner_inv own0" "reachable Ws own0 own"
  shows "owner_inv own"
  using assms(3) by induction (auto intro: owner_inv_step[OF assms(1)] assms(2))

end
