(* ===== verification/Delivery.thy ===== *)
theory Delivery
  imports Registry
begin

text \<open>
  The delivery contract of a subscription, as properties of scripts of registry operations in which
  every lease is applied as planned: what is delivered, when it is delivered again, and what is never
  delivered again.
\<close>

section \<open>A sample registry\<close>

text \<open>One subscription with the default policy on a topic with three messages.\<close>

definition sample_registry :: sub_registry where
  "sample_registry = apply_sub empty_registry (Create ''s'' default_policy)"

definition sample_lease :: sub_op where
  "sample_lease = ApplyLease ''s'' [(1, 130), (2, 130)] [] 0"

lemma sample_get [simp]:
  "reg_get sample_registry n = (if n = ''s'' then Some default_state else None)"
  by (simp add: sample_registry_def reg_get_apply default_state_def)

lemma sample_inv [simp]: "reg_inv sample_registry"
  by (simp add: reg_inv_def sub_inv_default)

lemma sample_request [simp]: "lease_request F sample_registry ''s'' default_state 3 0"
  by (simp add: lease_request_def sub_inv_default) (simp add: default_state_def)

lemma small_cursor: "d \<le> 3 \<Longrightarrow> d = 0 \<or> d = 1 \<or> d = 2 \<or> d = (3 :: u64)"
proof -
  assume "d \<le> 3"
  then have "unat d \<le> 3" by (simp add: word_le_nat_alt)
  then have "unat d \<in> {0, 1, 2, 3}" by auto
  then show ?thesis by (auto dest: arg_cong[of _ _ "of_nat :: nat \<Rightarrow> u64"])
qed

lemmas sample_simps = scan_lease.simps bridge_floor.simps withheld_def default_state_def exhausted_def
  next_attempt_def attempt_count_def default_policy_def lease_expiry_def sat_add_def empty_scan_def
  MAX_LEASE_BATCH_def MAX_ACK_DEADLINE_SECS_def DEFAULT_ACK_DEADLINE_SECS_def
  DEFAULT_MAX_DELIVERY_ATTEMPTS_def min_def max_def word_le_nat_alt Let_def

lemma sample_plan:
  "plan_lease sample_registry ''s'' 3 0 100 2 =
     Some (Some (sample_lease, \<lparr>leased = [(1, 1), (2, 1)], dead_lettered = []\<rparr>))"
  by (simp add: plan_lease_def sample_lease_def sample_simps)

lemma sample_planned [simp]: "lease_planned F sample_registry sample_lease"
  unfolding lease_planned_def sample_lease_def sub_op.case
  by (intro exI conjI, rule sample_request, rule sample_plan[unfolded sample_lease_def])

text \<open>A subscription that allows one delivery, whose first message has been delivered once.\<close>

definition poison_state :: subscription_state where
  "poison_state = \<lparr>acked = 0, leases = fmupd 1 \<lparr>lease_cursor = 1, expires_at = 130, lease_attempts = 1\<rparr> fmempty,
     attempts = fmupd 1 1 fmempty, dead = fmempty, acked_set = fmempty,
     policy = \<lparr>ack_deadline_secs = 30, max_delivery_attempts = 1\<rparr>\<rparr>"

definition poison_registry :: sub_registry where
  "poison_registry = \<lparr>subs = fmupd ''s'' poison_state fmempty\<rparr>"

definition poison_lease :: sub_op where
  "poison_lease = ApplyLease ''s'' [(2, 230)] [1] 1"

lemma poison_get: "reg_get poison_registry n = (if n = ''s'' then Some poison_state else None)"
  by (simp add: reg_get_def poison_registry_def)

lemma poison_sub_inv: "sub_inv poison_state"
  by (simp add: poison_state_def sub_inv_def zero_free_def floor_maximal_def leases_counted_def)

lemma poison_inv: "reg_inv poison_registry"
  by (simp add: reg_inv_def poison_get poison_sub_inv)

lemma poison_request: "lease_request F poison_registry ''s'' poison_state 2 0"
  by (simp add: lease_request_def poison_get poison_sub_inv) (simp add: poison_state_def)

lemma poison_plan:
  "plan_lease poison_registry ''s'' 2 0 200 5 =
     Some (Some (poison_lease, \<lparr>leased = [(2, 1)], dead_lettered = [1]\<rparr>))"
  unfolding plan_lease_def poison_get poison_lease_def by (simp add: sample_simps poison_state_def)

section \<open>Properties\<close>

text \<open>C23: In every state of a registry that its operations reach, the ack floor is the end of the
  contiguous run of handled cursors, and a leased cursor is neither acknowledged out of order nor
  dead-lettered, with its delivery count recorded.\<close>

theorem registry_invariant:
  assumes "admissible_run apply_sub (lease_planned F) empty_registry ops"
    and "reg_get (replay apply_sub empty_registry ops) n = Some s"
  shows "((c \<le> acked s) = (\<forall>d \<le> c. d \<in> handled s)) \<and>
    (\<forall>l. fmlookup (leases s) c = Some l \<longrightarrow>
      c \<notin> fmdom' (acked_set s) \<and> c \<notin> fmdom' (dead s) \<and>
      fmlookup (attempts s) c = Some (lease_attempts l) \<and> lease_cursor l = c)"
proof -
  have inv: "sub_inv s"
    using registry.replay_inv[OF reg_inv_empty assms(1)] assms(2) by (rule reg_invD)
  have "c \<notin> fmdom' (acked_set s) \<and> c \<notin> fmdom' (dead s) \<and>
      fmlookup (attempts s) c = Some (lease_attempts l) \<and> lease_cursor l = c"
    if "fmlookup (leases s) c = Some l" for l
    using sub_invD(3,5)[OF inv] leases_counted_lookup[OF _ that] that
    by (auto simp: leases_counted_def intro: fmdom'I)
  then show ?thesis using floor_iff[OF inv] by blast
qed

lemma registry_invariant_witness:
  "\<exists>s. reg_get (replay apply_sub empty_registry [Create ''s'' default_policy, sample_lease, Ack ''s'' 1]) ''s'' = Some s \<and>
     (1 \<le> acked s) = (\<forall>d \<le> 1. d \<in> handled s)"
proof -
  have run: "admissible_run apply_sub (lease_planned 0) empty_registry
      [Create ''s'' default_policy, sample_lease, Ack ''s'' 1]"
    using sample_planned[of 0] by (simp add: lease_planned_def sample_registry_def)
  have "reg_get (replay apply_sub empty_registry [Create ''s'' default_policy, sample_lease, Ack ''s'' 1]) ''s'' =
      Some (apply_ack (apply_lease default_state [(1, 130), (2, 130)] [] 0) 1)"
    using sample_get[of "''s''"] by (simp add: reg_get_apply sample_lease_def sample_registry_def)
  then show ?thesis using registry_invariant[OF run, of "''s''"] by blast
qed

text \<open>C17: Acknowledging in any order: after a batch of acks the floor is the end of the contiguous run
  over what was handled before and what was acknowledged, so it does not depend on their order.\<close>

theorem acks_contiguous_floor:
  assumes "reg_inv r" "reg_get r n = Some s"
    and "reg_get (replay apply_sub r (map (Ack n) cs)) n = Some t"
  shows "(c \<le> acked t) = (\<forall>d \<le> c. d \<in> handled s \<or> d \<in> set cs)"
proof -
  from acks_state[OF assms(2)] assms(3) have t: "t = foldl apply_ack s cs" by simp
  have inv: "sub_inv s" using assms(1,2) by (rule reg_invD)
  show ?thesis
    using floor_iff[OF acks_inv(1)[OF inv]] acks_inv(2)[OF inv] by (simp add: t)
qed

lemma acks_contiguous_floor_witness:
  "\<exists>t. reg_get (replay apply_sub sample_registry (map (Ack ''s'') [3, 1, 2])) ''s'' = Some t \<and> 3 \<le> acked t"
proof -
  obtain t where t: "reg_get (replay apply_sub sample_registry (map (Ack ''s'') [3, 1, 2])) ''s'' = Some t"
    using acks_state[of sample_registry "''s''" default_state "[3, 1, 2]"] by simp
  have "d \<in> handled default_state \<or> d \<in> set [3, 1, 2]" if "d \<le> 3" for d
    using small_cursor[OF that] by (auto simp: handled_iff default_state_def)
  then have "3 \<le> acked t"
    using acks_contiguous_floor[of sample_registry "''s''" default_state "[3, 1, 2]" t 3] t by auto
  with t show ?thesis by blast
qed


text \<open>C3: No redelivery: once a cursor is acknowledged, no lease planned at any later time delivers it
  or dead-letters it, as long as the subscription is not deleted.\<close>

theorem acked_never_redelivered:
  assumes "reg_inv r" "reg_get r n \<noteq> None"
    and "admissible_run apply_sub (keeps n F) r (Ack n c # ops)"
    and "lease_request F (replay apply_sub r (Ack n c # ops)) n s high fl"
    and "plan_lease (replay apply_sub r (Ack n c # ops)) n high fl now mx = Some (Some (x, out))"
  shows "c \<notin> fst ` set (leased out) \<and> c \<notin> set (dead_lettered out)"
proof -
  obtain s0 where s0: "reg_get r n = Some s0" using assms(2) by blast
  then have "c \<in> handled_in n (apply_sub r (Ack n c))"
    using handled_ack[OF sub_invD(1)[OF reg_invD[OF assms(1) s0]]]
    by (simp add: handled_in_def reg_get_apply)
  then show ?thesis
    using assms(1,3,4,5) by (intro handled_not_planned) (auto intro: reg_inv_apply simp: keeps_def)
qed

lemma acked_never_redelivered_witness:
  "2 \<notin> fst ` set (leased \<lparr>leased = [(1, 1)], dead_lettered = []\<rparr>)"
proof -
  let ?r = "replay apply_sub sample_registry [Ack ''s'' 2]" and ?s = "apply_ack default_state 2"
  have run: "admissible_run apply_sub (keeps ''s'' 0) sample_registry [Ack ''s'' 2]"
    by (simp add: keeps_def lease_planned_def)
  have s: "?s = default_state\<lparr>acked_set := fmupd 2 () fmempty\<rparr>"
    by (simp add: apply_ack_def advance_acked.simps default_state_def)
  have get: "reg_get ?r ''s'' = Some ?s" by (simp add: reg_get_apply)
  have "acked ?s = 0" unfolding s by (simp add: default_state_def)
  then have req: "lease_request 0 ?r ''s'' ?s 3 0"
    unfolding lease_request_def get using sub_inv_ack[OF sub_inv_default] by simp
  have "plan_lease ?r ''s'' 3 0 100 1 = Some (Some (ApplyLease ''s'' [(1, 130)] [] 0,
      \<lparr>leased = [(1, 1)], dead_lettered = []\<rparr>))"
    by (simp only: plan_lease_def get s) (simp add: sample_simps)
  from acked_never_redelivered[OF sample_inv _ run req this] show ?thesis by simp
qed

text \<open>A dead letter is final: a cursor that a lease dead-letters is never leased or dead-lettered
  again, as long as the subscription is not deleted.\<close>

theorem dead_letter_final:
  assumes "reg_inv r" "lease_request F r n s high fl"
    and "plan_lease r n high fl now mx = Some (Some (x, out))" "c \<in> set (dead_lettered out)"
    and "admissible_run apply_sub (keeps n F) (apply_sub r x) ops"
    and "lease_request F (replay apply_sub (apply_sub r x) ops) n s' high' fl'"
    and "plan_lease (replay apply_sub (apply_sub r x) ops) n high' fl' now' mx' = Some (Some (x', out'))"
  shows "c \<notin> fst ` set (leased out') \<and> c \<notin> set (dead_lettered out')"
proof -
  have "c \<in> handled_in n (apply_sub r x)"
    by (rule planned_leaseE[OF assms(2,3)]) (use assms(4) in \<open>simp add: handled_in_def handled_apply_lease\<close>)
  moreover have "lease_planned F r x"
    using assms(2,3) by (rule lease_planned_intro)
  ultimately show ?thesis
    using assms(1,5,6,7) by (intro handled_not_planned) (auto intro: reg_inv_apply)
qed

lemma dead_letter_final_witness:
  "1 \<notin> fst ` set (leased \<lparr>leased = [(3, 1)], dead_lettered = [2]\<rparr>)"
proof -
  let ?r = "replay apply_sub (apply_sub poison_registry poison_lease) []"
  have s: "reg_get ?r ''s'' = Some (poison_state\<lparr>acked := 1, leases := fmupd 2 \<lparr>lease_cursor = 2, expires_at = 230,
      lease_attempts = 1\<rparr> fmempty, attempts := fmupd 2 1 fmempty\<rparr>)" (is "_ = Some ?t")
    by (simp add: poison_lease_def reg_get_apply poison_get)
      (simp add: poison_state_def apply_lease_def mark_dead_def add_lease_def raise_floor_def
        attempt_count_def Let_def fmdrop_fmupd cong del: fmfilter_cong)
  have inv: "sub_inv ?t"
    using s by (intro planned_lease_inv(1)[OF poison_request poison_plan]) simp
  then have req: "lease_request 0 ?r ''s'' ?t 3 0"
    unfolding lease_request_def s by simp
  have "plan_lease ?r ''s'' 3 0 300 5 = Some (Some (ApplyLease ''s'' [(3, 330)] [2] 2,
      \<lparr>leased = [(3, 1)], dead_lettered = [2]\<rparr>))"
    unfolding plan_lease_def s by (simp add: sample_simps poison_state_def)
  from dead_letter_final[OF poison_inv poison_request poison_plan _ _ req this, of 1] show ?thesis by simp
qed

text \<open>No silent loss: a cursor above every retention floor used becomes handled only by its own
  acknowledgement or by reaching the delivery limit of its subscription.\<close>

theorem handled_only_by_ack_or_limit:
  assumes "reg_inv r" "admissible_run apply_sub (lease_planned F) r ops" "F < c"
    and "c \<in> handled_in n (replay apply_sub r ops)" "c \<notin> handled_in n r"
  shows "Ack n c \<in> set ops \<or>
    (\<exists>pre x post s. ops = pre @ x # post \<and> reg_get (replay apply_sub r pre) n = Some s \<and> exhausted s c)"
  using assms
proof (induction ops arbitrary: r)
  case (Cons x ops)
  let ?r = "apply_sub r x"
  from Cons.prems have x: "lease_planned F r x" by simp
  with Cons.prems(1) have inv: "reg_inv ?r" by (rule reg_inv_apply)
  show ?case
  proof (cases "c \<in> handled_in n ?r")
    case False
    then have "Ack n c \<in> set ops \<or> (\<exists>pre y post s. ops = pre @ y # post \<and>
        reg_get (replay apply_sub ?r pre) n = Some s \<and> exhausted s c)"
      using Cons inv by simp
    then show ?thesis
    proof (elim disjE exE conjE)
      fix pre y post s
      assume "ops = pre @ y # post" "reg_get (replay apply_sub ?r pre) n = Some s" "exhausted s c"
      then have "x # ops = (x # pre) @ y # post \<and> reg_get (replay apply_sub r (x # pre)) n = Some s \<and>
        exhausted s c" by simp
      then show ?thesis by blast
    qed simp
  next
    case True
    from newly_handled[OF Cons.prems(1) x Cons.prems(3) True Cons.prems(5)] show ?thesis
    proof (elim disjE exE conjE)
      fix s ls dd na assume "reg_get r n = Some s" "exhausted s c"
      then have "x # ops = [] @ x # ops \<and> reg_get (replay apply_sub r []) n = Some s \<and> exhausted s c"
        by simp
      then show ?thesis by blast
    qed simp
  qed
qed simp

lemma handled_only_by_ack_or_limit_witness:
  "\<exists>s. reg_get poison_registry ''s'' = Some s \<and> exhausted s 1"
proof -
  have run: "admissible_run apply_sub (lease_planned 0) poison_registry [poison_lease]"
    using lease_planned_intro[OF poison_request poison_plan] by simp
  have h: "1 \<in> handled_in ''s'' (replay apply_sub poison_registry [poison_lease])"
    by (simp add: handled_in_def poison_lease_def reg_get_apply poison_get handled_apply_lease)
  have "1 \<notin> handled_in ''s'' poison_registry"
    by (simp add: handled_in_def poison_get handled_iff) (simp add: poison_state_def)
  from handled_only_by_ack_or_limit[OF poison_inv run _ h this]
  have "\<exists>pre x post s. [poison_lease] = pre @ x # post \<and>
      reg_get (replay apply_sub poison_registry pre) ''s'' = Some s \<and> exhausted s 1"
    by (simp add: poison_lease_def)
  then show ?thesis by (auto simp: Cons_eq_append_conv)
qed

text \<open>C29: Planning returns: on every topic whose highest cursor is below the largest word, both loops of
  \<open>plan_lease\<close> end.  It returns no plan exactly if nothing may be delivered or nothing was asked for;
  otherwise the lowest deliverable cursor is leased, or dead-lettered if it is at its limit.\<close>

theorem plan_lease_returns:
  assumes "lease_request F r n s high fl"
  shows "((plan_lease r n high fl now mx = Some None) = (mx = 0 \<or> deliverable s high fl now = [])) \<and>
    (\<forall>c cs. 0 < mx \<longrightarrow> deliverable s high fl now = c # cs \<longrightarrow>
      (\<exists>x out. plan_lease r n high fl now mx = Some (Some (x, out)) \<and>
        (if exhausted s c then c \<in> set (dead_lettered out) else c \<in> fst ` set (leased out))))"
proof (intro conjI allI impI)
  show "(plan_lease r n high fl now mx = Some None) = (mx = 0 \<or> deliverable s high fl now = [])"
    by (rule plan_lease_none[OF assms])
  fix c cs assume mx: "0 < mx" and cs: "deliverable s high fl now = c # cs"
  from assms have s: "reg_get r n = Some s" "zero_free s" "high \<noteq> top_word"
    by (auto simp: lease_request_def dest: sub_invD)
  obtain k where k: "unat (min mx MAX_LEASE_BATCH) = Suc k"
    using mx lease_room_0[of mx] by (cases "unat (min mx MAX_LEASE_BATCH)") auto
  have first: "if exhausted s c then c \<in> set (snd (lease_picked s high fl now mx))
      else c \<in> set (fst (lease_picked s high fl now mx))"
    by (simp add: lease_picked_def cs k)
  show "\<exists>x out. plan_lease r n high fl now mx = Some (Some (x, out)) \<and>
        (if exhausted s c then c \<in> set (dead_lettered out) else c \<in> fst ` set (leased out))"
    by (rule plan_lease_cases[OF s lease_request_top[OF assms], of now mx])
      (use first in \<open>auto simp: image_image split: if_splits\<close>)
qed

lemma plan_lease_returns_witness: "plan_lease sample_registry ''s'' 3 0 100 0 = Some None"
  using plan_lease_returns[OF sample_request, of 100 0] by simp

text \<open>C16: Planning computes a selection: it leases the first deliverable cursors that are below their
  limit, as many as were asked for and at most a batch, and dead-letters the deliverable cursors at
  their limit, those below the last leased cursor if the batch is full and all of them if not.\<close>

theorem plan_lease_selects:
  assumes "lease_request F r n s high fl"
    and "plan_lease r n high fl now mx = Some (Some (x, out))"
  shows "map fst (leased out) = take (unat (min mx MAX_LEASE_BATCH))
      (filter (\<lambda>c. \<not> exhausted s c) (deliverable s high fl now)) \<and>
    dead_lettered out = filter (\<lambda>c. exhausted s c \<and>
        (length (filter (\<lambda>c. \<not> exhausted s c) (deliverable s high fl now)) < unat (min mx MAX_LEASE_BATCH) \<or>
         c < last (map fst (leased out)))) (deliverable s high fl now)"
proof (rule conjI)
  let ?room = "unat (min mx MAX_LEASE_BATCH)"
  obtain ls dd where p: "lease_picked s high fl now mx = (ls, dd)"
    and out: "out = \<lparr>leased = map (\<lambda>c. (c, next_attempt s c)) ls, dead_lettered = dd\<rparr>"
    by (rule planned_leaseE[OF assms(1,2)]) (rule that)
  have ls: "map fst (leased out) = ls" by (simp add: out comp_def)
  note picked = p[unfolded lease_picked_def]
  show "map fst (leased out) = take ?room (filter (\<lambda>c. \<not> exhausted s c) (deliverable s high fl now))"
    unfolding ls using pick_fst[of "exhausted s" ?room "deliverable s high fl now"] picked by simp
  have "?room \<noteq> 0" using plan_lease_none[OF assms(1), of now mx] assms(2) by (simp add: lease_room_0)
  then show "dead_lettered out = filter (\<lambda>c. exhausted s c \<and>
        (length (filter (\<lambda>c. \<not> exhausted s c) (deliverable s high fl now)) < ?room \<or>
         c < last (map fst (leased out)))) (deliverable s high fl now)"
    unfolding ls using picked
      pick_not_full[of "exhausted s" "deliverable s high fl now" ?room]
      pick_full[OF sorted_deliverable, of ?room "exhausted s" s high fl now]
    by (cases "length (filter (\<lambda>c. \<not> exhausted s c) (deliverable s high fl now)) < ?room") (simp_all add: out)
qed

lemma plan_lease_selects_witness:
  "[1, 2] = take (unat (min 2 MAX_LEASE_BATCH))
     (filter (\<lambda>c. \<not> exhausted default_state c) (deliverable default_state 3 0 100))"
  using plan_lease_selects[OF sample_request sample_plan] by simp

text \<open>What a lease hands out: at most what was asked for and at most a batch, in ascending order,
  only retained and published cursors that are not handled and not under an unexpired lease, each
  with its next delivery number, which is within the subscription's limit.\<close>

theorem lease_delivers_safely:
  assumes "lease_request F r n s high fl"
    and "plan_lease r n high fl now mx = Some (Some (x, out))"
  shows "sorted_wrt (<) (map fst (leased out)) \<and> length (leased out) \<le> min (unat mx) 1000 \<and>
    (\<forall>(c, k) \<in> set (leased out). fl < c \<and> c \<le> high \<and> c \<notin> handled s \<and>
      (\<forall>l. fmlookup (leases s) c = Some l \<longrightarrow> expires_at l \<le> now) \<and> k = attempt_count s c + 1 \<and>
      (max_delivery_attempts (policy s) = 0 \<or> k \<le> max_delivery_attempts (policy s)))"
proof -
  obtain ls where out: "leased out = map (\<lambda>c. (c, next_attempt s c)) ls"
    and ls: "set ls \<subseteq> {c. fl < c \<and> c \<le> high \<and> c \<notin> handled s \<and> \<not> withheld s now c \<and> \<not> exhausted s c}"
    and sorted: "sorted_wrt (<) ls" and len: "length ls \<le> unat (min mx MAX_LEASE_BATCH)"
    by (rule planned_leaseE[OF assms]) (use that in simp)
  have "sorted_wrt (<) (map fst (leased out))" using sorted by (simp add: out comp_def)
  moreover have "length (leased out) \<le> min (unat mx) 1000"
    using len by (simp add: out min_def MAX_LEASE_BATCH_def word_le_nat_alt split: if_splits)
  moreover have "fl < c \<and> c \<le> high \<and> c \<notin> handled s \<and>
      (\<forall>l. fmlookup (leases s) c = Some l \<longrightarrow> expires_at l \<le> now) \<and> k = attempt_count s c + 1 \<and>
      (max_delivery_attempts (policy s) = 0 \<or> k \<le> max_delivery_attempts (policy s))"
    if "(c, k) \<in> set (leased out)" for c k
  proof -
    from that have k: "c \<in> set ls" "k = attempt_count s c + 1" by (auto simp: out next_attempt_def)
    with ls have "fl < c" "c \<le> high" "c \<notin> handled s" "\<not> withheld s now c" "\<not> exhausted s c" by blast+
    with k(2) show ?thesis by (auto simp: withheld_def exhausted_def next_attempt_def not_less)
  qed
  ultimately show ?thesis by blast
qed

lemma lease_delivers_safely_witness:
  "sorted_wrt (<) (map fst [(1 :: cursor, 1 :: u32), (2, 1)])"
  using lease_delivers_safely[OF sample_request sample_plan] by simp

text \<open>C28: A lease is exclusive until its deadline and no longer: after it is applied, each cursor it
  handed out is deliverable again exactly from the stamped expiry on, with the next delivery number.
  The expiry is \<open>now\<close> plus the policy's deadline clamped to 1..600 seconds, without wrapping.\<close>

theorem lease_held_until_deadline:
  assumes "lease_request F r n s high fl"
    and "plan_lease r n high fl now mx = Some (Some (x, out))"
    and "reg_get (apply_sub r x) n = Some t" "(c, k) \<in> set (leased out)"
  shows "next_attempt t c = k + 1 \<and> (\<forall>fl' high' later. fl' < c \<longrightarrow> c \<le> high' \<longrightarrow>
    c \<in> set (deliverable t high' fl' later) =
      (min (unat now + unat (min (max (ack_deadline_secs (policy s)) 1) 600)) (2 ^ 64 - 1) \<le> unat later))"
proof (intro conjI allI impI)
  from leased_state[OF assms] have c: "c \<notin> handled t"
    "fmlookup (leases t) c = Some \<lparr>lease_cursor = c, expires_at = lease_expiry s now, lease_attempts = k\<rparr>"
    and k: "attempt_count t c = k" by blast+
  show "next_attempt t c = k + 1" by (simp add: next_attempt_def k)
  fix fl' high' later assume bounds: "fl' < c" "c \<le> high'"
  have held: "withheld t later c \<longleftrightarrow> later < lease_expiry s now"
    using c by (simp add: withheld_def handled_iff)
  have "max (acked t) fl' \<noteq> top_word" by (rule unhandled_top[OF c(1) bounds(1)])
  with bounds show "c \<in> set (deliverable t high' fl' later) =
      (min (unat now + unat (min (max (ack_deadline_secs (policy s)) 1) 600)) (2 ^ 64 - 1) \<le> unat later)"
    using c(1) held by (simp add: set_deliverable not_less lease_expiry_def MAX_ACK_DEADLINE_SECS_def
        word_le_nat_alt unat_sat_add)
qed

lemma lease_held_until_deadline_witness:
  "\<exists>t. reg_get (apply_sub sample_registry sample_lease) ''s'' = Some t \<and> next_attempt t 1 = 2"
proof -
  obtain t where t: "reg_get (apply_sub sample_registry sample_lease) ''s'' = Some t"
    by (simp add: sample_lease_def reg_get_apply)
  show ?thesis using lease_held_until_deadline[OF sample_request sample_plan t, of 1 1] t by simp
qed

text \<open>A lease moves the floor exactly: the cursors handled after it are those handled before, those
  that retention pruned and those it dead-lettered, and the new floor is the end of their contiguous
  run.  So a subscription that lags behind a prune does not stall.\<close>

theorem lease_floor_exact:
  assumes "lease_request F r n s high fl"
    and "plan_lease r n high fl now mx = Some (Some (x, out))"
    and "reg_get (apply_sub r x) n = Some t"
  shows "(c \<le> acked t) = (\<forall>d \<le> c. d \<in> handled s \<or> d \<le> fl \<or> d \<in> set (dead_lettered out))"
proof -
  obtain ls dd na where dd: "dead_lettered out = dd"
    and get: "reg_get (apply_sub r x) n = Some (apply_lease s (map (\<lambda>c. (c, lease_expiry s now)) ls) dd na)"
    and na: "max (acked s) fl \<le> na" "\<And>d. d \<le> na \<Longrightarrow> d \<in> handled s \<or> d \<le> fl \<or> d \<in> set dd"
    by (rule planned_leaseE[OF assms(1,2)]) (rule that, simp_all)
  have "handled t = handled s \<union> set dd \<union> {c. c \<le> na}"
    using get assms(3) by (simp add: handled_apply_lease)
  moreover have "c \<le> fl \<Longrightarrow> c \<le> na" for c using na(1) by (auto intro: order_trans)
  ultimately have "handled t = handled s \<union> {c. c \<le> fl} \<union> set (dead_lettered out)"
    using na(2) unfolding dd by blast
  then show ?thesis using floor_iff[OF planned_lease_inv(1)[OF assms]] by auto
qed

lemma lease_floor_exact_witness:
  "\<exists>t. reg_get (apply_sub poison_registry poison_lease) ''s'' = Some t \<and>
     (1 \<le> acked t) = (\<forall>d \<le> 1. d \<in> handled poison_state \<or> d \<le> 0 \<or> d \<in> {1})"
proof -
  obtain t where t: "reg_get (apply_sub poison_registry poison_lease) ''s'' = Some t"
    by (simp add: poison_lease_def reg_get_apply poison_get)
  show ?thesis using lease_floor_exact[OF poison_request poison_plan t, of 1] t by simp
qed

text \<open>A negative acknowledgement makes its cursor deliverable at once, at the delivery number it
  would have had anyway.\<close>

theorem nack_redelivers:
  assumes "reg_inv r" "reg_get r n = Some s" "fmlookup (leases s) c = Some l"
    and "reg_get (apply_sub r (Nack n c)) n = Some t"
    and "c \<notin> handled s" "fl < c" "c \<le> high"
  shows "c \<in> set (deliverable t high fl now) \<and> next_attempt t c = next_attempt s c"
proof (rule conjI)
  have t: "t = apply_nack s c" using assms(2,4) by (simp add: reg_get_apply)
  then have h: "c \<notin> handled t" using assms(5) by simp
  have "max (acked t) fl \<noteq> top_word"
    using h assms(6) by (rule unhandled_top)
  then show "c \<in> set (deliverable t high fl now)"
    using h assms(3,6,7) by (simp add: set_deliverable) (simp add: t withheld_def apply_nack_def handled_iff)
  show "next_attempt t c = next_attempt s c"
    using assms(3) by (simp add: t next_attempt_def attempt_count_def apply_nack_def)
qed

lemma nack_redelivers_witness:
  "\<exists>t. reg_get (apply_sub poison_registry (Nack ''s'' 1)) ''s'' = Some t \<and> 1 \<in> set (deliverable t 2 0 100)"
proof -
  obtain t where t: "reg_get (apply_sub poison_registry (Nack ''s'' 1)) ''s'' = Some t"
    by (simp add: reg_get_apply poison_get)
  have "fmlookup (leases poison_state) 1 = Some \<lparr>lease_cursor = 1, expires_at = 130, lease_attempts = 1\<rparr>"
    "1 \<notin> handled poison_state"
    by (simp_all add: handled_iff) (simp_all add: poison_state_def)
  then show ?thesis
    using nack_redelivers[OF poison_inv _ _ t, of poison_state _ 0 2 100] t
    by (simp add: poison_get word_le_nat_alt)
qed




end
