(* ===== verification/Owner_Props.thy ===== *)
theory Owner_Props
  imports Service Delivery
begin

text \<open>
  The contract of a topic owner: what an accepted publish stores, retries, authorization, what a lease
  returns, and the system invariant.  A small world and owner serve the witnesses.
\<close>

section \<open>A sample owner\<close>

definition sample_json :: "control_request \<Rightarrow> ingest_request \<Rightarrow> json_codec" where
  "sample_json creq ireq = bare_json\<lparr>ingest_from_json := \<lambda>bs. Inr ireq, control_from_json := \<lambda>bs. Inr creq\<rparr>"

definition sample_world ::
  "control_request \<Rightarrow> ingest_request \<Rightarrow> (node_id, nat list \<times> string list \<times> string option) world" where
  "sample_world creq ireq = \<lparr>hexlib = letter_hex, json = sample_json creq ireq, iamlib = plain_iam,
     log_propose = \<lambda>l x. (apply_log l x, Inr ()), subs_propose = \<lambda>r x. (apply_sub r x, Inr ()),
     live_publish = \<lambda>m. Inr (), revoked_set = Inr [], dlq_open = \<lambda>n. Inr (), dlq_publish = \<lambda>n m. Inr ()\<rparr>"

text \<open>A topic with three empty messages and one subscription.\<close>

definition sample_log :: topic_log where
  "sample_log = replay apply_log empty_log (replicate 3 (Append (new_message letter_hex 0 ''p'' [] 5)))"

definition sample_owner :: owner where
  "sample_owner = \<lparr>own_id = ''o'', topic_name = ''orders'', writer = sample_log, own_subs = sample_registry,
     live_out = [], dlq_out = [], accepted_roots = [], require_cap = False, shutdown = False,
     dedup = new_cache DEDUP_CAPACITY DEDUP_TTL_SECS\<rparr>"

definition list_request :: control_request where "list_request = ListSubscriptions None"

lemma sample_world_ok [simp]: "world_ok (sample_world creq ireq)"
  by (simp add: world_ok_def sample_world_def letter_hex_contract propose_contract_def)

lemma sample_owner_fields [simp]:
  "own_subs sample_owner = sample_registry" "writer sample_owner = sample_log"
  "require_cap sample_owner = False" "dedup sample_owner = new_cache DEDUP_CAPACITY DEDUP_TTL_SECS"
  "topic_name sample_owner = ''orders''" "own_id sample_owner = ''o''"
  by (simp_all add: sample_owner_def)

lemma sample_log_high [simp]: "high_cursor sample_log = 3"
  by (simp add: sample_log_def numeral_3_eq_3 next_cursor_def)

lemma sample_log_floor [simp]: "log_floor sample_log = 0"
  by (simp add: sample_log_def numeral_3_eq_3) (simp add: empty_log_def)

lemma sample_owner_inv [simp]: "owner_inv sample_owner"
proof -
  have "log_inv sample_log"
    unfolding sample_log_def numeral_3_eq_3
    by (intro topic_log.replay_inv log_inv_empty) (simp_all add: log_admissible_def next_cursor_def)
  moreover have "wf_message m" if "m \<in> set (log_messages sample_log)" for m
    using that by (auto simp: sample_log_def numeral_3_eq_3 new_message_def wf_message_def attributes_ok_def
        ordering_key_ok_def letter_hex_def) (auto simp: empty_log_def)
  moreover have "reg_len sample_registry \<le> MAX_SUBSCRIPTIONS"
    by (simp add: reg_len_def sample_registry_def apply_sub.simps empty_registry_def Let_def map_len_upd
        MAX_SUBSCRIPTIONS_def)
  ultimately show ?thesis by (simp add: owner_inv_def)
qed

lemma sample_owner_room [simp]: "cursor_room sample_owner"
  by (simp add: cursor_room_def) (simp add: default_state_def)

section \<open>Helper lemmas\<close>

lemma authorize_dedup [simp]: "authorize W (own\<lparr>dedup := d\<rparr>) = authorize W own"
  by (simp add: authorize_def fun_eq_iff)

lemma ingest_gate_dedup [simp]: "ingest_gate W (own\<lparr>dedup := d\<rparr>) = ingest_gate W own"
  by (simp add: ingest_gate_def fun_eq_iff split: option.split)

lemma ingest_message_dedup [simp]: "ingest_message W (own\<lparr>dedup := d\<rparr>) = ingest_message W own"
  by (simp add: ingest_message_def fun_eq_iff)

lemma ingest_gate_authorized:
  "require_cap own \<Longrightarrow> ingest_gate W own req from now = Inr a \<Longrightarrow>
     \<exists>token. req_grant req = Some token \<and> authorize W own from ABILITY_PUBLISH token now = Inr () \<and> a"
  by (auto simp: ingest_gate_def result_simps split: option.splits)

text \<open>A request whose key is not remembered.\<close>

lemma handle_ingest_fresh:
  assumes "ingest_decode_hex (hexlib W) (json W) payload = Inr req"
    and "cache_get (dedup_key token req) now (dedup own) = (cache, None)"
    and "handle_ingest W own token payload from now = (own', reply)"
  obtains own2 out where "apply_ingest W (own\<lparr>dedup := cache\<rparr>) req from now = (own2, out)"
    and "reply = Some (case out of Inr c \<Rightarrow> Accepted c | Inl why \<Rightarrow> Ingest_rejected why)"
    and "own' = own2\<lparr>dedup := cache_insert (dedup_key token req)
      (case out of Inr c \<Rightarrow> Seen_cursor c | Inl _ \<Rightarrow> Seen_handled) now (dedup own2)\<rparr>"
  using assms
  by (cases "apply_ingest W (own\<lparr>dedup := cache\<rparr>) req from now") (auto simp: handle_ingest_def Let_def)

text \<open>A request whose key is remembered leaves everything but the cache alone.\<close>

lemma handle_ingest_known:
  assumes "ingest_decode_hex (hexlib W) (json W) payload = Inr req"
    and "cache_get (dedup_key token req) now (dedup own) = (cache, Some v)"
  shows "handle_ingest W own token payload from now = (own\<lparr>dedup := cache\<rparr>,
    Some (case v of Seen_cursor c \<Rightarrow> Accepted c | Seen_handled \<Rightarrow> Ingest_rejected Duplicate_request))"
  using assms by (cases v) (simp_all add: handle_ingest_def)

lemma apply_ingest_writer:
  assumes "apply_ingest W own req from now = (own', out)" "writer own' \<noteq> writer own"
  shows "\<exists>a. ingest_gate W own req from now = Inr a"
  using assms by (cases "ingest_gate W own req from now") (auto simp: apply_ingest_def ingest_message_def)

lemma apply_ingest_dedup: "apply_ingest W own req from now = (own', out) \<Longrightarrow> dedup own' = dedup own"
  by (auto simp: apply_ingest_def dest: append_and_fanout_frame split: sum.splits prod.splits)

lemma sample_decode:
  "ingest_decode_hex (hexlib (sample_world creq ireq)) (json (sample_world creq ireq)) '''' = Inr req \<longleftrightarrow>
     req = ireq \<and> length (req_payload_hex ireq) \<le> MAX_INGEST_HEX_BYTES \<and>
     (\<forall>k. req_idempotency_key ireq = Some k \<longrightarrow> length k \<le> MAX_IDEMPOTENCY_KEY_LEN)"
  by (auto simp: ingest_decode_hex_Inr ingest_decode_Inr sample_world_def sample_json_def letter_hex_def)

lemma sample_decode_bare:
  "ingest_decode_hex (hexlib (sample_world creq (bare_request ''''))) (json (sample_world creq (bare_request ''''))) '''' =
     Inr (bare_request '''')"
  by (simp add: sample_decode bare_request_def)

lemma sample_append:
  "\<exists>own'. append_and_fanout (sample_world creq ireq) (sample_owner\<lparr>dedup := d\<rparr>) msg = (own', Inr 4)"
  by (simp add: append_and_fanout_def Let_def next_cursor_def sample_world_def)

lemma sample_publish:
  "\<exists>own'. handle_ingest (sample_world creq (bare_request '''')) sample_owner 7 '''' ''p'' 100 = (own', Some (Accepted 4))"
proof -
  let ?W = "sample_world creq (bare_request '''')"
  have "validate_attributes fmempty = Inr ()" by (simp add: attributes_ok_def)
  then obtain msg where "ingest_message ?W sample_owner (bare_request '''') ''p'' 100 = Inr msg"
    by (simp add: ingest_message_def ingest_gate_def bare_request_def validate_ordering_key_def
        validate_payload_def sample_world_def letter_hex_def)
  then have "\<exists>own'. apply_ingest ?W (sample_owner\<lparr>dedup := d\<rparr>) (bare_request '''') ''p'' 100 = (own', Inr 4)" for d
    using sample_append[of creq "bare_request ''''" d msg] by (auto simp: apply_ingest_def)
  moreover have "cache_get k 100 (new_cache DEDUP_CAPACITY DEDUP_TTL_SECS) = (new_cache DEDUP_CAPACITY DEDUP_TTL_SECS, None)" for k
    by (simp add: cache_get_def new_cache_def)
  moreover obtain own' where "apply_ingest ?W (sample_owner\<lparr>dedup := new_cache DEDUP_CAPACITY DEDUP_TTL_SECS\<rparr>)
      (bare_request []) ''p'' 100 = (own', Inr 4)"
    using calculation(1) by blast
  ultimately show ?thesis
    using sample_decode_bare[of creq] by (simp add: handle_ingest_def Let_def)
qed

text \<open>A gated owner with well-formed node ids, and a token that its library accepts for node 2.\<close>

definition node_text :: "u8 \<Rightarrow> string" where
  "node_text i = hex_encode letter_hex (replicate 32 i)"

definition gated_owner :: owner where
  "gated_owner = sample_owner\<lparr>own_id := node_text 1, require_cap := True\<rparr>"

definition grant_for :: "string \<Rightarrow> string" where
  "grant_for ability = encode_chain plain_iam [(replicate 32 2, [ability], Some ''ord'')]"

definition granted_request :: ingest_request where
  "granted_request = (bare_request '''')\<lparr>req_grant := Some (grant_for ABILITY_PUBLISH)\<rparr>"

lemma parse_node_text:
  assumes "i \<in> {1, 2}"
  shows "parse_node_id letter_hex (node_text i) = Inr (replicate 32 i)"
proof -
  have "nibble 0 = CHR ''a''" "nibble 1 = CHR ''b''" "nibble 2 = CHR ''c''" by code_simp+
  then have "set (node_text i) \<subseteq> {CHR ''a'', CHR ''b'', CHR ''c''}"
    using assms by (auto simp: node_text_def letter_hex_def)
  moreover have "set w \<inter> {CHR ''a'', CHR ''b'', CHR ''c''} = {}" if "w \<in> set white_space" for w
    using that by (auto simp: white_space_def)
  ultimately have "trim (node_text i) = node_text i" by (intro trim_clean) blast
  then show ?thesis
    by (simp add: parse_node_id_def node_text_def hex_contractD(1)[OF letter_hex_contract])
qed

lemma gated_authorize:
  "authorize (sample_world creq ireq) gated_owner (node_text 2) ability (grant_for ability) now = Inr ()"
proof -
  have lib: "hexlib (sample_world creq ireq) = letter_hex" "iamlib (sample_world creq ireq) = plain_iam"
    "revoked_set (sample_world creq ireq) = Inr []"
    by (simp_all add: sample_world_def)
  have "parse_node_id letter_hex (own_id gated_owner) = Inr (replicate 32 1)"
    using parse_node_text[of 1] by (simp add: gated_owner_def)
  moreover have "parse_node_id letter_hex (node_text 2) = Inr (replicate 32 2)"
    using parse_node_text[of 2] by simp
  ultimately show ?thesis
    by (simp add: authorize_def fetch_revoked_def lib List.map_filter_simps verify_link_Inr)
      (simp add: plain_iam_def grant_for_def gated_owner_def topic_allows_def starts_with_def sample_owner_def
        map_replicate_const)
qed

text \<open>What a lease that succeeded did.\<close>

lemma handle_lease_Pulled:
  assumes W: "world_ok W" and own: "owner_inv own" "cursor_room own"
    and s: "reg_get (own_subs own) name = Some s"
    and h: "handle_lease W own name mx now = Some (own', Pulled ms)"
  obtains (Nothing) "plan_lease (own_subs own) name (high_cursor (writer own)) (log_floor (writer own)) now mx = Some None"
    "own' = own" "ms = []"
  | (Leased) x out where
    "plan_lease (own_subs own) name (high_cursor (writer own)) (log_floor (writer own)) now mx = Some (Some (x, out))"
    "own_subs own' = apply_sub (own_subs own) x" "writer own' = writer own"
    "ms = map (\<lambda>p. \<lparr>leased_msg = the (log_get (writer own) (fst p)), delivery_attempt = snd p\<rparr>) (leased out)"
    "\<And>p. p \<in> set (leased out) \<Longrightarrow> log_get (writer own) (fst p) = Some (the (log_get (writer own) (fst p))) \<and>
       msg_cursor (the (log_get (writer own) (fst p))) = fst p"
proof -
  note req = owner_lease_request[OF own s]
  note log = owner_invD(1)[OF own(1)]
  let ?plan = "plan_lease (own_subs own) name (high_cursor (writer own)) (log_floor (writer own)) now mx"
  consider "?plan = Some None" | x out where "?plan = Some (Some (x, out))"
    using h s by (cases ?plan; auto simp: handle_lease_def Let_def split: option.splits)
  then show thesis
  proof cases
    case 1
    with h s have "own' = own" "ms = []" by (simp_all add: handle_lease_def Let_def)
    with 1 show thesis by (rule Nothing)
  next
    case (2 x out)
    obtain r res where p: "subs_propose W (own_subs own) x = (r, res)" by fastforce
    obtain u where res: "res = Inr u"
      using h s 2 p by (cases res) (auto simp: handle_lease_def Let_def)
    then have r: "r = apply_sub (own_subs own) x"
      using propose_contractD(1)[OF world_okD(3)[OF W] p] by simp
    have range: "log_floor (writer own) < fst q \<and> fst q \<le> high_cursor (writer own)" if "q \<in> set (leased out)" for q
      by (rule planned_leaseE[OF req 2]) (use that in auto)
    note resolve = topic_store.resolve_all[OF log, of "leased out" fst, OF range]
    have "writer own' = writer own" "own_subs own' = apply_sub (own_subs own) x"
      "ms = List.map_filter (\<lambda>q. map_option (\<lambda>m. \<lparr>leased_msg = m, delivery_attempt = snd q\<rparr>)
        (log_get (writer own) (fst q))) (leased out)"
      using h s 2 p res r by (auto simp: handle_lease_def Let_def case_prod_unfold)
    with resolve show thesis by (intro Leased[OF 2]) simp_all
  qed
qed

lemma owner_plan_returns:
  assumes "owner_inv own" "cursor_room own"
  shows "plan_lease (own_subs own) name (high_cursor (writer own)) (log_floor (writer own)) now mx \<noteq> None"
proof (cases "reg_get (own_subs own) name")
  case (Some s)
  note req = owner_lease_request[OF assms Some]
  then have s0: "zero_free s" "high_cursor (writer own) \<noteq> top_word"
    by (auto simp: lease_request_def dest: sub_invD)
  show ?thesis
    by (rule plan_lease_cases[OF Some s0 lease_request_top[OF req], of now mx]) simp_all
qed (simp add: plan_lease_def)

lemma handle_lease_returns:
  assumes "owner_inv own" "cursor_room own"
  shows "handle_lease W own name mx now \<noteq> None"
  using owner_plan_returns[OF assms, of name now mx]
  by (auto simp: handle_lease_def Let_def split: option.splits sum.splits prod.splits)

lemma handle_lease_dlq:
  assumes "handle_lease W own name mx now = Some (own', Pulled ms)"
    and "plan_lease (own_subs own) name (high_cursor (writer own)) (log_floor (writer own)) now mx = Some (Some (x, out))"
    and "reg_get (own_subs own) name = Some s"
  defines "stream \<equiv> live_stream_name (dead_letter_topic (topic_name own)) (own_id own)"
  shows "dlq_out own' = dlq_out own @ (if is_ok (dlq_open W stream) then map (Pair stream)
    (filter (\<lambda>m. is_ok (dlq_publish W stream m)) (List.map_filter (log_get (writer own)) (dead_lettered out))) else [])"
proof -
  obtain r res where p: "subs_propose W (own_subs own) x = (r, res)" by fastforce
  with assms(1-3) have own': "own' = (if dead_lettered out \<noteq> []
      then route_dead_letters W (own\<lparr>own_subs := r\<rparr>) (dead_lettered out) else own\<lparr>own_subs := r\<rparr>)"
    by (cases res) (simp_all add: handle_lease_def Let_def)
  show ?thesis
    by (cases "dlq_open W stream")
      (simp_all add: own' route_dead_letters_def Let_def stream_def List.map_filter_simps)
qed

lemma handle_lease_replies:
  assumes "subs_propose W = (\<lambda>r x. (apply_sub r x, Inr ()))"
    and "handle_lease W own name mx now = Some (own', reply)" "reg_get (own_subs own) name \<noteq> None"
  shows "\<exists>ms. reply = Pulled ms"
  using assms by (auto simp: handle_lease_def Let_def split: option.splits)

lemma sample_lease_again:
  "\<exists>own1 ms own2 ms'. handle_lease (sample_world list_request (bare_request '''')) sample_owner ''s'' 2 100 =
      Some (own1, Pulled ms) \<and> owner_inv own1 \<and> cursor_room own1 \<and> ms \<noteq> [] \<and>
    handle_lease (sample_world list_request (bare_request '''')) own1 ''s'' 2 110 = Some (own2, Pulled ms')"
proof -
  let ?W = "sample_world list_request (bare_request [])"
  have applies: "subs_propose ?W = (\<lambda>r x. (apply_sub r x, Inr ()))" by (simp add: sample_world_def)
  obtain own1 ms where h: "handle_lease ?W sample_owner ''s'' 2 100 = Some (own1, Pulled ms)"
    using sample_plan by (simp add: handle_lease_def Let_def) (simp add: sample_world_def)
  have s: "reg_get (own_subs sample_owner) ''s'' = Some default_state" by simp
  have own1: "own_subs own1 = apply_sub sample_registry sample_lease" "ms \<noteq> []"
    by (rule handle_lease_Pulled[OF sample_world_ok sample_owner_inv sample_owner_room s h];
        use sample_plan in auto)+
  have eff: "writer own1 = sample_log" "subs_progress 3 sample_registry (own_subs own1)"
    "dedup own1 = dedup sample_owner"
    using handle_lease_effect[OF sample_world_ok sample_owner_inv sample_owner_room h] by simp_all
  have inv: "owner_inv own1"
    using subs_progress_inv[OF eff(2) sample_inv] owner_invD(4)[OF sample_owner_inv] sample_owner_inv
    unfolding owner_inv_def eff(1,3) by simp
  have room: "cursor_room own1"
    by (simp add: cursor_room_def eff(1) own1(1) sample_lease_def reg_get_apply apply_lease_fields)
      (simp add: default_state_def)
  obtain own2 reply where h2: "handle_lease ?W own1 ''s'' 2 110 = Some (own2, reply)"
    using handle_lease_returns[OF inv room, of ?W "''s''" 2 110] by auto
  have "reg_get (own_subs own1) ''s'' \<noteq> None" by (simp add: own1(1) sample_lease_def reg_get_apply)
  from handle_lease_replies[OF applies h2 this] h h2 inv room own1(2) show ?thesis by blast
qed

definition poison_owner :: owner where
  "poison_owner = sample_owner\<lparr>own_subs := poison_registry\<rparr>"

definition sample_message :: app_message where
  "sample_message = \<lparr>am_topic = control_topic ''orders'', am_reply_token = Some 5, am_payload_hex = '''',
     am_from = ''c''\<rparr>"

lemma poison_owner_inv: "owner_inv poison_owner"
  using sample_owner_inv poison_inv
  by (simp add: owner_inv_def poison_owner_def)
    (simp add: reg_len_def poison_registry_def map_len_upd MAX_SUBSCRIPTIONS_def)

lemma poison_owner_room: "cursor_room poison_owner"
  by (simp add: cursor_room_def poison_owner_def poison_get) (simp add: poison_state_def)

section \<open>Properties\<close>

text \<open>C6: The system invariant: along every interleaving of requests and owner calls, from an owner that
  satisfies it, the log is numbered without gaps, every stored message is within the bounds of the
  message model, the registry holds at most 10000 subscriptions, and the de-duplication cache stays
  within its capacity.\<close>

theorem owner_invariant:
  assumes "\<forall>W \<in> Ws. world_ok W" "owner_inv own0" "reachable Ws own0 own"
  shows "log_inv (writer own) \<and> reg_inv (own_subs own) \<and> (\<forall>m \<in> set (log_messages (writer own)).
      attributes_ok (attributes m) \<and> ordering_key_ok (ordering_key m) \<and> length (payload_hex m) \<le> 20971520) \<and>
    reg_len (own_subs own) \<le> 10000 \<and> cache_len (dedup own) \<le> cache_capacity (dedup own)"
  using owner_invD[OF reachable_inv[OF assms]]
  by (simp_all add: wf_message_def MAX_PAYLOAD_BYTES_def MAX_SUBSCRIPTIONS_def cache_inv_def bounded_def
      cache_len_def)

lemma owner_invariant_witness:
  "\<exists>own. own \<noteq> sample_owner \<and>
     reachable {sample_world list_request (bare_request '''')} sample_owner own \<and> log_inv (writer own)"
proof -
  let ?W = "sample_world list_request (bare_request '''')"
  obtain own res where p: "publish ?W sample_owner [1] 7 = (own, res)" by fastforce
  have "writer own = apply_log sample_log (Append (authenticated (new_message letter_hex 4 ''o'' [1] 7) True))"
    using p by (auto simp: publish_def append_and_fanout_def Let_def validate_payload_def MAX_PAYLOAD_BYTES_def
        sample_world_def apply_log.simps authenticated_def new_message_def)
  then have "log_messages (writer own) \<noteq> log_messages sample_log" by simp
  then have ne: "own \<noteq> sample_owner" by auto
  have r: "reachable {?W} sample_owner own"
    by (intro reachable.Step[OF reachable.Start sample_owner_room] owner_step.Publish[OF _ p]) simp
  show ?thesis using owner_invariant[OF _ sample_owner_inv r] ne r by auto
qed



text \<open>A retry is idempotent: when a request has been handled, repeating it under the same key within
  the time limit appends nothing and broadcasts nothing; a publish that was accepted is accepted again
  with the original cursor, one that was rejected is rejected as a duplicate.\<close>

theorem retry_appends_nothing:
  assumes "ingest_decode_hex (hexlib W) (json W) payload = Inr req"
    and "snd (cache_get (dedup_key token req) now (dedup own)) = None"
    and "handle_ingest W own token payload from now = (own1, Some reply)"
    and "ingest_decode_hex (hexlib W') (json W') payload' = Inr req'"
    and "dedup_key token' req' = dedup_key token req"
    and "cache_ttl (dedup own) = 0 \<or> unat now' - unat now \<le> unat (cache_ttl (dedup own))"
  shows "handle_ingest W' own1 token' payload' from' now' =
    (own1, Some (case reply of Accepted c \<Rightarrow> Accepted c | Ingest_rejected _ \<Rightarrow> Ingest_rejected Duplicate_request))"
proof -
  let ?key = "dedup_key token req"
  obtain cache where g: "cache_get ?key now (dedup own) = (cache, None)"
    using assms(2) by (metis prod.collapse)
  obtain own2 out where a: "apply_ingest W (own\<lparr>dedup := cache\<rparr>) req from now = (own2, out)"
    and out: "Some reply = Some (case out of Inr c \<Rightarrow> Accepted c | Inl why \<Rightarrow> Ingest_rejected why)"
    and own1: "own1 = own2\<lparr>dedup := cache_insert ?key
      (case out of Inr c \<Rightarrow> Seen_cursor c | Inl _ \<Rightarrow> Seen_handled) now (dedup own2)\<rparr>"
    by (rule handle_ingest_fresh[OF assms(1) g assms(3)])
  let ?seen = "case out of Inr c \<Rightarrow> Seen_cursor c | Inl _ \<Rightarrow> Seen_handled"
  have d: "dedup own2 = cache" using apply_ingest_dedup[OF a] by simp
  have "cache_live (dedup own) now now'"
    using assms(6) by (simp add: cache_live_def word_le_nat_alt unat_sat_sub)
  from ingest_store.retry[OF this, of ?key ?seen]
  have "cache_get ?key now' (dedup own1) = (dedup own1, Some ?seen)" by (simp add: own1 d g)
  then have "handle_ingest W' own1 token' payload' from' now' = (own1\<lparr>dedup := dedup own1\<rparr>,
      Some (case ?seen of Seen_cursor c \<Rightarrow> Accepted c | Seen_handled \<Rightarrow> Ingest_rejected Duplicate_request))"
    by (intro handle_ingest_known[OF assms(4)]) (simp add: assms(5))
  then show ?thesis using out by (cases out) simp_all
qed

lemma retry_appends_nothing_witness:
  "\<exists>own1. handle_ingest (sample_world list_request (bare_request '''')) own1 7 '''' ''p'' 130 = (own1, Some (Accepted 4))"
proof -
  obtain own1 where h: "handle_ingest (sample_world list_request (bare_request '''')) sample_owner 7 '''' ''p'' 100 =
     (own1, Some (Accepted 4))"
    using sample_publish by blast
  show ?thesis
    using retry_appends_nothing[OF sample_decode_bare _ h sample_decode_bare refl, of 130]
    by (auto simp: cache_get_def new_cache_def DEDUP_TTL_SECS_def)
qed

text \<open>C21: Authorization is exact and fails closed: a grant is accepted exactly if both node ids parse, the
  revocation set could be read, the chain check accepts the decoded chain with that set, and the last
  link's scope is a prefix of the topic.\<close>

theorem authorize_exact:
  "(authorize W own from ability token now = Inr ()) =
     (\<exists>requester self_id entries chain scope rest.
        parse_node_id (hexlib W) from = Inr requester \<and> parse_node_id (hexlib W) (own_id own) = Inr self_id \<and>
        revoked_set W = Inr entries \<and> decode_chain (iamlib W) token = Inr chain \<and> chain \<noteq> [] \<and>
        authorize_chain (iamlib W) self_id (accepted_roots own) [] now requester ability chain
          (\<lambda>issuer nonce. \<exists>h. (h, nonce) \<in> set entries \<and> parse_node_id (hexlib W) h = Inr issuer) = Inr () \<and>
        cap_path_prefix (iamlib W) (last chain) = Some scope \<and> topic_name own = scope @ rest)"
proof -
  have mem: "(issuer, nonce) \<in> set (List.map_filter (\<lambda>(issuer_hex, nonce).
      case parse_node_id (hexlib W) issuer_hex of Inr i \<Rightarrow> Some (i, nonce) | Inl _ \<Rightarrow> None) entries) \<longleftrightarrow>
      (\<exists>h. (h, nonce) \<in> set entries \<and> parse_node_id (hexlib W) h = Inr issuer)" for issuer nonce entries
    by (force simp: List.map_filter_def split: sum.splits)
  show ?thesis
    by (simp only: authorize_def fetch_revoked_def result_simps verify_link_Inr topic_allows_iff
        sum.inject ex_simps simp_thms mem) (auto simp: mem)
qed

text \<open>A gated topic appends only for authorized publishers: when a capability is required, the log
  changes only for a request that carries a grant which authorizes the sender to publish.\<close>

theorem gated_append_authorized:
  assumes "require_cap own" "handle_ingest W own token payload from now = (own', reply)"
    and "writer own' \<noteq> writer own"
  shows "\<exists>req grant. ingest_decode_hex (hexlib W) (json W) payload = Inr req \<and> req_grant req = Some grant \<and>
    authorize W own from ABILITY_PUBLISH grant now = Inr ()"
proof (cases "ingest_decode_hex (hexlib W) (json W) payload")
  case (Inr req)
  obtain cache found where g: "cache_get (dedup_key token req) now (dedup own) = (cache, found)" by fastforce
  show ?thesis
  proof (cases found)
    case (Some v)
    with assms(2,3) handle_ingest_known[OF Inr, of token now own cache v] g show ?thesis by auto
  next
    case None
    obtain own2 out where a: "apply_ingest W (own\<lparr>dedup := cache\<rparr>) req from now = (own2, out)"
      and "writer own' = writer own2"
      by (rule handle_ingest_fresh[OF Inr g[unfolded None] assms(2)]) (use that in simp)
    then obtain x where "ingest_gate W own req from now = Inr x"
      using apply_ingest_writer[OF a] assms(3) by auto
    from ingest_gate_authorized[OF assms(1) this] Inr show ?thesis by blast
  qed
qed (use assms(2,3) in \<open>simp add: handle_ingest_def\<close>)

text \<open>A gated topic serves consumers only with a subscribe grant: when a capability is required, a
  control request changes the owner's state, or returns messages or subscription names, only if it
  carries a grant that authorizes the requester to subscribe.\<close>

theorem gated_control_authorized:
  assumes "require_cap own" "handle_control W own payload requester now = Some (own', reply)"
    and "own' \<noteq> own \<or> (\<exists>ms. reply = Pulled ms) \<or> (\<exists>ns. reply = Subscriptions ns)"
  shows "\<exists>bs req grant. hex_decode (hexlib W) payload = Inr bs \<and> control_decode (json W) bs = Inr req \<and>
    request_grant req = Some grant \<and> authorize W own requester ABILITY_SUBSCRIBE grant now = Inr ()"
  using assms(2)
proof (cases rule: handle_control_cases)
  case Unserved
  with assms(3) show ?thesis by auto
next
  case (Served bs req)
  with assms(1) show ?thesis by (auto simp: control_gate_def split: option.splits)
qed

lemma gated_control_authorized_witness:
  "\<exists>(req :: control_request) grant. request_grant req = Some grant \<and>
     authorize (sample_world (ListSubscriptions (Some (grant_for ABILITY_SUBSCRIBE))) (bare_request '''')) gated_owner
       (node_text 2) ABILITY_SUBSCRIBE grant 100 = Inr ()"
proof -
  let ?req = "ListSubscriptions (Some (grant_for ABILITY_SUBSCRIBE))"
  let ?W = "sample_world ?req (bare_request [])"
  have "control_gate ?W gated_owner ?req (node_text 2) 100 = Inr ()"
    using gated_authorize[of ?req "bare_request []" ABILITY_SUBSCRIBE 100]
    by (simp add: control_gate_def gated_owner_def)
  moreover have "hex_decode (hexlib ?W) '''' = Inr []" "control_decode (json ?W) [] = Inr ?req"
    by (simp_all add: sample_world_def letter_hex_def sample_json_def control_decode_def)
  ultimately have h: "handle_control ?W gated_owner '''' (node_text 2) 100 =
      Some (gated_owner, Subscriptions (reg_names (own_subs gated_owner)))"
    by (simp add: handle_control_def is_high_cursor_def)
  have "require_cap gated_owner" by (simp add: gated_owner_def)
  from gated_control_authorized[OF this h] show ?thesis by auto
qed

lemma gated_append_authorized_witness:
  "\<exists>own' reply. handle_ingest (sample_world list_request granted_request) gated_owner 7 '''' (node_text 2) 100 =
     (own', reply) \<and> writer own' \<noteq> writer gated_owner \<and>
     (\<exists>(req :: ingest_request) grant. req_grant req = Some grant \<and>
       authorize (sample_world list_request granted_request) gated_owner (node_text 2) ABILITY_PUBLISH grant 100 = Inr ())"
proof -
  let ?W = "sample_world list_request granted_request"
  obtain own' reply where h: "handle_ingest ?W gated_owner 7 '''' (node_text 2) 100 = (own', reply)" by fastforce
  have dec: "ingest_decode_hex (hexlib ?W) (json ?W) '''' = Inr granted_request"
    by (simp add: sample_decode granted_request_def bare_request_def)
  have gate: "ingest_gate ?W gated_owner granted_request (node_text 2) 100 = Inr True"
    using gated_authorize[of list_request granted_request ABILITY_PUBLISH 100]
    by (simp add: ingest_gate_def gated_owner_def granted_request_def)
  have "validate_attributes fmempty = Inr ()" by (simp add: attributes_ok_def)
  with gate obtain msg where msg: "ingest_message ?W gated_owner granted_request (node_text 2) 100 = Inr msg"
    by (simp add: ingest_message_def granted_request_def bare_request_def validate_ordering_key_def
        validate_payload_def sample_world_def letter_hex_def)
  have "cache_get k 100 (dedup gated_owner) = (dedup gated_owner, None)" for k
    by (simp add: gated_owner_def cache_get_def new_cache_def)
  then have "log_messages (writer own') = log_messages sample_log @ [msg\<lparr>msg_cursor := 4\<rparr>]"
    using h dec msg
    by (auto simp: handle_ingest_def Let_def apply_ingest_def append_and_fanout_def next_cursor_def
        gated_owner_def sample_world_def split: prod.splits)
  then have "writer own' \<noteq> writer gated_owner" by (auto simp: gated_owner_def)
  moreover have rc: "require_cap gated_owner" by (simp add: gated_owner_def)
  moreover from calculation(1) have "\<exists>(req :: ingest_request) grant. req_grant req = Some grant \<and>
      authorize ?W gated_owner (node_text 2) ABILITY_PUBLISH grant 100 = Inr ()"
    by (rule gated_append_authorized[OF rc h, THEN exE]) blast
  ultimately show ?thesis using h by blast
qed

text \<open>C9: A lease reply is exact: the messages returned are the first deliverable ones below their
  delivery limit, in cursor order, as many as were asked for and at most a batch; each is the stored
  message at its cursor with its delivery number, and none that was leased is missing.\<close>

theorem lease_reply_exact:
  assumes "world_ok W" "owner_inv own" "cursor_room own" "reg_get (own_subs own) name = Some s"
    and "handle_lease W own name mx now = Some (own', Pulled ms)"
  shows "map (\<lambda>m. msg_cursor (leased_msg m)) ms = take (unat (min mx MAX_LEASE_BATCH))
      (filter (\<lambda>c. \<not> exhausted s c) (deliverable s (high_cursor (writer own)) (log_floor (writer own)) now)) \<and>
    (\<forall>m \<in> set ms. log_get (writer own) (msg_cursor (leased_msg m)) = Some (leased_msg m) \<and>
      delivery_attempt m = attempt_count s (msg_cursor (leased_msg m)) + 1)"
proof -
  note req = owner_lease_request[OF assms(2,3,4)]
  have s0: "zero_free s" "high_cursor (writer own) \<noteq> top_word"
    using req by (auto simp: lease_request_def dest: sub_invD)
  let ?ls = "fst (lease_picked s (high_cursor (writer own)) (log_floor (writer own)) now mx)"
  have ls: "?ls = take (unat (min mx MAX_LEASE_BATCH))
      (filter (\<lambda>c. \<not> exhausted s c) (deliverable s (high_cursor (writer own)) (log_floor (writer own)) now))"
    by (simp add: lease_picked_def pick_fst)
  have "map (\<lambda>m. msg_cursor (leased_msg m)) ms = ?ls \<and> (\<forall>m \<in> set ms.
      log_get (writer own) (msg_cursor (leased_msg m)) = Some (leased_msg m) \<and>
      delivery_attempt m = attempt_count s (msg_cursor (leased_msg m)) + 1)"
    using assms
  proof (cases rule: handle_lease_Pulled)
    case Nothing
    have "?ls = []"
      by (rule plan_lease_cases[OF assms(4) s0 lease_request_top[OF req], of now mx]) (use Nothing in simp_all)
    with Nothing show ?thesis by simp
  next
    case (Leased x out)
    have out: "leased out = map (\<lambda>c. (c, next_attempt s c)) ?ls"
      by (rule planned_leaseE[OF req Leased(1)]) simp
    have "map (\<lambda>m. msg_cursor (leased_msg m)) ms = map fst (leased out)"
      using Leased(5) by (simp add: Leased(4) comp_def)
    moreover have "map fst (leased out) = ?ls" by (simp add: out comp_def)
    moreover have "k = attempt_count s c + 1" if "(c, k) \<in> set (leased out)" for c k
      using that by (auto simp: out next_attempt_def)
    ultimately show ?thesis using Leased(5) by (auto simp: Leased(4))
  qed
  then show ?thesis by (simp add: ls)
qed

lemma lease_reply_exact_witness:
  "\<exists>own' ms. handle_lease (sample_world list_request (bare_request '''')) sample_owner ''s'' 2 100 =
     Some (own', Pulled ms) \<and> ms \<noteq> [] \<and> (\<forall>m \<in> set ms. log_get sample_log (msg_cursor (leased_msg m)) = Some (leased_msg m))"
proof -
  let ?W = "sample_world list_request (bare_request [])"
  obtain own' ms where h: "handle_lease ?W sample_owner ''s'' 2 100 = Some (own', Pulled ms)"
    using sample_plan by (simp add: handle_lease_def Let_def) (simp add: sample_world_def)
  have s: "reg_get (own_subs sample_owner) ''s'' = Some default_state" by simp
  have "ms \<noteq> []"
    by (rule handle_lease_Pulled[OF sample_world_ok sample_owner_inv sample_owner_room s h])
      (use sample_plan in auto)
  then show ?thesis
    using lease_reply_exact[OF sample_world_ok sample_owner_inv sample_owner_room s h] h by auto
qed

text \<open>Two leases do not overlap: a message that one lease returned is not returned by another at an
  earlier time than its deadline.\<close>

theorem concurrent_leases_disjoint:
  assumes "world_ok W" "owner_inv own" "cursor_room own" "reg_get (own_subs own) name = Some s"
    and "handle_lease W own name mx now = Some (own1, Pulled ms)"
    and "world_ok W'" "owner_inv own1" "cursor_room own1"
    and "handle_lease W' own1 name mx' now' = Some (own2, Pulled ms')"
    and "unat now' < min (unat now + unat (min (max (ack_deadline_secs (policy s)) 1) 600)) (2 ^ 64 - 1)"
  shows "(\<lambda>m. msg_cursor (leased_msg m)) ` set ms \<inter> (\<lambda>m. msg_cursor (leased_msg m)) ` set ms' = {}"
  using assms(1-5)
proof (cases rule: handle_lease_Pulled)
  case (Leased x out)
  note req = owner_lease_request[OF assms(2,3,4)]
  obtain t where t: "reg_get (own_subs own1) name = Some t"
    by (rule planned_leaseE[OF req Leased(1)]) (simp add: Leased(2))
  note req' = owner_lease_request[OF assms(7,8) t]
  have held: "withheld t now' (fst p)" if "p \<in> set (leased out)" for p
  proof -
    have "fmlookup (leases t) (fst p) =
        Some \<lparr>lease_cursor = fst p, expires_at = lease_expiry s now, lease_attempts = snd p\<rparr>"
      using leased_state[OF req Leased(1) t[unfolded Leased(2)], of "fst p" "snd p"] that by simp
    moreover have "now' < lease_expiry s now"
      using assms(10) by (simp add: lease_expiry_def MAX_ACK_DEADLINE_SECS_def word_less_nat_alt unat_sat_add)
    ultimately show ?thesis by (simp add: withheld_def)
  qed
  have cursors: "(\<lambda>m. msg_cursor (leased_msg m)) ` set ms = fst ` set (leased out)"
    using Leased(5) by (auto simp: Leased(4) image_image intro!: image_cong)
  show ?thesis using assms(6-8) t assms(9)
  proof (cases rule: handle_lease_Pulled)
    case (Leased x' out')
    have free: "\<not> withheld t now' (fst p)" if "p \<in> set (leased out')" for p
      by (rule planned_leaseE[OF req' Leased(1)]) (use that in auto)
    have "fst p \<noteq> fst q" if "p \<in> set (leased out)" "q \<in> set (leased out')" for p q
      using held[OF that(1)] free[OF that(2)] by auto
    moreover have "(\<lambda>m. msg_cursor (leased_msg m)) ` set ms' = fst ` set (leased out')"
      using Leased(5) by (auto simp: Leased(4) image_image intro!: image_cong)
    ultimately show ?thesis unfolding cursors by blast
  qed simp
qed simp

lemma concurrent_leases_disjoint_witness:
  "\<exists>own1 ms own2 ms'. handle_lease (sample_world list_request (bare_request '''')) sample_owner ''s'' 2 100 =
      Some (own1, Pulled ms) \<and> ms \<noteq> [] \<and>
    handle_lease (sample_world list_request (bare_request '''')) own1 ''s'' 2 110 = Some (own2, Pulled ms') \<and>
    (\<lambda>m. msg_cursor (leased_msg m)) ` set ms \<inter> (\<lambda>m. msg_cursor (leased_msg m)) ` set ms' = {}"
proof -
  let ?W = "sample_world list_request (bare_request [])"
  obtain own1 ms own2 ms' where h: "handle_lease ?W sample_owner ''s'' 2 100 = Some (own1, Pulled ms)"
    "owner_inv own1" "cursor_room own1" "ms \<noteq> []" "handle_lease ?W own1 ''s'' 2 110 = Some (own2, Pulled ms')"
    using sample_lease_again by blast
  have s: "reg_get (own_subs sample_owner) ''s'' = Some default_state" by simp
  have "ack_deadline_secs (policy default_state) = 30"
    by (simp add: default_state_def default_policy_def DEFAULT_ACK_DEADLINE_SECS_def)
  then have "(\<lambda>m. msg_cursor (leased_msg m)) ` set ms \<inter> (\<lambda>m. msg_cursor (leased_msg m)) ` set ms' = {}"
    by (intro concurrent_leases_disjoint[OF sample_world_ok sample_owner_inv sample_owner_room s h(1)
          sample_world_ok h(2,3,5)]) (simp add: min_def max_def word_le_nat_alt)
  with h show ?thesis by blast
qed

text \<open>C32: Every control request is answered: while the range of cursors is not used up, the handler
  returns, and a request for the highest cursor is answered with it, gated or not.\<close>

theorem control_always_answers:
  assumes "owner_inv own" "cursor_room own"
  shows "(\<exists>own' reply. handle_control W own payload requester now = Some (own', reply)) \<and>
    (\<forall>bs g. hex_decode (hexlib W) payload = Inr bs \<longrightarrow> control_decode (json W) bs = Inr (HighCursor g) \<longrightarrow>
      handle_control W own payload requester now = Some (own, High (high_cursor (writer own))))"
proof -
  have "serve_request W own req now \<noteq> None" for req
    using handle_lease_returns[OF assms] by (cases req) (auto split: sum.splits)
  then have "handle_control W own payload requester now \<noteq> None"
    by (simp add: handle_control_def split: sum.splits)
  then show ?thesis by (auto simp: handle_control_def is_high_cursor_def)
qed

lemma control_always_answers_witness:
  "\<exists>own' reply. handle_control (sample_world (Pull ''s'' 2 None) (bare_request '''')) sample_owner '''' ''c'' 100 =
     Some (own', reply)"
  using control_always_answers[OF sample_owner_inv sample_owner_room] by blast

text \<open>C33: Dead letters are routed: when a lease succeeds and the dead-letter stream takes every message, the
  messages published on it are exactly the stored ones at the dead-lettered cursors, in cursor order.\<close>

theorem dead_letters_routed:
  assumes "world_ok W" "owner_inv own" "cursor_room own" "reg_get (own_subs own) name = Some s"
    and "handle_lease W own name mx now = Some (own', Pulled ms)"
    and "\<forall>n. dlq_open W n = Inr ()" "\<forall>n m. dlq_publish W n m = Inr ()"
  shows "\<exists>letters. dlq_out own' = dlq_out own @
      map (Pair (live_stream_name (dead_letter_topic (topic_name own)) (own_id own))) letters \<and>
    map msg_cursor letters =
      snd (lease_picked s (high_cursor (writer own)) (log_floor (writer own)) now mx) \<and>
    (\<forall>m \<in> set letters. log_get (writer own) (msg_cursor m) = Some m)"
  using assms(1-5)
proof (cases rule: handle_lease_Pulled)
  case Nothing
  note req = owner_lease_request[OF assms(2-4)]
  have s0: "zero_free s" "high_cursor (writer own) \<noteq> top_word"
    using req by (auto simp: lease_request_def dest: sub_invD)
  have "lease_picked s (high_cursor (writer own)) (log_floor (writer own)) now mx = ([], [])"
    by (rule plan_lease_cases[OF assms(4) s0 lease_request_top[OF req], of now mx]) (use Nothing(1) in simp_all)
  with Nothing(2) show ?thesis by simp
next
  case (Leased x out)
  note req = owner_lease_request[OF assms(2-4)]
  let ?dd = "dead_lettered out"
  have dd: "snd (lease_picked s (high_cursor (writer own)) (log_floor (writer own)) now mx) = ?dd"
    and range: "c \<in> set ?dd \<Longrightarrow> log_floor (writer own) < c \<and> c \<le> high_cursor (writer own)" for c
    by (rule planned_leaseE[OF req Leased(1)]; auto)+
  note resolve = topic_store.resolve_all[OF owner_invD(1)[OF assms(2)], of ?dd "\<lambda>c. c", OF range]
  let ?letters = "map (\<lambda>c. the (log_get (writer own) c)) ?dd"
  have letters: "List.map_filter (log_get (writer own)) ?dd = ?letters"
    using resolve(2) by (intro map_filter_Some) simp
  have "dlq_out own' = dlq_out own @
      map (Pair (live_stream_name (dead_letter_topic (topic_name own)) (own_id own))) ?letters"
    using handle_lease_dlq[OF assms(5) Leased(1) assms(4)] assms(6,7) letters by simp
  moreover have "map msg_cursor ?letters = ?dd" using resolve(3) by (simp add: comp_def map_idI)
  ultimately show ?thesis using resolve(2,3) unfolding dd by (intro exI[of _ ?letters]) simp
qed

lemma dead_letters_routed_witness:
  "\<exists>own' ms letters. handle_lease (sample_world list_request (bare_request '''')) poison_owner ''s'' 5 200 =
      Some (own', Pulled ms) \<and>
    map msg_cursor letters = snd (lease_picked poison_state 3 0 200 5) \<and> map snd (dlq_out own') = letters"
proof -
  let ?W = "sample_world list_request (bare_request [])"
  obtain own' reply where h: "handle_lease ?W poison_owner ''s'' 5 200 = Some (own', reply)"
    using handle_lease_returns[OF poison_owner_inv poison_owner_room, of ?W "''s''" 5 200] by auto
  have s: "reg_get (own_subs poison_owner) ''s'' = Some poison_state"
    by (simp add: poison_owner_def poison_get)
  then obtain ms where reply: "reply = Pulled ms"
    using h by (auto simp: handle_lease_def Let_def sample_world_def split: option.splits)
  have "\<forall>n. dlq_open ?W n = Inr ()" "\<forall>n m. dlq_publish ?W n m = Inr ()"
    by (simp_all add: sample_world_def)
  from dead_letters_routed[OF sample_world_ok poison_owner_inv poison_owner_room s h[unfolded reply] this]
  obtain letters where "dlq_out own' = dlq_out poison_owner @
      map (Pair (live_stream_name (dead_letter_topic (topic_name poison_owner)) (own_id poison_owner))) letters"
    "map msg_cursor letters = snd (lease_picked poison_state 3 0 200 5)"
    by (auto simp: poison_owner_def)
  moreover have "dlq_out poison_owner = []" by (simp add: poison_owner_def sample_owner_def)
  ultimately show ?thesis using h reply by (simp add: comp_def)
qed

text \<open>A control message is handled once: a message with a reply token that was served is skipped,
  without a state change or a reply, when it is delivered again within the time limit.\<close>

theorem control_message_handled_once:
  assumes "serve_control_message W (own, hs) m now = Some ((own1, hs1), reply)"
    and "am_reply_token m = Some token" "am_topic m = control_topic (topic_name own)"
    and "\<not> snd (token_seen token now hs)" "topic_name own1 = topic_name own"
    and "token_ttl hs = 0 \<or> unat now' - unat now \<le> unat (token_ttl hs)"
  shows "serve_control_message W' (own1, hs1) m now' = Some ((own1, hs1), None)"
proof -
  have hs1: "hs1 = fst (token_seen token now hs)"
    using assms(1-4) by (auto simp: serve_control_message_def Let_def split: prod.splits option.splits)
  have "token_seen token now' hs1 = (hs1, True)"
    unfolding hs1 by (rule token_seen_again[OF assms(6,4)])
  then show ?thesis using assms(2,3,5) by (simp add: serve_control_message_def)
qed

lemma control_message_handled_once_witness:
  "\<exists>own1 hs1. serve_control_message (sample_world list_request (bare_request '''')) (own1, hs1) sample_message 150 =
     Some ((own1, hs1), None) \<and> own_subs own1 = sample_registry"
proof -
  let ?W = "sample_world list_request (bare_request [])" and ?hs = "new_token_set DEDUP_CAPACITY DEDUP_TTL_SECS"
  have new: "\<not> snd (token_seen 5 100 ?hs)" by (simp add: token_seen_def new_token_set_def)
  have "hex_decode (hexlib ?W) '''' = Inr []" "control_decode (json ?W) [] = Inr list_request"
    by (simp_all add: sample_world_def letter_hex_def sample_json_def control_decode_def)
  then have "handle_control ?W sample_owner '''' ''c'' 100 =
      Some (sample_owner, Subscriptions (reg_names sample_registry))"
    by (simp add: handle_control_def is_high_cursor_def control_gate_def list_request_def)
  then obtain hs1 reply where h: "serve_control_message ?W (sample_owner, ?hs) sample_message 100 =
      Some ((sample_owner, hs1), reply)"
    using new by (cases "token_seen 5 100 ?hs") (simp add: serve_control_message_def sample_message_def)
  have "serve_control_message ?W (sample_owner, hs1) sample_message 150 = Some ((sample_owner, hs1), None)"
    by (rule control_message_handled_once[OF h _ _ new])
      (simp_all add: sample_message_def new_token_set_def DEDUP_TTL_SECS_def)
  then show ?thesis by auto
qed

text \<open>C37: De-duplication comes before authorization: a request without a grant is answered as accepted,
  with the cursor, when its key is remembered for an accepted publish, even on a gated topic.\<close>

theorem duplicate_answered_without_grant:
  assumes "ingest_decode_hex (hexlib W) (json W) payload = Inr req" "req_grant req = None" "require_cap own"
    and "cache_get (dedup_key token req) now (dedup own) = (cache, Some (Seen_cursor c))"
  shows "snd (handle_ingest W own token payload from now) = Some (Accepted c)"
  using handle_ingest_known[OF assms(1,4)] by simp

lemma duplicate_answered_without_grant_witness:
  "\<exists>own. require_cap own \<and>
     snd (handle_ingest (sample_world list_request (bare_request '''')) own 7 '''' ''anyone'' 100) = Some (Accepted 4)"
proof -
  let ?key = "dedup_key 7 (bare_request [])"
  let ?cache = "cache_insert ?key (Seen_cursor 4) 90 (dedup gated_owner)"
  have "cache_get ?key 100 (dedup (gated_owner\<lparr>dedup := ?cache\<rparr>)) = (?cache, Some (Seen_cursor 4))"
    by (simp add: cache_get_def) (simp add: gated_owner_def new_cache_def DEDUP_TTL_SECS_def sat_sub_def
        word_le_nat_alt word_less_nat_alt)
  moreover have cap: "require_cap (gated_owner\<lparr>dedup := ?cache\<rparr>)" by (simp add: gated_owner_def)
  moreover have "req_grant (bare_request []) = None" by (simp add: bare_request_def)
  ultimately show ?thesis using duplicate_answered_without_grant[OF sample_decode_bare] cap by blast
qed

text \<open>The two kinds of de-duplication key are not kept apart: a request whose idempotency key spells a
  reply token has the same key as a request without one that arrives under that token.\<close>

theorem dedup_keys_collide:
  "dedup_key token (req\<lparr>req_idempotency_key := Some (''tok:'' @ decimal (unat other))\<rparr>) =
   dedup_key other (req'\<lparr>req_idempotency_key := None\<rparr>)"
  by (simp add: dedup_key_def)

text \<open>Reply tokens are kept apart: requests without an idempotency key have the same key exactly if
  they arrive under the same token.\<close>

theorem token_keys_distinct:
  assumes "req_idempotency_key req = None" "req_idempotency_key req' = None"
  shows "(dedup_key token req = dedup_key token' req') = (token = token')"
  using assms decimal_inject[of "unat token" "unat token'"] by (auto simp: dedup_key_def intro: unsigned_word_eqI)

lemma token_keys_distinct_witness:
  "(dedup_key 12 (bare_request '''') = dedup_key 21 (bare_request '''')) = ((12 :: u64) = 21)"
  by (rule token_keys_distinct) (simp_all add: bare_request_def)

end
