(* ===== verification/Remote.thy ===== *)
theory Remote
  imports Client Owner_Props
begin

text \<open>
  A client and an owner together.  The mesh between them is outside the repository; the locale
  \<open>request_link\<close> states what a client relies on of it: a reply was given by the owner to this request,
  and a request without a reply reached the owner at most once.  The instance is a network that
  delivers to the owner's two workers, in which a script decides what is lost; the properties hold for
  every script.
\<close>

section \<open>The link\<close>

text \<open>\<open>serves o topic body o' reply\<close>: the owner's workers take the message from \<open>o\<close> to \<open>o'\<close> with that
  reply.\<close>

locale request_link =
  fixes send :: "'s \<Rightarrow> string \<Rightarrow> string \<Rightarrow> bytes \<Rightarrow> u64 \<Rightarrow> 's \<times> (error + bytes)"
    and view :: "'s \<Rightarrow> owner"
    and good :: "'s \<Rightarrow> bool"
    and serves :: "owner \<Rightarrow> string \<Rightarrow> bytes \<Rightarrow> owner \<Rightarrow> bytes option \<Rightarrow> bool"
  assumes good_kept: "good s \<Longrightarrow> send s ow tp body t = (s', r) \<Longrightarrow> good s'"
    and answered: "good s \<Longrightarrow> send s ow tp body t = (s', Inr bs) \<Longrightarrow> serves (view s) tp body (view s') (Some bs)"
    and unanswered: "good s \<Longrightarrow> send s ow tp body t = (s', Inl e) \<Longrightarrow>
      view s' = view s \<or> (\<exists>reply. serves (view s) tp body (view s') reply)"
begin

lemma round_trip_result:
  assumes "good s" "ce_request cl = send" "round_trip cl s context ow tp encoded t = (s', r)"
  shows "good s' \<and> (view s' = view s \<and> \<not> is_ok r \<or>
    (\<exists>body reply. encoded = Inr body \<and> serves (view s) tp body (view s') reply \<and>
      (\<forall>bs. r = Inr bs \<longrightarrow> reply = Some bs)))"
proof (cases encoded)
  case (Inr body)
  obtain s1 q where q: "send s ow tp body t = (s1, q)" by fastforce
  with assms(2,3) Inr have s': "s' = s1" "r = map_err (Context context) q" by (auto simp: round_trip_def)
  show ?thesis
  proof (cases q)
    case (Inl e)
    then show ?thesis
      using good_kept[OF assms(1) q] unanswered[OF assms(1) q[unfolded Inl]] Inr s' by auto
  next
    case (Inr bs)
    then show ?thesis
      using good_kept[OF assms(1) q] answered[OF assms(1) q[unfolded Inr]] \<open>encoded = Inr body\<close> s' by auto
  qed
qed (use assms in \<open>auto simp: round_trip_def\<close>)

lemma publish_result:
  assumes "good s" "ce_request cl = send" "publish_to_with cl s tp ow payload grant opts key t = (s', r)"
  shows "good s' \<and> (view s' = view s \<and> \<not> is_ok r \<or>
    (\<exists>body reply. ingest_encode (client_json cl) (publish_request cl payload grant opts key) = Inr body \<and>
      serves (view s) (ingest_topic tp) body (view s') reply \<and>
      (\<forall>c. r = Inr c \<longrightarrow> (\<exists>bs. reply = Some bs \<and> ingest_reply_decode (client_json cl) bs = Inr (Accepted c)))))"
proof (cases "and_then (validate_topic tp) (\<lambda>_. and_then (validate_payload payload) (\<lambda>_. options_validate opts))")
  case (Inr u)
  obtain s1 q where q: "round_trip cl s ''publish request to topic owner'' ow (ingest_topic tp)
      (ingest_encode (client_json cl) (publish_request cl payload grant opts key)) t = (s1, q)"
    by fastforce
  with assms(3) Inr have s': "s' = s1"
    and r: "r = and_then q (\<lambda>bs. and_then (ingest_reply_decode (client_json cl) bs) (\<lambda>reply.
      case reply of Accepted c \<Rightarrow> Inr c | Ingest_rejected why \<Rightarrow> Inl (Wrapped ''owner rejected publish'' why)))"
    by (auto simp: publish_to_with_def)
  have acc: "r = Inr c \<longleftrightarrow> (\<exists>bs. q = Inr bs \<and> ingest_reply_decode (client_json cl) bs = Inr (Accepted c))" for c
    unfolding r by (auto simp: result_simps split: ingest_reply.splits) (metis ingest_reply.exhaust)
  have "\<not> is_ok q \<Longrightarrow> \<not> is_ok r" by (cases q) (simp_all add: r)
  with round_trip_result[OF assms(1,2) q] show ?thesis unfolding s' acc by auto
qed (use assms in \<open>auto simp: publish_to_with_def\<close>)

lemma control_result:
  assumes "good s" "ce_request cl = send" "control cl s tp ow req t = (s', r)"
  shows "good s' \<and> (view s' = view s \<and> \<not> is_ok r \<or>
    (\<exists>body reply. control_encode (client_json cl) req = Inr body \<and>
      serves (view s) (control_topic tp) body (view s') reply \<and>
      (\<forall>a. r = Inr a \<longrightarrow> (\<exists>bs. reply = Some bs \<and> control_reply_decode (client_json cl) bs = Inr a))))"
proof -
  obtain s1 q where q: "round_trip cl s ''control request to topic owner'' ow (control_topic tp)
      (control_encode (client_json cl) req) t = (s1, q)"
    by fastforce
  with assms(3) have s': "s' = s1" and r: "r = and_then q (control_reply_decode (client_json cl))"
    by (auto simp: control_def)
  have "\<not> is_ok q \<Longrightarrow> \<not> is_ok r" by (cases q) (simp_all add: r)
  then show ?thesis using round_trip_result[OF assms(1,2) q] unfolding s' r by (auto simp: result_simps)
qed

end

text \<open>An operation called again and again, with all its results.\<close>

fun attempts :: "('s \<Rightarrow> 's \<times> 'r) \<Rightarrow> nat \<Rightarrow> 's \<Rightarrow> 's \<times> 'r list" where
  "attempts act 0 s = (s, [])"
| "attempts act (Suc n) s =
     (let (s1, r) = act s; (s2, rs) = attempts act n s1 in (s2, r # rs))"

context request_link begin

text \<open>What every service of the request keeps holds after any number of attempts.\<close>

lemma publish_attempts_keep:
  assumes "\<And>o1 o2 body reply. P o1 \<Longrightarrow> serves o1 (ingest_topic tp) body o2 reply \<Longrightarrow>
      ingest_encode (client_json cl) (publish_request cl payload grant opts key) = Inr body \<Longrightarrow> P o2"
    and "ce_request cl = send"
    and "attempts (\<lambda>s. publish_to_with cl s tp ow payload grant opts key t) n s = (s', rs)"
    and "good s" "P (view s)"
  shows "good s' \<and> P (view s')"
  using assms(3-5)
proof (induction n arbitrary: s rs)
  case (Suc n)
  obtain s1 r where r: "publish_to_with cl s tp ow payload grant opts key t = (s1, r)" by fastforce
  obtain rs1 where rs1: "attempts (\<lambda>s. publish_to_with cl s tp ow payload grant opts key t) n s1 = (s', rs1)"
    using Suc.prems(1) r by (auto split: prod.splits)
  from publish_result[OF Suc.prems(2) assms(2) r] Suc.prems(3) assms(1) have "good s1" "P (view s1)"
    by metis+
  then show ?case by (rule Suc.IH[OF rs1])
qed simp

text \<open>What a service that answers with \<open>Accepted c\<close> establishes, and every further service keeps, holds
  after the attempts if one of them returned \<open>c\<close>.\<close>

lemma publish_attempts_result:
  assumes keep: "\<And>o1 o2 body reply. P o1 \<Longrightarrow> serves o1 (ingest_topic tp) body o2 reply \<Longrightarrow>
      ingest_encode (client_json cl) (publish_request cl payload grant opts key) = Inr body \<Longrightarrow> P o2"
    and stay: "\<And>o1 o2 body reply c. Q c o1 \<Longrightarrow> serves o1 (ingest_topic tp) body o2 reply \<Longrightarrow>
      ingest_encode (client_json cl) (publish_request cl payload grant opts key) = Inr body \<Longrightarrow> Q c o2"
    and est: "\<And>o1 o2 body bs c. P o1 \<Longrightarrow> serves o1 (ingest_topic tp) body o2 (Some bs) \<Longrightarrow>
      ingest_encode (client_json cl) (publish_request cl payload grant opts key) = Inr body \<Longrightarrow>
      ingest_reply_decode (client_json cl) bs = Inr (Accepted c) \<Longrightarrow> Q c o2"
    and link: "ce_request cl = send"
    and "attempts (\<lambda>s. publish_to_with cl s tp ow payload grant opts key t) n s = (s', rs)"
    and "good s" "P (view s)" "Inr c \<in> set rs"
  shows "Q c (view s')"
  using assms(5-)
proof (induction n arbitrary: s rs)
  case (Suc n)
  obtain s1 r where r: "publish_to_with cl s tp ow payload grant opts key t = (s1, r)" by fastforce
  obtain rs1 where rs1: "attempts (\<lambda>s. publish_to_with cl s tp ow payload grant opts key t) n s1 = (s', rs1)"
    and rs: "rs = r # rs1"
    using Suc.prems(1) r by (auto split: prod.splits)
  note res = publish_result[OF Suc.prems(2) link r]
  then have s1: "good s1" "P (view s1)" using Suc.prems(3) keep by metis+
  show ?case
  proof (cases "r = Inr c")
    case True
    with res have q: "Q c (view s1)" using est[OF Suc.prems(3)] by auto
    have "good s' \<and> Q c (view s')"
      by (rule publish_attempts_keep[where P = "Q c", OF _ link rs1 s1(1) q]) (rule stay)
    then show ?thesis ..
  next
    case False
    with Suc.prems(4) rs have "Inr c \<in> set rs1" by simp
    then show ?thesis by (rule Suc.IH[OF rs1 s1])
  qed
qed simp

end

section \<open>A network with losses\<close>

text \<open>What happens to one request: it is lost, or it is served in a world under a reply token at a time,
  and its reply arrives or not.\<close>

datatype (plugins del: "quickcheck") ('i, 'c) fate = Lost | Served "('i, 'c) world" u64 u64 bool

text \<open>Both workers of the owner see each message.\<close>

definition deliver_message ::
  "('i, 'c) world \<Rightarrow> owner \<times> token_set \<Rightarrow> app_message \<Rightarrow> u64 \<Rightarrow>
    ((owner \<times> token_set) \<times> (u64 \<times> bytes) option) option" where
  "deliver_message W st m now =
     (let (own1, r) = serve_ingest_message W (fst st) m now in
      case serve_control_message W (own1, snd st) m now of
        None \<Rightarrow> None
      | Some (st2, r2) \<Rightarrow> Some (st2, if r = None then r2 else r))"

definition request_message :: "hex_codec \<Rightarrow> string \<Rightarrow> string \<Rightarrow> bytes \<Rightarrow> u64 \<Rightarrow> app_message" where
  "request_message hx me tp body token =
     \<lparr>am_topic = tp, am_reply_token = Some token, am_payload_hex = hex_encode hx body, am_from = me\<rparr>"

fun mesh_send ::
  "string \<Rightarrow> (owner \<times> token_set) \<times> ('i, 'c) fate list \<Rightarrow> string \<Rightarrow> string \<Rightarrow> bytes \<Rightarrow> u64 \<Rightarrow>
    ((owner \<times> token_set) \<times> ('i, 'c) fate list) \<times> (error + bytes)" where
  "mesh_send me (st, []) ow tp body t = ((st, []), Inl (External ''timeout''))"
| "mesh_send me (st, Lost # fs) ow tp body t = ((st, fs), Inl (External ''timeout''))"
| "mesh_send me (st, Served W token now arrives # fs) ow tp body t =
     (case (if ow = own_id (fst st) then deliver_message W st (request_message (hexlib W) me tp body token) now
            else None) of
        Some (st1, Some (_, bs)) \<Rightarrow> ((st1, fs), if arrives then Inr bs else Inl (External ''timeout''))
      | Some (st1, None) \<Rightarrow> ((st1, fs), Inl (External ''timeout''))
      | None \<Rightarrow> ((st, fs), Inl (External ''timeout'')))"

definition fate_ok :: "(('i, 'c) world \<Rightarrow> u64 \<Rightarrow> bool) \<Rightarrow> ('i, 'c) fate \<Rightarrow> bool" where
  "fate_ok ok f \<longleftrightarrow> (case f of Lost \<Rightarrow> True | Served W token now arrives \<Rightarrow> ok W now)"

definition mesh_serves ::
  "(('i, 'c) world \<Rightarrow> u64 \<Rightarrow> bool) \<Rightarrow> string \<Rightarrow> owner \<Rightarrow> string \<Rightarrow> bytes \<Rightarrow> owner \<Rightarrow> bytes option \<Rightarrow> bool" where
  "mesh_serves ok me o1 tp body o2 reply \<longleftrightarrow> (\<exists>W token now hs hs' r. ok W now \<and>
     deliver_message W (o1, hs) (request_message (hexlib W) me tp body token) now = Some ((o2, hs'), r) \<and>
     reply = map_option snd r)"

lemma mesh_send_result:
  fixes ok :: "('i, 'c) world \<Rightarrow> u64 \<Rightarrow> bool"
  assumes good: "list_all (fate_ok ok) (snd s)" and send: "mesh_send me s ow tp body t = (s', r)"
  shows "list_all (fate_ok ok) (snd s') \<and> (case r of
      Inr bs \<Rightarrow> mesh_serves ok me (fst (fst s)) tp body (fst (fst s')) (Some bs)
    | Inl e \<Rightarrow> fst (fst s') = fst (fst s) \<or> (\<exists>reply. mesh_serves ok me (fst (fst s)) tp body (fst (fst s')) reply))"
proof -
  obtain st fs where s: "s = (st, fs)" by fastforce
  show ?thesis
  proof (cases fs)
    case (Cons f fs')
    show ?thesis
    proof (cases f)
      case (Served W token now arrives)
      then have ok: "ok W now" "list_all (fate_ok ok) fs'" using good by (simp_all add: s Cons fate_ok_def)
      let ?m = "request_message (hexlib W) me tp body token"
      show ?thesis
      proof (cases "if ow = own_id (fst st) then deliver_message W st ?m now else None")
        case None
        with send ok show ?thesis by (auto simp: s Cons Served)
      next
        case (Some p)
        obtain o2 hs' q where p: "p = ((o2, hs'), q)" by (metis prod.exhaust)
        then have "deliver_message W (fst st, snd st) ?m now = Some ((o2, hs'), q)"
          using Some by (simp split: if_splits)
        with ok(1) have "mesh_serves ok me (fst st) tp body o2 (map_option snd q)"
          unfolding mesh_serves_def by blast
        then show ?thesis using send ok Some p
          by (auto simp: s Cons Served split: option.splits if_splits)
      qed
    qed (use send good in \<open>auto simp: s Cons\<close>)
  qed (use send in \<open>auto simp: s\<close>)
qed

interpretation mesh: request_link "mesh_send me" "\<lambda>s. fst (fst s)" "\<lambda>s. list_all (fate_ok ok) (snd s)"
  "mesh_serves ok me" for ok :: "('i, 'c) world \<Rightarrow> u64 \<Rightarrow> bool" and me
  by unfold_locales (use mesh_send_result[of ok] in fastforce)+

section \<open>What the owner does with a delivered request\<close>

text \<open>What the code relies on of \<open>serde_json\<close>: a request is read back as it was written, and the kind
  and the cursor or messages of a reply survive.\<close>

definition json_contract :: "json_codec \<Rightarrow> bool" where
  "json_contract js \<longleftrightarrow>
     (\<forall>req bs. ingest_to_json js req = Inr bs \<longrightarrow> ingest_from_json js bs = Inr req) \<and>
     (\<forall>r bs c. ingest_reply_to_json js r = Inr bs \<longrightarrow>
        (ingest_reply_from_json js bs = Inr (Accepted c)) = (r = Accepted c)) \<and>
     (\<forall>req bs. control_to_json js req = Inr bs \<longrightarrow> control_from_json js bs = Inr req) \<and>
     (\<forall>r bs. control_reply_to_json js r = Inr bs \<longrightarrow>
        (control_reply_from_json js bs = Inr Control_ok) = (r = Control_ok) \<and>
        (\<forall>ms. (control_reply_from_json js bs = Inr (Pulled ms)) = (r = Pulled ms)))"

lemma json_contractD:
  assumes "json_contract js"
  shows "ingest_encode js req = Inr bs \<Longrightarrow> ingest_from_json js bs = Inr req"
    and "ingest_reply_encode js r = Inr bs \<Longrightarrow> (ingest_reply_decode js bs = Inr (Accepted c)) = (r = Accepted c)"
    and "control_encode js creq = Inr bs \<Longrightarrow> control_from_json js bs = Inr creq"
    and "control_reply_encode js q = Inr bs \<Longrightarrow> control_reply_decode js bs = Inr Control_ok \<Longrightarrow> q = Control_ok"
    and "control_reply_encode js q = Inr bs \<Longrightarrow> control_reply_decode js bs = Inr (Pulled ms) \<Longrightarrow> q = Pulled ms"
  using assms
  by (auto simp: json_contract_def ingest_encode_def ingest_reply_encode_def ingest_reply_decode_def
      control_encode_def control_reply_encode_def control_reply_decode_def split: if_splits)

lemma topics_apart: "ingest_topic a \<noteq> control_topic b"
  by (simp add: ingest_topic_def control_topic_def NS_def)

lemma handle_ingest_answers: "\<exists>own' rep. handle_ingest W own token payload from now = (own', Some rep)"
  by (auto simp: handle_ingest_def Let_def split: sum.splits prod.splits option.splits seen.splits)

lemma deliver_ingest:
  assumes "handle_ingest W own token (hex_encode (hexlib W) body) me now = (own', Some rep)"
  shows "deliver_message W (own, hs) (request_message (hexlib W) me (ingest_topic (topic_name own)) body token) now =
    Some ((own', hs), case ingest_reply_encode (json W) rep of Inr bs \<Rightarrow> Some (token, bs) | Inl _ \<Rightarrow> None)"
  using assms by (simp add: deliver_message_def request_message_def serve_ingest_message_def
      serve_control_message_def topics_apart split: sum.split)

lemma ingest_served:
  assumes "mesh_serves ok me o1 (ingest_topic (topic_name o1)) body o2 reply"
  shows "\<exists>W token now rep. ok W now \<and>
    handle_ingest W o1 token (hex_encode (hexlib W) body) me now = (o2, Some rep) \<and>
    (\<forall>bs. reply = Some bs \<longrightarrow> ingest_reply_encode (json W) rep = Inr bs)"
proof -
  obtain W token now hs hs' r where ok: "ok W now" and reply: "reply = map_option snd r"
    and d: "deliver_message W (o1, hs) (request_message (hexlib W) me (ingest_topic (topic_name o1)) body token) now =
      Some ((o2, hs'), r)"
    using assms unfolding mesh_serves_def by blast
  obtain own' rep where h: "handle_ingest W o1 token (hex_encode (hexlib W) body) me now = (own', Some rep)"
    using handle_ingest_answers by blast
  from d deliver_ingest[OF h, of hs]
  have "o2 = own'" "r = (case ingest_reply_encode (json W) rep of Inr bs \<Rightarrow> Some (token, bs) | Inl _ \<Rightarrow> None)"
    by simp_all
  then show ?thesis using ok h reply by (intro exI[of _ W]) (auto split: sum.splits)
qed

lemma control_served:
  assumes "mesh_serves ok me o1 (control_topic (topic_name o1)) body o2 (Some bs)"
  shows "\<exists>W now rep. ok W now \<and>
    handle_control W o1 (hex_encode (hexlib W) body) me now = Some (o2, rep) \<and>
    control_reply_encode (json W) rep = Inr bs"
proof -
  obtain W token now hs hs' r where ok: "ok W now" and r: "map_option snd r = Some bs"
    and d: "deliver_message W (o1, hs) (request_message (hexlib W) me (control_topic (topic_name o1)) body token) now =
      Some ((o2, hs'), r)"
    using assms unfolding mesh_serves_def by metis
  have "serve_control_message W (o1, hs) (request_message (hexlib W) me (control_topic (topic_name o1)) body token) now =
      Some ((o2, hs'), r)"
    using d by (simp add: deliver_message_def request_message_def serve_ingest_message_def
        topics_apart[symmetric] split: option.splits prod.splits)
  then show ?thesis using ok r
    by (auto simp: serve_control_message_def request_message_def Let_def split: prod.splits if_splits
        option.splits sum.splits)
qed

section \<open>Retried publishes\<close>

definition mesh_client ::
  "string \<Rightarrow> hex_codec \<Rightarrow> json_codec \<Rightarrow> ((owner \<times> token_set) \<times> ('i, 'c) fate list) client" where
  "mesh_client me hx js = \<lparr>node_id = me, client_hex = hx, client_json = js, ce_request = mesh_send me,
     open_reader = \<lambda>name ow. Inl (External ''''), peek_reader = \<lambda>name ow. Inl (External ''''),
     open_stream = \<lambda>name. Inl (External '''')\<rparr>"

lemma mesh_client_simps [simp]:
  "client_hex (mesh_client me hx js) = hx" "client_json (mesh_client me hx js) = js"
  "ce_request (mesh_client me hx js) = mesh_send me"
  by (simp_all add: mesh_client_def)

text \<open>The time limit of the owner's cache, from a first time on.\<close>

definition in_window :: "owner \<Rightarrow> u64 \<Rightarrow> u64 \<Rightarrow> bool" where
  "in_window own t0 now \<longleftrightarrow> cache_ttl (dedup own) = 0 \<or>
     t0 \<le> now \<and> unat now - unat t0 \<le> unat (cache_ttl (dedup own))"

definition served_in :: "owner \<Rightarrow> hex_codec \<Rightarrow> json_codec \<Rightarrow> u64 \<Rightarrow> ('i, 'c) world \<Rightarrow> u64 \<Rightarrow> bool" where
  "served_in own hx js t0 W now \<longleftrightarrow> world_ok W \<and> hexlib W = hx \<and> json W = js \<and> in_window own t0 now"

lemma in_window_live: "in_window own t0 at \<Longrightarrow> in_window own t0 now \<Longrightarrow> cache_live (dedup own) at now"
  by (auto simp: in_window_def cache_live_def word_le_nat_alt unat_sat_sub)

text \<open>The owner remembers the outcome \<open>v\<close> of the key for the whole window.\<close>

definition remembers :: "owner \<Rightarrow> u64 \<Rightarrow> string \<Rightarrow> seen \<Rightarrow> owner \<Rightarrow> bool" where
  "remembers own0 t0 key v own \<longleftrightarrow> topic_name own = topic_name own0 \<and>
     (\<forall>now. in_window own0 t0 now \<longrightarrow> cache_get key now (dedup own) = (dedup own, Some v))"

text \<open>The owner has stored the message of the request once, at \<open>c\<close>, and remembers it.\<close>

definition stored_once ::
  "owner \<Rightarrow> u64 \<Rightarrow> string \<Rightarrow> ingest_request \<Rightarrow> string \<Rightarrow> cursor \<Rightarrow> owner \<Rightarrow> bool" where
  "stored_once own0 t0 me req key c own \<longleftrightarrow> remembers own0 t0 key (Seen_cursor c) own \<and> c = high_cursor (writer own0) + 1 \<and>
     (\<exists>at. log_messages (writer own) = log_messages (writer own0) @
        [\<lparr>msg_cursor = c, publisher = me, payload_hex = req_payload_hex req, published_at = at,
          ordering_key = req_ordering_key req, attributes = req_attributes req,
          publisher_authenticated = require_cap own0\<rparr>])"

lemma apply_ingest_frame:
  assumes "apply_ingest W own req from now = (own', out)"
  shows "topic_name own' = topic_name own" "own_id own' = own_id own" "require_cap own' = require_cap own"
  using assms by (auto simp: apply_ingest_def dest: append_and_fanout_frame split: sum.splits prod.splits)

lemma handle_ingest_frame:
  assumes "handle_ingest W own token payload from now = (own', reply)"
  shows "topic_name own' = topic_name own" "own_id own' = own_id own" "require_cap own' = require_cap own"
  using assms by (auto simp: handle_ingest_def Let_def dest: apply_ingest_frame
      split: sum.splits prod.splits option.splits seen.splits)

lemma handle_ingest_remembered:
  assumes "remembers own0 t0 key v own" "in_window own0 t0 now"
    and "ingest_decode_hex (hexlib W) (json W) payload = Inr req" "req_idempotency_key req = Some key"
  shows "handle_ingest W own token payload from now =
    (own, Some (case v of Seen_cursor c \<Rightarrow> Accepted c | Seen_handled \<Rightarrow> Ingest_rejected Duplicate_request))"
proof -
  have "cache_get (dedup_key token req) now (dedup own) = (dedup own, Some v)"
    using assms(1,2,4) by (simp add: remembers_def dedup_key_def)
  from handle_ingest_known[OF assms(3) this] show ?thesis by simp
qed

text \<open>The first service of a request whose key is new.\<close>

lemma handle_ingest_first:
  assumes W: "served_in own hx js t0 W now"
    and dec: "ingest_decode_hex hx js payload = Inr req"
    and key: "req_idempotency_key req = Some key" "fmlookup (cache_map (dedup own)) key = None"
    and pay: "req_payload_hex req = hex_encode hx bs"
    and h: "handle_ingest W own token payload me now = (own', Some rep)"
  shows "\<exists>v. remembers own t0 key v own' \<and> (\<forall>c. v = Seen_cursor c \<longrightarrow> stored_once own t0 me req key c own') \<and>
    (\<forall>c. rep = Accepted c \<longrightarrow> v = Seen_cursor c)"
proof -
  have Wd: "world_ok W" "hexlib W = hx" "json W = js" "in_window own t0 now"
    using W by (simp_all add: served_in_def)
  have k: "dedup_key token req = key" using key(1) by (simp add: dedup_key_def)
  have g: "cache_get (dedup_key token req) now (dedup own) = (dedup own, None)"
    using key(2) by (simp add: k cache_get_def)
  obtain own2 out where a: "apply_ingest W (own\<lparr>dedup := dedup own\<rparr>) req me now = (own2, out)"
    and rep: "Some rep = Some (case out of Inr c \<Rightarrow> Accepted c | Inl why \<Rightarrow> Ingest_rejected why)"
    and own': "own' = own2\<lparr>dedup := cache_insert key
      (case out of Inr c \<Rightarrow> Seen_cursor c | Inl _ \<Rightarrow> Seen_handled) now (dedup own2)\<rparr>"
    by (rule handle_ingest_fresh[OF _ g h]) (use dec Wd k that in auto)
  define v where "v = (case out of Inr c \<Rightarrow> Seen_cursor c | Inl _ \<Rightarrow> Seen_handled)"
  from a have a: "apply_ingest W own req me now = (own2, out)" by simp
  have tp: "topic_name own' = topic_name own" using apply_ingest_frame[OF a] by (simp add: own')
  have d: "dedup own2 = fst (cache_get key now (dedup own))"
    using apply_ingest_dedup[OF a] g k by simp
  have "cache_get key later (dedup own') = (dedup own', Some v)" if "in_window own t0 later" for later
    using ingest_store.retry[OF in_window_live[OF Wd(4) that], of key v] by (simp add: own' v_def d)
  then have rem: "remembers own t0 key v own'" by (simp add: remembers_def tp)
  have "stored_once own t0 me req key c own'" if "v = Seen_cursor c" for c
  proof -
    from that have out: "out = Inr c" by (cases out) (simp_all add: v_def)
    from a out obtain msg where msg: "ingest_message W own req me now = Inr msg"
      and app: "append_and_fanout W own msg = (own2, Inr c)"
      by (auto simp: apply_ingest_def result_simps split: sum.splits prod.splits)
    have "msg = \<lparr>msg_cursor = 0, publisher = me, payload_hex = hex_encode hx bs,
        published_at = now, ordering_key = req_ordering_key req, attributes = req_attributes req,
        publisher_authenticated = require_cap own\<rparr>"
      using msg pay hex_contractD(1)[OF world_okD(1)[OF Wd(1)], of bs]
      by (auto simp: ingest_message_def result_simps authenticated_def new_message_def ingest_gate_def Wd
          split: if_splits option.splits)
    with append_and_fanout_log(2)[OF Wd(1) app refl] rem that pay show ?thesis
      by (simp add: stored_once_def own' next_cursor_def)
  qed
  then show ?thesis using rem rep by (intro exI[of _ v]) (auto simp: v_def split: sum.splits)
qed

text \<open>Either nothing of the request has reached the owner, or its outcome is remembered.\<close>

definition retried ::
  "owner \<Rightarrow> u64 \<Rightarrow> string \<Rightarrow> ingest_request \<Rightarrow> string \<Rightarrow> owner \<Rightarrow> bool" where
  "retried own0 t0 me req key own \<longleftrightarrow> own = own0 \<or>
     (\<exists>v. remembers own0 t0 key v own \<and> (\<forall>c. v = Seen_cursor c \<longrightarrow> stored_once own0 t0 me req key c own))"

lemma publish_served:
  assumes js: "json_contract js" and hx: "hex_contract hx"
    and key: "req_idempotency_key req = Some key" "fmlookup (cache_map (dedup own0)) key = None"
    and pay: "req_payload_hex req = hex_encode hx bs"
    and o1: "retried own0 t0 me req key o1"
    and sv: "mesh_serves (served_in own0 hx js t0 :: ('i, 'c) world \<Rightarrow> u64 \<Rightarrow> bool) me o1 (ingest_topic (topic_name own0)) body o2 reply"
    and body: "ingest_encode js req = Inr body"
  shows "retried own0 t0 me req key o2 \<and> (stored_once own0 t0 me req key c o1 \<longrightarrow> stored_once own0 t0 me req key c o2) \<and>
    (\<forall>rbs. reply = Some rbs \<longrightarrow> ingest_reply_decode js rbs = Inr (Accepted c) \<longrightarrow> stored_once own0 t0 me req key c o2)"
proof -
  have "topic_name o1 = topic_name own0" using o1 by (auto simp: retried_def remembers_def)
  from ingest_served[OF sv[folded this]] obtain W :: "('i, 'c) world" and token now rep where W: "served_in own0 hx js t0 W now"
    and h: "handle_ingest W o1 token (hex_encode (hexlib W) body) me now = (o2, Some rep)"
    and enc: "\<forall>rbs. reply = Some rbs \<longrightarrow> ingest_reply_encode (json W) rep = Inr rbs"
    by blast
  have Wd: "hexlib W = hx" "json W = js" "in_window own0 t0 now" using W by (simp_all add: served_in_def)
  have acc: "reply = Some rbs \<Longrightarrow> ingest_reply_decode js rbs = Inr (Accepted c) \<Longrightarrow> rep = Accepted c" for rbs c
    using enc json_contractD(2)[OF js] Wd(2) by metis
  show ?thesis
  proof (cases "ingest_decode_hex hx js (hex_encode hx body)")
    case (Inl e)
    with h Wd have "o2 = o1" "\<forall>c. rep \<noteq> Accepted c" by (auto simp: handle_ingest_def)
    then show ?thesis using o1 acc by blast
  next
    case (Inr req')
    then have dec: "ingest_decode_hex hx js (hex_encode hx body) = Inr req"
      using json_contractD(1)[OF js body] hex_contractD(1)[OF hx, of body]
      by (auto simp: ingest_decode_hex_Inr ingest_decode_Inr)
    from o1 consider (fresh) "o1 = own0"
      | (known) v where "remembers own0 t0 key v o1" "\<forall>c. v = Seen_cursor c \<longrightarrow> stored_once own0 t0 me req key c o1"
      unfolding retried_def by blast
    then show ?thesis
    proof cases
      case fresh
      from handle_ingest_first[OF W dec key pay] h fresh Wd obtain v where v: "remembers own0 t0 key v o2"
        "\<forall>c. v = Seen_cursor c \<longrightarrow> stored_once own0 t0 me req key c o2" "\<forall>c. rep = Accepted c \<longrightarrow> v = Seen_cursor c"
        by blast
      moreover have "\<not> stored_once own0 t0 me req key c o1"
        by (auto simp: fresh stored_once_def)
      ultimately show ?thesis using acc unfolding retried_def by blast
    next
      case (known v)
      from handle_ingest_remembered[OF known(1) Wd(3), of W _ req] h dec key(1) Wd
      have "o2 = o1" "rep = (case v of Seen_cursor c \<Rightarrow> Accepted c | Seen_handled \<Rightarrow> Ingest_rejected Duplicate_request)"
        by auto
      moreover from this(2) have "\<forall>c. rep = Accepted c \<longrightarrow> v = Seen_cursor c" by (cases v) auto
      ultimately show ?thesis using o1 known acc by blast
    qed
  qed
qed

lemma publish_attempts_stored:
  fixes script :: "('i, 'c) fate list"
  assumes "hex_contract hx" "json_contract js"
    and "fmlookup (cache_map (dedup own)) key = None"
    and "list_all (fate_ok (served_in own hx js t0)) script"
    and "attempts (\<lambda>s. publish_to_with (mesh_client me hx js) s (topic_name own) ow payload grant opts (Some key) t) n
      ((own, hs), script) = (((own', hs'), script'), results)"
    and "Inr c \<in> set results"
  shows "stored_once own t0 me (publish_request (mesh_client me hx js :: ((owner \<times> token_set) \<times> ('i, 'c) fate list) client)
      payload grant opts (Some key)) key c own'"
proof -
  let ?cl = "mesh_client me hx js :: ((owner \<times> token_set) \<times> ('i, 'c) fate list) client"
  let ?ok = "served_in own hx js t0 :: ('i, 'c) world \<Rightarrow> u64 \<Rightarrow> bool"
  define req where "req = publish_request ?cl payload grant opts (Some key)"
  have req: "req_idempotency_key req = Some key" "req_payload_hex req = hex_encode hx payload"
    "req_ordering_key req = opt_ordering_key opts" "req_attributes req = opt_attributes opts"
    by (simp_all add: req_def publish_request_def)
  note served = publish_served[OF assms(2,1) req(1) assms(3) req(2)]
  have keep: "retried own t0 me req key o2"
    if "retried own t0 me req key o1"
      "mesh_serves ?ok me o1 (ingest_topic (topic_name own)) body o2 reply"
      "ingest_encode (client_json ?cl) (publish_request ?cl payload grant opts (Some key)) = Inr body" for o1 o2 body reply
    using served[OF that(1,2)] that(3) by (simp add: req_def)
  have stay: "stored_once own t0 me req key c o2"
    if "stored_once own t0 me req key c o1"
      "mesh_serves ?ok me o1 (ingest_topic (topic_name own)) body o2 reply"
      "ingest_encode (client_json ?cl) (publish_request ?cl payload grant opts (Some key)) = Inr body" for o1 o2 body reply c
  proof -
    have "retried own t0 me req key o1" using that(1) by (auto simp: retried_def stored_once_def)
    from served[OF this that(2)] that(1,3) show ?thesis by (simp add: req_def)
  qed
  have est: "stored_once own t0 me req key c o2"
    if "retried own t0 me req key o1"
      "mesh_serves ?ok me o1 (ingest_topic (topic_name own)) body o2 (Some bs)"
      "ingest_encode (client_json ?cl) (publish_request ?cl payload grant opts (Some key)) = Inr body"
      "ingest_reply_decode (client_json ?cl) bs = Inr (Accepted c)" for o1 o2 body bs c
    using served[OF that(1,2)] that(3,4) by (simp add: req_def)
  have "stored_once own t0 me req key c (fst (fst ((own', hs'), script')))"
  proof (rule mesh.publish_attempts_result[where P = "retried own t0 me req key" and ok = ?ok
        and Q = "stored_once own t0 me req key", OF _ _ _ _ assms(5) _ _ assms(6)])
    show "ce_request ?cl = mesh_send me" by simp
    show "list_all (fate_ok ?ok) (snd ((own, hs), script))" using assms(4) by simp
    show "retried own t0 me req key (fst (fst ((own, hs), script)))" by (simp add: retried_def)
  qed (erule (2) keep | erule (2) stay | erule (3) est)+
  then show ?thesis by (simp add: req_def)
qed

text \<open>Publishing in this way touches nothing but the log's end and the cache.\<close>

definition kept_but_appended :: "owner \<Rightarrow> owner \<Rightarrow> bool" where
  "kept_but_appended own0 own \<longleftrightarrow> owner_inv own \<and> own_subs own = own_subs own0 \<and>
     log_floor (writer own) = log_floor (writer own0) \<and> topic_name own = topic_name own0 \<and> own_id own = own_id own0"

lemma publish_attempts_kept:
  fixes script :: "('i, 'c) fate list"
  assumes "hex_contract hx" "json_contract js"
    and "fmlookup (cache_map (dedup own)) key = None"
    and "list_all (fate_ok (served_in own hx js t0)) script"
    and "attempts (\<lambda>s. publish_to_with (mesh_client me hx js) s (topic_name own) ow payload grant opts (Some key) t) n
      ((own, hs), script) = (((own', hs'), script'), results)"
    and "owner_inv own" "cursor_room own"
  shows "kept_but_appended own own'"
proof -
  let ?cl = "mesh_client me hx js :: ((owner \<times> token_set) \<times> ('i, 'c) fate list) client"
  let ?ok = "served_in own hx js t0 :: ('i, 'c) world \<Rightarrow> u64 \<Rightarrow> bool"
  define req where "req = publish_request ?cl payload grant opts (Some key)"
  have req: "req_idempotency_key req = Some key" "req_payload_hex req = hex_encode hx payload"
    by (simp_all add: req_def publish_request_def)
  note served = publish_served[OF assms(2,1) req(1) assms(3) req(2)]
  have keep: "retried own t0 me req key o2 \<and> kept_but_appended own o2"
    if o1: "retried own t0 me req key o1 \<and> kept_but_appended own o1"
      and sv: "mesh_serves ?ok me o1 (ingest_topic (topic_name own)) body o2 reply"
      and body: "ingest_encode (client_json ?cl) (publish_request ?cl payload grant opts (Some key)) = Inr body"
    for o1 o2 body reply
  proof
    show "retried own t0 me req key o2" using served[OF _ sv] o1 body by (simp add: req_def)
    have "topic_name o1 = topic_name own" using o1 by (simp add: kept_but_appended_def)
    from ingest_served[OF sv[folded this]] obtain W :: "('i, 'c) world" and token now rep
      where W: "served_in own hx js t0 W now"
        and h: "handle_ingest W o1 token (hex_encode (hexlib W) body) me now = (o2, Some rep)"
      by blast
    then have Wd: "world_ok W" by (simp add: served_in_def)
    from o1 consider (fresh) "o1 = own" | (known) v where "remembers own t0 key v o1" unfolding retried_def by blast
    then show "kept_but_appended own o2"
    proof cases
      case fresh
      have "owner_inv o2"
        by (rule owner_inv_step[of "{W}", OF _ assms(6,7)]) (use Wd h fresh in \<open>auto intro: owner_step.Ingest\<close>)
      moreover have "log_floor (writer o2) = log_floor (writer own)"
        using handle_ingest_appends[OF Wd h] fresh by (auto simp: apply_log.simps)
      ultimately show ?thesis
        using handle_ingest_subs[OF h] handle_ingest_frame[OF h] fresh by (simp add: kept_but_appended_def)
    next
      case (known v)
      show ?thesis
      proof (cases "ingest_decode_hex (hexlib W) (json W) (hex_encode (hexlib W) body)")
        case (Inl e)
        with h have "o2 = o1" by (simp add: handle_ingest_def)
        with o1 show ?thesis by simp
      next
        case (Inr req')
        have "hexlib W = hx" "json W = js" "in_window own t0 now" using W by (simp_all add: served_in_def)
        moreover have "ingest_decode_hex hx js (hex_encode hx body) = Inr req"
          using Inr calculation json_contractD(1)[OF assms(2) body[unfolded mesh_client_simps, folded req_def]]
            hex_contractD(1)[OF assms(1), of body]
          by (auto simp: ingest_decode_hex_Inr ingest_decode_Inr)
        ultimately have "o2 = o1"
          using handle_ingest_remembered[OF known, of now W _ req token me] h req(1) by simp
        with o1 show ?thesis by simp
      qed
    qed
  qed
  have "list_all (fate_ok ?ok) (snd ((own', hs'), script')) \<and>
    retried own t0 me req key (fst (fst ((own', hs'), script'))) \<and> kept_but_appended own (fst (fst ((own', hs'), script')))"
  proof (rule mesh.publish_attempts_keep[where P = "\<lambda>o1. retried own t0 me req key o1 \<and> kept_but_appended own o1",
        OF _ _ assms(5)])
    show "ce_request ?cl = mesh_send me" by simp
    show "list_all (fate_ok ?ok) (snd ((own, hs), script))" using assms(4) by simp
    show "retried own t0 me req key (fst (fst ((own, hs), script))) \<and> kept_but_appended own (fst (fst ((own, hs), script)))"
      using assms(6) by (simp add: retried_def kept_but_appended_def)
  qed (erule (2) keep)
  then show ?thesis by simp
qed

section \<open>Properties\<close>


text \<open>The two requests of the witnesses, and a codec that knows them and the replies to them.\<close>

definition key_request :: ingest_request where
  "key_request = (bare_request '''')\<lparr>req_idempotency_key := Some ''k''\<rparr>"

definition two_json :: json_codec where
  "two_json = \<lparr>ingest_to_json = \<lambda>r. if r = key_request then Inr [] else Inl (External ''''),
     ingest_from_json = \<lambda>bs. Inr key_request,
     ingest_reply_to_json = \<lambda>r. if r = Accepted 4 then Inr [] else Inl (External ''''),
     ingest_reply_from_json = \<lambda>bs. Inr (Accepted 4),
     control_to_json = \<lambda>r. if r = AckCursor ''s'' 1 None then Inr [] else Inl (External ''''),
     control_from_json = \<lambda>bs. Inr (AckCursor ''s'' 1 None),
     control_reply_to_json = \<lambda>r. if r = Control_ok then Inr [] else Inl (External ''''),
     control_reply_from_json = \<lambda>bs. Inr Control_ok\<rparr>"

definition two_world :: "(node_id, nat list \<times> string list \<times> string option) world" where
  "two_world = (sample_world list_request (bare_request ''''))\<lparr>json := two_json\<rparr>"

lemma two_json_contract: "json_contract two_json"
  by (simp add: json_contract_def two_json_def)

lemma two_world_simps [simp]:
  "world_ok two_world" "hexlib two_world = letter_hex" "json two_world = two_json"
  using sample_world_ok[of list_request "bare_request []"]
  by (simp_all add: two_world_def world_ok_def) (simp add: sample_world_def)

lemma two_served: "unat now - 100 \<le> 3600 \<Longrightarrow> 100 \<le> now \<Longrightarrow> served_in sample_owner letter_hex two_json 100 two_world now"
  by (simp add: served_in_def in_window_def new_cache_def DEDUP_TTL_SECS_def)

lemma two_decode: "ingest_decode_hex letter_hex two_json '''' = Inr key_request"
  by (simp add: ingest_decode_hex_Inr ingest_decode_Inr two_json_def letter_hex_def key_request_def bare_request_def
      MAX_IDEMPOTENCY_KEY_LEN_def)

lemma two_publish:
  "\<exists>own'. handle_ingest two_world sample_owner token '''' ''p'' 100 = (own', Some (Accepted 4))"
proof -
  have "validate_attributes fmempty = Inr ()" by (simp add: attributes_ok_def)
  then obtain msg where "ingest_message two_world sample_owner key_request ''p'' 100 = Inr msg"
    by (simp add: ingest_message_def ingest_gate_def key_request_def bare_request_def validate_ordering_key_def
        validate_payload_def letter_hex_def)
  then have "\<exists>own'. apply_ingest two_world (sample_owner\<lparr>dedup := d\<rparr>) key_request ''p'' 100 = (own', Inr 4)" for d
    by (simp add: apply_ingest_def append_and_fanout_def Let_def next_cursor_def)
      (simp add: two_world_def sample_world_def)
  moreover have "cache_get k 100 (dedup sample_owner) = (dedup sample_owner, None)" for k
    by (simp add: cache_get_def new_cache_def)
  moreover obtain own' where "apply_ingest two_world (sample_owner\<lparr>dedup := dedup sample_owner\<rparr>) key_request ''p'' 100 =
      (own', Inr 4)"
    using calculation(1) by blast
  ultimately show ?thesis by (simp add: handle_ingest_def two_decode Let_def)
qed

text \<open>Three attempts of which the first loses its reply and the second its request.\<close>

lemma lossy_publish_run:
  assumes W: "world_ok W" "hexlib W = letter_hex" "json W = js" "served_in own letter_hex js t0 W t1" "in_window own t0 t2"
    and js: "ingest_encode js req = Inr []" "ingest_decode_hex letter_hex js '''' = Inr req"
      "ingest_reply_encode js (Accepted c) = Inr []" "ingest_reply_decode js [] = Inr (Accepted c)"
    and req: "publish_request (mesh_client ''p'' letter_hex js :: ((owner \<times> token_set) \<times> ('i, 'c) fate list) client)
      payload None new_options (Some ''k'') = req"
    and own: "own_id own = ''o''" "topic_name own = ''orders''" "fmlookup (cache_map (dedup own)) ''k'' = None"
    and pay: "length payload \<le> MAX_PAYLOAD_BYTES"
    and first: "handle_ingest W own 7 '''' ''p'' t1 = (own1, Some (Accepted c))"
  shows "attempts (\<lambda>s. publish_to_with (mesh_client ''p'' letter_hex js) s ''orders'' ''o'' payload None new_options (Some ''k'') 9) 3
      ((own, hs), [Served W 7 t1 False, Lost, Served (W :: ('i, 'c) world) 8 t2 True]) =
    (((own1, hs), []), [Inl (Context ''publish request to topic owner'' (External ''timeout'')),
      Inl (Context ''publish request to topic owner'' (External ''timeout'')), Inr c])"
proof -
  let ?cl = "mesh_client ''p'' letter_hex js :: ((owner \<times> token_set) \<times> ('i, 'c) fate list) client"
  let ?send = "\<lambda>s. publish_to_with ?cl s ''orders'' ''o'' payload None new_options (Some ''k'') 9"
  have key: "req_idempotency_key req = Some ''k''" "req_payload_hex req = hex_encode letter_hex payload"
    by (simp_all flip: req add: publish_request_def)
  obtain v where v: "remembers own t0 ''k'' v own1" "v = Seen_cursor c"
    using handle_ingest_first[OF W(4) js(2) key(1) own(3) key(2) first] by blast
  have again: "handle_ingest W own1 8 '''' ''p'' t2 = (own1, Some (Accepted c))"
    using handle_ingest_remembered[OF v(1) W(5), of W "''''" req] js(2) key(1) v(2) W by simp
  have empty: "hex_encode letter_hex [] = ''''" by (simp add: letter_hex_def)
  have valid: "and_then (validate_topic ''orders'') (\<lambda>_. and_then (validate_payload payload) (\<lambda>_. options_validate new_options)) = Inr ()"
    using pay by (simp add: result_simps options_validate_iff topic_char_def is_ascii_alphanumeric_def new_options_def
        ordering_key_ok_def attributes_ok_def)
  have send: "?send s = (let (s1, r) = mesh_send ''p'' s ''o'' (ingest_topic ''orders'') [] 9 in
      (s1, and_then (map_err (Context ''publish request to topic owner'') r)
        (\<lambda>bs. and_then (ingest_reply_decode js bs) (\<lambda>reply.
          case reply of Accepted c \<Rightarrow> Inr c | Ingest_rejected why \<Rightarrow> Inl (Wrapped ''owner rejected publish'' why)))))" for s
    by (simp add: publish_to_with_def valid round_trip_def req js split: prod.split)
  have own1: "own_id own1 = ''o''" "topic_name own1 = ''orders''"
    using handle_ingest_frame[OF first] own by simp_all
  have d1: "deliver_message W (own, hs)
      (request_message letter_hex ''p'' (ingest_topic ''orders'') [] 7) t1 = Some ((own1, hs), Some (7, []))"
    using deliver_ingest[of W own 7 "[]" "''p''" t1 own1 "Accepted c" hs] first by (simp add: empty js W own)
  have d2: "deliver_message W (own1, hs)
      (request_message letter_hex ''p'' (ingest_topic ''orders'') [] 8) t2 = Some ((own1, hs), Some (8, []))"
    using deliver_ingest[of W own1 8 "[]" "''p''" t2 own1 "Accepted c" hs] again own1 by (simp add: empty js W)
  show ?thesis
    unfolding send by (simp add: numeral_3_eq_3 d1 d2 own own1 js W)
qed


section \<open>Control requests end to end\<close>

text \<open>The operation on the registry that a request asks for, if it is one that is answered by \<open>Ok\<close>.\<close>

fun request_op :: "control_request \<Rightarrow> sub_op option" where
  "request_op (CreateSubscription name p _) = Some (Create name p)"
| "request_op (DeleteSubscription name _) = Some (Delete name)"
| "request_op (AckCursor name c _) = Some (Ack name c)"
| "request_op (NackCursor name c _) = Some (Nack name c)"
| "request_op _ = None"

definition speaks :: "hex_codec \<Rightarrow> json_codec \<Rightarrow> ('i, 'c) world \<Rightarrow> u64 \<Rightarrow> bool" where
  "speaks hx js W now \<longleftrightarrow> world_ok W \<and> hexlib W = hx \<and> json W = js"

text \<open>A control call that returned a reply was served: the owner ran the handler on that request.\<close>

lemma control_call_served:
  fixes script :: "('i, 'c) fate list" and ok :: "('i, 'c) world \<Rightarrow> u64 \<Rightarrow> bool"
  assumes "hex_contract hx" "json_contract js" "list_all (fate_ok ok) script"
    and "\<And>W now. ok W now \<Longrightarrow> speaks hx js W now"
    and "control (mesh_client me hx js) ((own, hs), script) (topic_name own) ow req t =
      (((own', hs'), script'), Inr a)"
  obtains W :: "('i, 'c) world" and now body bs rep where "ok W now" "speaks hx js W now"
    and "control_from_json js body = Inr req"
    and "handle_control W own (hex_encode hx body) me now = Some (own', rep)"
    and "control_reply_encode js rep = Inr bs" "control_reply_decode js bs = Inr a"
proof -
  have "ce_request (mesh_client me hx js :: ((owner \<times> token_set) \<times> ('i, 'c) fate list) client) = mesh_send me" by simp
  from mesh.control_result[where ok = ok, OF _ this assms(5)] assms(3)
  obtain body bs where body: "control_encode js req = Inr body"
    and sv: "mesh_serves ok me own (control_topic (topic_name own)) body own' (Some bs)"
    and dec: "control_reply_decode js bs = Inr a"
    by auto
  from control_served[OF sv] obtain W :: "('i, 'c) world" and now rep where ok: "ok W now"
    "handle_control W own (hex_encode (hexlib W) body) me now = Some (own', rep)"
    "control_reply_encode (json W) rep = Inr bs"
    by blast
  then show thesis
    using that[of W now body rep bs] assms(4)[OF ok(1)] json_contractD(3)[OF assms(2) body] dec by (simp add: speaks_def)
qed

text \<open>A call leaves a script of good fates.\<close>

lemma control_keeps_script:
  fixes script :: "('i, 'c) fate list"
  assumes "list_all (fate_ok ok) script"
    and "control (mesh_client me hx js) ((own, hs), script) tp ow req t = ((st, script'), r)"
  shows "list_all (fate_ok ok) script'"
  using mesh.control_result[where ok = ok, OF _ _ assms(2), of me] assms(1) by simp

text \<open>A request that is served, with a reply that arrives.\<close>

lemma served_control:
  assumes "control_encode js req = Inr body" "hexlib W = hx" "json W = js"
    and "handle_control W own (hex_encode hx body) me now = Some (own', rep)"
    and "token_seen token now hs = (hs', False)" "control_reply_encode js rep = Inr bs"
  shows "control (mesh_client me hx js) ((own, hs), Served W token now True # fs) (topic_name own) (own_id own) req t =
    (((own', hs'), fs), control_reply_decode js bs)"
proof -
  let ?m = "request_message hx me (control_topic (topic_name own)) body token"
  have "serve_ingest_message W own ?m now = (own, None)"
    by (simp add: serve_ingest_message_def request_message_def topics_apart[symmetric])
  moreover have "serve_control_message W (own, hs) ?m now = Some ((own', hs'), Some (token, bs))"
    using assms by (simp add: serve_control_message_def request_message_def)
  ultimately have "deliver_message W (own, hs) ?m now = Some ((own', hs'), Some (token, bs))"
    by (simp add: deliver_message_def)
  with assms(1,2) show ?thesis by (simp add: control_def round_trip_def)
qed

lemma served_decoded:
  assumes "hex_contract (hexlib W)" "control_from_json (json W) body = Inr req"
    and "handle_control W own (hex_encode (hexlib W) body) me now = Some (own', rep)"
    and "\<And>why. rep \<noteq> Control_rejected why" "\<And>c. rep \<noteq> High c"
  shows "control_gate W own req me now = Inr () \<and> serve_request W own req now = Some (own', rep)"
  using assms(3)
proof (cases rule: handle_control_cases)
  case Unserved
  with assms(4,5) show ?thesis by auto
next
  case (Served bs req')
  then have "req' = req"
    using assms(1,2) by (auto simp: control_decode_def hex_contractD(1) split: if_splits)
  with Served show ?thesis by simp
qed

lemma propose_sub_ok:
  assumes "world_ok W" "propose_sub W own failed x = (own', Control_ok)"
  shows "own' = own\<lparr>own_subs := apply_sub (own_subs own) x\<rparr>"
proof -
  obtain r res where p: "subs_propose W (own_subs own) x = (r, res)" by fastforce
  with assms(2) have "own' = own\<lparr>own_subs := r\<rparr>" "is_ok res"
    by (auto simp: propose_sub_def split: sum.splits)
  with propose_contractD(1)[OF world_okD(3)[OF assms(1)] p] show ?thesis by simp
qed

lemma handle_lease_not_ok: "handle_lease W own name mx now \<noteq> Some (own', Control_ok)"
  by (auto simp: handle_lease_def Let_def split: option.splits sum.splits prod.splits)

lemma serve_request_ok:
  assumes "world_ok W" "serve_request W own req now = Some (own', Control_ok)"
  shows "\<exists>x. request_op req = Some x \<and> own' = own\<lparr>own_subs := apply_sub (own_subs own) x\<rparr> \<and>
    (\<forall>name c. x = Ack name c \<longrightarrow> reg_get (own_subs own) name \<noteq> None)"
  using assms propose_sub_ok[OF assms(1)] handle_lease_not_ok
  by (cases req) (fastforce split: sum.splits if_splits)+

text \<open>What a call that returned a batch of messages did.\<close>

lemma lease_call_served:
  fixes script :: "('i, 'c) fate list" and ok :: "('i, 'c) world \<Rightarrow> u64 \<Rightarrow> bool"
  assumes "hex_contract hx" "json_contract js" "list_all (fate_ok ok) script"
    and "\<And>W now. ok W now \<Longrightarrow> speaks hx js W now"
    and "lease_messages (mesh_client me hx js) ((own, hs), script) (topic_name own) ow name mx grant t =
      (((own', hs'), script'), Inr ms)"
  obtains W :: "('i, 'c) world" and now where "ok W now" "world_ok W"
    and "handle_lease W own name mx now = Some (own', Pulled ms)"
proof -
  obtain a where c: "control (mesh_client me hx js) ((own, hs), script) (topic_name own) ow (Pull name mx grant) t =
      (((own', hs'), script'), Inr a)" and a: "a = Pulled ms"
    using lease_messages_Inr[OF assms(5)] by simp
  obtain W :: "('i, 'c) world" and now body bs rep where W: "ok W now" "speaks hx js W now"
    and req: "control_from_json js body = Inr (Pull name mx grant)"
    and h: "handle_control W own (hex_encode hx body) me now = Some (own', rep)"
    and rep: "control_reply_encode js rep = Inr bs" "control_reply_decode js bs = Inr a"
    by (rule control_call_served[OF assms(1-4) c])
  have "rep = Pulled ms" using json_contractD(5)[OF assms(2) rep(1)] rep(2) a by simp
  with served_decoded[of W body "Pull name mx grant" own me now own' rep] W req h assms(1)
  show thesis by (intro that[of W now]) (simp_all add: speaks_def)
qed

lemma control_ok_applied:
  fixes script :: "('i, 'c) fate list"
  assumes "hex_contract hx" "json_contract js" "list_all (fate_ok (speaks hx js)) script"
    and "reg_inv (own_subs own)"
    and "control_ok (mesh_client me hx js) ((own, hs), script) (topic_name own) ow req t =
      (((own', hs'), script'), Inr ())"
  shows "\<exists>x. request_op req = Some x \<and> own' = own\<lparr>own_subs := apply_sub (own_subs own) x\<rparr> \<and>
    (require_cap own \<longrightarrow> (\<exists>(W :: ('i, 'c) world) now grant. hexlib W = hx \<and> request_grant req = Some grant \<and>
      authorize W own me ABILITY_SUBSCRIBE grant now = Inr ())) \<and>
    (\<forall>name c. x = Ack name c \<longrightarrow> c \<in> handled_in name (own_subs own'))"
proof -
  have c: "control (mesh_client me hx js) ((own, hs), script) (topic_name own) ow req t =
      (((own', hs'), script'), Inr Control_ok)"
    by (rule control_ok_Inr[OF assms(5)])
  obtain W :: "('i, 'c) world" and now body bs rep where W: "speaks hx js W now"
    and req: "control_from_json js body = Inr req"
    and h: "handle_control W own (hex_encode hx body) me now = Some (own', rep)"
    and rep: "control_reply_encode js rep = Inr bs" "control_reply_decode js bs = Inr Control_ok"
    by (rule control_call_served[OF assms(1-3) _ c]) simp
  have "rep = Control_ok" by (rule json_contractD(4)[OF assms(2) rep])
  with served_decoded[of W body req own me now own' rep] W req h assms(1)
  have gate: "control_gate W own req me now = Inr ()" and "serve_request W own req now = Some (own', Control_ok)"
    by (simp_all add: speaks_def)
  with serve_request_ok[of W own req now own'] W obtain x where x: "request_op req = Some x"
    "own' = own\<lparr>own_subs := apply_sub (own_subs own) x\<rparr>"
    "\<forall>name c. x = Ack name c \<longrightarrow> reg_get (own_subs own) name \<noteq> None"
    by (auto simp: speaks_def)
  have "c \<in> handled_in name (own_subs own')" if ack: "x = Ack name c" for name c
  proof -
    obtain s where "reg_get (own_subs own) name = Some s" using x(3) ack by blast
    from handled_in_ack[OF assms(4) this] show ?thesis by (simp add: x(2) ack)
  qed
  moreover have "\<exists>grant. request_grant req = Some grant \<and> authorize W own me ABILITY_SUBSCRIBE grant now = Inr ()"
    if "require_cap own"
    using gate that by (auto simp: control_gate_def split: option.splits)
  ultimately show ?thesis using x W unfolding speaks_def by blast
qed



end
