(* ===== verification/Cli_Props.thy ===== *)
theory Cli_Props
  imports Cli Remote
begin

text \<open>
  Properties of the command line: the argument parser, what the live tail and the durable pull print,
  what \<open>lease --auto-ack\<close> leaves at the owner, and the expiry of a minted link.
\<close>

section \<open>Lemmas\<close>

lemma parse_attr_pair:
  assumes "CHR ''='' \<notin> set k" "k \<noteq> []"
  shows "parse_attr (k @ CHR ''='' # v) = Inr (k, v)"
proof -
  have "takeWhile (\<lambda>c. c \<noteq> CHR ''='') (k @ CHR ''='' # v) = k"
    using assms(1) by (subst takeWhile_append2) auto
  moreover have "dropWhile (\<lambda>c. c \<noteq> CHR ''='') (k @ CHR ''='' # v) = CHR ''='' # v"
    using assms(1) by (subst dropWhile_append2) auto
  ultimately show ?thesis using assms(2) by (simp add: parse_attr_def)
qed

lemma show_messages_Finished:
  "show_messages hx ms = (ls, Finished) \<Longrightarrow> map Some ls = map (show_message hx) ms"
  by (induction ms arbitrary: ls) (auto split: option.splits prod.splits)

lemma with_client_Inr [simp]: "connect env = Inr cl \<Longrightarrow> with_client env s act = act cl"
  by (simp add: with_client_def)

subsection \<open>The live tail\<close>

text \<open>The messages among the looks from \<open>i\<close> to \<open>k\<close> that the filter admits.\<close>

definition admitted :: "live_subscription \<Rightarrow> nat \<Rightarrow> nat \<Rightarrow> message list" where
  "admitted sub i k = filter (filter_matches (live_filter sub)) (List.map_filter (incoming sub) [i..<k])"

lemma admitted_refl [simp]: "admitted sub i i = []"
  by (simp add: admitted_def)

lemma admitted_position [simp]: "admitted (sub\<lparr>position := j\<rparr>) = admitted sub"
  by (simp add: admitted_def fun_eq_iff)

lemma admitted_append:
  assumes "i \<le> j" "j \<le> k"
  shows "admitted sub i k = admitted sub i j @ admitted sub j k"
proof -
  have "[i..<k] = [i..<j] @ [j..<k]" using assms by (metis le_Suc_ex upt_add_eq_append)
  then show ?thesis by (simp only: admitted_def List.map_filter_def filter_append map_append)
qed

lemma admitted_none:
  assumes "\<forall>j. i \<le> j \<longrightarrow> j < k \<longrightarrow> \<not> ends_recv sub j"
  shows "admitted sub i k = []"
  using assms
  by (fastforce simp: admitted_def filter_empty_conv List.map_filter_def ends_recv_def)

lemma admitted_Suc:
  "admitted sub k (Suc k) = (case incoming sub k of
     Some m \<Rightarrow> if filter_matches (live_filter sub) m then [m] else [] | None \<Rightarrow> [])"
  by (simp add: admitted_def map_filter_simps split: option.split)

text \<open>One answer of \<open>recv\<close> in these terms.\<close>

lemma recv_admitted:
  assumes "recv sub = Some (sub', r)"
  obtains i where "position sub \<le> i" "sub' = sub\<lparr>position := Suc i\<rparr>" "r = incoming sub i"
    "admitted sub (position sub) i = []" "\<And>j. position sub \<le> j \<Longrightarrow> j < i \<Longrightarrow> incoming sub j \<noteq> None"
    "r \<noteq> None \<Longrightarrow> admitted sub (position sub) (Suc i) = [the r]"
proof -
  obtain i where i: "position sub \<le> i" "sub' = sub\<lparr>position := Suc i\<rparr>" "r = incoming sub i" "ends_recv sub i"
    and before: "\<forall>j. position sub \<le> j \<longrightarrow> j < i \<longrightarrow> \<not> ends_recv sub j"
    using assms unfolding recv_Some_iff by blast
  show thesis
  proof (rule that[OF i(1-3) admitted_none[OF before]])
    show "incoming sub j \<noteq> None" if "position sub \<le> j" "j < i" for j
      using before that by (auto simp: ends_recv_def)
    show "admitted sub (position sub) (Suc i) = [the r]" if "r \<noteq> None"
      using that i(3,4) admitted_append[OF i(1), of "Suc i"] admitted_none[OF before]
      by (auto simp: admitted_Suc ends_recv_def)
  qed
qed

text \<open>What the loop prints when it ends.\<close>

definition tail_done :: "hex_codec \<Rightarrow> usize option \<Rightarrow> live_subscription \<Rightarrow> nat \<Rightarrow> nat \<Rightarrow> line list \<Rightarrow> bool" where
  "tail_done hx count sub seen k ls \<longleftrightarrow>
     map Some ls = map (show_message hx) (admitted sub (position sub) k) \<and>
     (\<forall>j. position sub \<le> j \<longrightarrow> j < k \<longrightarrow> incoming sub j \<noteq> None) \<and>
     (incoming sub k = None \<and> (\<forall>n. count = Some n \<longrightarrow> seen + length ls < max 1 (unat n)) \<or>
      (\<exists>n. count = Some n \<and> seen + length ls = max 1 (unat n)))"

lemma tail_count_step:
  fixes n seen :: usize
  assumes "\<not> n \<le> seen + 1" "unat seen < max 1 (unat n)"
  shows "unat (seen + 1) = Suc (unat seen) \<and> Suc (unat seen) < max 1 (unat n)"
proof -
  have "unat n \<noteq> 0" using assms(1) by (metis unat_eq_zero word_zero_le)
  with assms(2) have "seen < n" by (simp add: word_less_nat_alt max_def split: if_splits)
  then have "unat (seen + 1) = Suc (unat seen)" by (rule unat_inc[OF less_not_top])
  with assms(1) show ?thesis by (simp add: word_le_nat_alt)
qed

lemma tail_loop_Finished:
  assumes "tail_loop hx count sub seen out = Some (ls', Finished)"
    and "\<forall>n. count = Some n \<longrightarrow> unat seen < max 1 (unat n)"
  shows "\<exists>k ls. position sub \<le> k \<and> ls' = out @ ls \<and> tail_done hx count sub (unat seen) k ls"
  using assms
proof (induction hx count sub seen out "(ls', Finished)" rule: tail_loop.raw_induct[rotated, consumes 1])
  case (1 tail hx count sub seen out)
  from 1(2) obtain sub1 r where r: "recv sub = Some (sub1, r)" by (auto split: option.splits)
  obtain i where i: "position sub \<le> i" "sub1 = sub\<lparr>position := Suc i\<rparr>" "r = incoming sub i"
    "admitted sub (position sub) i = []" "\<And>j. position sub \<le> j \<Longrightarrow> j < i \<Longrightarrow> incoming sub j \<noteq> None"
    "r \<noteq> None \<Longrightarrow> admitted sub (position sub) (Suc i) = [the r]"
    by (rule recv_admitted[OF r]) blast
  show ?case
  proof (cases r)
    case None
    then have "ls' = out" using 1(2) r by simp
    then show ?thesis using i None 1(3) by (intro exI[of _ i] exI[of _ "[]"]) (simp add: tail_done_def)
  next
    case (Some m)
    then obtain l where l: "show_message hx m = Some l" using 1(2) r by (auto split: option.splits)
    have m: "admitted sub (position sub) (Suc i) = [m]" using i(6) Some by simp
    have looks: "j < Suc i \<Longrightarrow> position sub \<le> j \<Longrightarrow> incoming sub j \<noteq> None" for j
      using i(5) i(3)[symmetric] Some by (cases "j = i") simp_all
    show ?thesis
    proof (cases "\<exists>n. count = Some n \<and> n \<le> seen + 1")
      case True
      then obtain n where n: "count = Some n" "n \<le> seen + 1" by blast
      have "unat (seen + 1) \<le> Suc (unat seen)" by (simp add: unat_word_ariths)
      then have "unat n \<le> Suc (unat seen)" using n(2) by (simp add: word_le_nat_alt)
      with 1(3) n have "Suc (unat seen) = max 1 (unat n)" by auto
      moreover have "ls' = out @ [l]" using 1(2) r Some l n by simp
      ultimately show ?thesis using i(1) m l n looks
        by (intro exI[of _ "Suc i"] exI[of _ "[l]"]) (auto simp: tail_done_def)
    next
      case False
      then have rec: "tail hx count sub1 (seen + 1) (out @ [l]) = Some (ls', Finished)"
        using 1(2) r Some l by (auto split: option.splits if_splits)
      have count: "unat (seen + 1) = Suc (unat seen) \<and> Suc (unat seen) < max 1 (unat n)" if "count = Some n" for n
        using tail_count_step[of n seen] False 1(3) that by simp
      from 1(1)[OF rec] count obtain k ls where k: "Suc i \<le> k" "ls' = (out @ [l]) @ ls"
        "tail_done hx count sub1 (unat (seen + 1)) k ls"
        unfolding i(2) by fastforce
      have "admitted sub (position sub) k = m # admitted sub (Suc i) k"
        using admitted_append[of "position sub" "Suc i" k sub] i(1) k(1) m by simp
      then have "tail_done hx count sub (unat seen) k (l # ls)"
        using k(3) count l looks unfolding tail_done_def i(2)
        by (auto simp: not_less_eq_eq) (metis Suc_leI le_less_linear)+
      then show ?thesis using k(1,2) i(1) by (intro exI[of _ k] exI[of _ "l # ls"]) simp
    qed
  qed
qed

lemma open_tail_position: "open_tail cl tp ow flt = Inr sub \<Longrightarrow> position sub = 0"
  by (auto simp: open_tail_def subscribe_filtered_def subscribe_def result_simps split: option.splits)

subsection \<open>Automatic acks\<close>

lemma handle_lease_topic: "handle_lease W own name mx now = Some (own', reply) \<Longrightarrow> topic_name own' = topic_name own"
  by (auto simp: handle_lease_def route_dead_letters_def Let_def split: if_splits option.splits sum.splits prod.splits)

lemma fate_ok_mono: "list_all (fate_ok ok) script \<Longrightarrow> (\<And>W now. ok W now \<Longrightarrow> ok' W now) \<Longrightarrow> list_all (fate_ok ok') script"
  by (induction script) (auto simp: fate_ok_def split: fate.splits)

lemma lease_call_effect:
  fixes script :: "('i, 'c) fate list" and ok :: "('i, 'c) world \<Rightarrow> u64 \<Rightarrow> bool"
  assumes "hex_contract hx" "json_contract js" "list_all (fate_ok ok) script"
    and "\<And>W now. ok W now \<Longrightarrow> speaks hx js W now"
    and "owner_inv own" "cursor_room own"
    and "lease_messages (mesh_client me hx js) ((own, hs), script) (topic_name own) ow name mx grant t =
      (((own', hs'), script'), Inr ms)"
  obtains W :: "('i, 'c) world" and now where "ok W now" "world_ok W"
    and "handle_lease W own name mx now = Some (own', Pulled ms)" "list_all (fate_ok ok) script'"
    and "topic_name own' = topic_name own" "writer own' = writer own" "dedup own' = dedup own"
    and "reg_inv (own_subs own')" "reg_len (own_subs own') \<le> MAX_SUBSCRIPTIONS"
proof -
  obtain W :: "('i, 'c) world" and now where W: "ok W now" "world_ok W"
    and h: "handle_lease W own name mx now = Some (own', Pulled ms)"
    by (rule lease_call_served[OF assms(1-4,7)])
  note eff = handle_lease_effect[OF W(2) assms(5,6) h]
  with subs_progress_inv owner_invD(2,4)[OF assms(5)]
  have "reg_inv (own_subs own')" "reg_len (own_subs own') \<le> MAX_SUBSCRIPTIONS" by blast+
  moreover have "list_all (fate_ok ok) script'"
    by (rule control_keeps_script[OF assms(3) lease_messages_Inr[OF assms(7)]])
  ultimately show thesis using that[OF W h] eff handle_lease_topic[OF h] by blast
qed

lemma ack_call_effect:
  fixes script :: "('i, 'c) fate list" and ok :: "('i, 'c) world \<Rightarrow> u64 \<Rightarrow> bool"
  assumes "hex_contract hx" "json_contract js" "list_all (fate_ok ok) script"
    and "\<And>W now. ok W now \<Longrightarrow> speaks hx js W now" "reg_inv (own_subs own)"
    and "ack (mesh_client me hx js) ((own, hs), script) (topic_name own) ow name c grant t =
      (((own', hs'), script'), Inr ())"
  shows "own' = own\<lparr>own_subs := apply_sub (own_subs own) (Ack name c)\<rparr> \<and> list_all (fate_ok ok) script' \<and>
    c \<in> handled_in name (own_subs own')"
proof -
  have call: "control_ok (mesh_client me hx js) ((own, hs), script) (topic_name own) ow (AckCursor name c grant) t =
      (((own', hs'), script'), Inr ())"
    using assms(6) by (auto simp: ack_def split: sum.splits)
  from control_ok_applied[OF assms(1,2) fate_ok_mono[OF assms(3,4)] assms(5) call]
    control_keeps_script[OF assms(3) control_ok_Inr[OF call]]
  show ?thesis by auto
qed

lemma ack_keeps: "keeps name 0 r (Ack name c)"
  by (simp add: keeps_def lease_planned_def)

text \<open>A loop that ends without an error has applied one ack for each message.\<close>

lemma lease_loop_acks:
  fixes script :: "('i, 'c) fate list" and ok :: "('i, 'c) world \<Rightarrow> u64 \<Rightarrow> bool"
  assumes "hex_contract hx" "json_contract js" "\<And>W now. ok W now \<Longrightarrow> speaks hx js W now"
    and "lease_loop (mesh_client me hx js) ((own, hs), script) (topic_name own) ow name True grant t lms =
      (((own', hs'), script'), ls, Finished)"
    and "list_all (fate_ok ok) script" "reg_inv (own_subs own)"
  shows "own' = own\<lparr>own_subs := replay apply_sub (own_subs own) (map (Ack name) (map (msg_cursor \<circ> leased_msg) lms))\<rparr> \<and>
    list_all (fate_ok ok) script' \<and> map Some ls = map (show_leased hx) lms \<and>
    (\<forall>lm \<in> set lms. msg_cursor (leased_msg lm) \<in> handled_in name (own_subs own')) \<and>
    handled_in name (own_subs own) \<subseteq> handled_in name (own_subs own')"
  using assms(4-)
proof (induction lms arbitrary: own hs script ls)
  case (Cons lm lms)
  let ?c = "msg_cursor (leased_msg lm)"
  obtain l where l: "show_leased hx lm = Some l" using Cons.prems(1) by (cases "show_leased hx lm") auto
  obtain own1 hs1 script1 r where r: "ack (mesh_client me hx js) ((own, hs), script) (topic_name own) ow name ?c grant t =
      (((own1, hs1), script1), r)"
    by (metis prod.exhaust)
  with Cons.prems(1) l have u: "r = Inr ()" by (cases r) auto
  note eff = ack_call_effect[OF assms(1,2) Cons.prems(2) assms(3) Cons.prems(3) r[unfolded u]]
  then have own1: "own1 = own\<lparr>own_subs := apply_sub (own_subs own) (Ack name ?c)\<rparr>" by simp
  have inv: "reg_inv (own_subs own1)"
    using registry_handled.apply_inv[OF Cons.prems(3) ack_keeps] by (simp add: own1)
  have sub: "handled_in name (own_subs own) \<subseteq> handled_in name (own_subs own1)"
    using handled_in_apply[OF Cons.prems(3) ack_keeps] by (simp add: own1)
  obtain ls1 where ls1: "ls = l # ls1" "lease_loop (mesh_client me hx js) ((own1, hs1), script1) (topic_name own1) ow name
      True grant t lms = (((own', hs'), script'), ls1, Finished)"
    using Cons.prems(1) l r u own1 by (auto split: prod.splits)
  from Cons.IH[OF ls1(2) _ inv] eff l ls1(1) sub show ?case by (auto simp: own1)
qed simp

text \<open>The lines of a batch.\<close>

lemma batch_lines:
  assumes "map Some ls = map (show_leased hx) lms"
  shows "length ls = length lms" "l \<in> set ls \<Longrightarrow>
    \<exists>lm \<in> set lms. \<exists>p x. l = Shown_leased (msg_cursor (leased_msg lm)) (delivery_attempt lm) p x"
proof -
  show "length ls = length lms" using arg_cong[OF assms, of length] by simp
  assume "l \<in> set ls"
  then have "Some l \<in> set (map Some ls)" by simp
  then obtain lm where "lm \<in> set lms" "show_leased hx lm = Some l" unfolding assms by auto
  then show "\<exists>lm \<in> set lms. \<exists>p x. l = Shown_leased (msg_cursor (leased_msg lm)) (delivery_attempt lm) p x"
    by (auto simp: show_leased_def Let_def)
qed

text \<open>A run of the command that ends: one lease, and an ack for each message of it.\<close>

lemma auto_ack_run:
  fixes script :: "('i, 'c) fate list" and ok :: "('i, 'c) world \<Rightarrow> u64 \<Rightarrow> bool"
  assumes "hex_contract hx" "json_contract js" "list_all (fate_ok ok) script"
    and "\<And>W now. ok W now \<Longrightarrow> speaks hx js W now"
    and "owner_inv own" "cursor_room own" "connect env = Inr (mesh_client me hx js)"
    and "ending (cmd_lease env ((own, hs), script) (topic_name own) name ow mx True grant t) = Finished"
  obtains W :: "('i, 'c) world" and now own1 own2 hs2 script2 ms ls where "ok W now" "world_ok W"
    and "handle_lease W own name mx now = Some (own1, Pulled ms)"
    and "topic_name own1 = topic_name own" "writer own1 = writer own" "dedup own1 = dedup own"
    and "reg_inv (own_subs own1)" "reg_len (own_subs own1) \<le> MAX_SUBSCRIPTIONS"
    and "own2 = own1\<lparr>own_subs := replay apply_sub (own_subs own1) (map (Ack name) (map (msg_cursor \<circ> leased_msg) ms))\<rparr>"
    and "list_all (fate_ok ok) script2" "map Some ls = map (show_leased hx) ms"
    and "\<forall>lm \<in> set ms. msg_cursor (leased_msg lm) \<in> handled_in name (own_subs own2)"
    and "after (cmd_lease env ((own, hs), script) (topic_name own) name ow mx True grant t) = ((own2, hs2), script2)"
    and "printed (cmd_lease env ((own, hs), script) (topic_name own) name ow mx True grant t) =
      (if ms = [] then [No_messages name] else []) @ ls @ (if ms \<noteq> [] then [Acked_all (length ms)] else [])"
proof -
  let ?cl = "mesh_client me hx js :: ((owner \<times> token_set) \<times> ('i, 'c) fate list) client"
  obtain own1 hs1 script1 r where r: "lease_messages ?cl ((own, hs), script) (topic_name own) ow name mx grant t =
      (((own1, hs1), script1), r)"
    by (metis prod.exhaust)
  then obtain ms where "r = Inr ms"
    using assms(7,8) by (cases r) (auto simp: cmd_lease_def finish_def)
  with r have l: "lease_messages ?cl ((own, hs), script) (topic_name own) ow name mx grant t =
      (((own1, hs1), script1), Inr ms)" by simp
  obtain W :: "('i, 'c) world" and now where W: "ok W now" "world_ok W"
    "handle_lease W own name mx now = Some (own1, Pulled ms)" "list_all (fate_ok ok) script1"
    and own1: "topic_name own1 = topic_name own" "writer own1 = writer own" "dedup own1 = dedup own"
      "reg_inv (own_subs own1)" "reg_len (own_subs own1) \<le> MAX_SUBSCRIPTIONS"
    by (rule lease_call_effect[OF assms(1-6) l])
  obtain own2 hs2 script2 ls e where loop: "lease_loop ?cl ((own1, hs1), script1) (topic_name own1) ow name True grant t ms =
      (((own2, hs2), script2), ls, e)"
    by (metis prod.exhaust)
  have out: "e = Finished"
    "after (cmd_lease env ((own, hs), script) (topic_name own) name ow mx True grant t) = ((own2, hs2), script2)"
    "printed (cmd_lease env ((own, hs), script) (topic_name own) name ow mx True grant t) =
      (if ms = [] then [No_messages name] else []) @ ls @ (if ms \<noteq> [] then [Acked_all (length ms)] else [])"
    using assms(7,8) l loop own1(1) by (auto simp: cmd_lease_def)
  from lease_loop_acks[OF assms(1,2,4) loop[unfolded out(1)] W(4) own1(4)]
  show thesis by (intro that[OF W(1-3) own1 _ _ _ _ out(2,3)]) blast+
qed

text \<open>An expiry that wraps to 0 mints a link that never expires.\<close>

lemma grant_expiry_wraps:
  assumes "load_identity env dir = Inr identity" "now_secs env 0 \<noteq> 0"
  shows "\<exists>ability nonce token. mint_link (iamlib (local_world env)) identity
      (identity_node_id (iamlib (local_world env)) identity) ability tp 0 nonce = Inr token \<and>
    printed (cmd_grant env s tp for_subscribe (- now_secs env 0) None (Some dir)) =
      [Minted_token token, Token_note ability tp 0]"
  using assms by (auto simp: cmd_grant_def finish_def parse_audience_def mint_link_def Let_def)

section \<open>Properties\<close>

text \<open>C27: What \<open>subscribe\<close> prints: when the command ends, its lines after the first are the messages of the
  stream that the filter admits, in order and none left out, up to the end of the stream or up to the
  count asked for; a count of 0 acts as 1.\<close>

theorem live_tail_prints:
  assumes "connect env = Inr cl" "open_tail cl tp ow flt = Inr sub"
    and "cmd_subscribe env s tp ow count flt = Some outcome" "ending outcome = Finished"
  shows "\<exists>k ls. printed outcome = Subscribed tp ow # ls \<and>
    map Some ls = map (show_message (client_hex cl)) (admitted sub 0 k) \<and>
    (\<forall>j < k. incoming sub j \<noteq> None) \<and>
    (incoming sub k = None \<and> (\<forall>n. count = Some n \<longrightarrow> length ls < max 1 (unat n)) \<or>
     (\<exists>n. count = Some n \<and> length ls = max 1 (unat n)))"
proof -
  obtain ls where t: "tail_loop (client_hex cl) count sub 0 [] = Some (ls, Finished)"
    and p: "printed outcome = Subscribed tp ow # ls"
    using assms by (auto simp: cmd_subscribe_def)
  from tail_loop_Finished[OF t] obtain k where "tail_done (client_hex cl) count sub 0 k ls"
    by (auto simp: less_max_iff_disj)
  then show ?thesis using p open_tail_position[OF assms(2)] unfolding tail_done_def by auto
qed

text \<open>C26: A \<open>pull\<close> that ends without a note that more remains and without a warning has printed every message
  the owner had when it answered, above the cursor asked from and the retention floor: each as the line
  of the message that the replica holds at that cursor.\<close>

theorem pull_command_complete:
  assumes "connect env = Inr cl" "open_reader cl (log_name tp) ow = Inr v" "follows v"
    and "cmd_pull env s tp ow from = Some outcome" "ending outcome = Finished"
    and "\<And>c. More_remain c \<notin> set (printed outcome)" "\<And>n. Not_converged n \<notin> set (printed outcome)"
  shows "\<exists>i t. snd (fetch_high_cursor cl s tp ow 8000) = Inr t \<and>
    (\<forall>c. max from (log_floor (shown v i)) < c \<longrightarrow> c \<le> t \<longrightarrow>
      (\<exists>m \<in> set (log_messages (shown v i)). msg_cursor m = c \<and>
        show_message (client_hex cl) m \<in> Some ` set (printed outcome)))"
proof -
  obtain s1 r where r: "pull cl s tp ow from = Some (s1, r)"
    using assms(1,4) by (auto simp: cmd_pull_def)
  then obtain page where "r = Inr page" using assms(1,4,5) by (cases r) (auto simp: cmd_pull_def finish_def)
  with r have page: "pull cl s tp ow from = Some (s1, Inr page)" by simp
  obtain ls e where "show_messages (client_hex cl) (rp_messages page) = (ls, e)" by fastforce
  then have ls: "show_messages (client_hex cl) (rp_messages page) = (ls, Finished)"
    and out: "printed outcome = ls @ pull_notes from page"
    using assms(1,4,5) page by (auto simp: cmd_pull_def)
  from pull_limitedE[OF page[unfolded pull_def]] assms(2) obtain yes i
    where conv: "converge_to v (ok_value (snd (fetch_high_cursor cl s tp ow 8000))) = Some (yes, i)"
      and pg: "page = make_page (shown v i) from (clamp_limit DEFAULT_PULL_LIMIT)
        (ok_value (snd (fetch_high_cursor cl s tp ow 8000))) yes"
    by (metis sum.inject(2))
  have whole: "\<not> rp_truncated page" "yes"
    using assms(6)[of "rp_next page"] assms(7)[of "rp_missing page"] unfolding out pull_notes_def
    by (auto simp: pg split: if_splits)
  obtain t where t: "snd (fetch_high_cursor cl s tp ow 8000) = Inr t" "t \<le> high_cursor (shown v i)"
    using converged_reached[OF assms(3), of "ok_value (snd (fetch_high_cursor cl s tp ow 8000))" i] conv whole(2)
    by auto
  have all: "rp_messages page = log_since (shown v i) from" using whole(1) by (simp add: pg)
  have "\<exists>m \<in> set (log_messages (shown v i)). msg_cursor m = c \<and>
      show_message (client_hex cl) m \<in> Some ` set (printed outcome)"
    if range: "max from (log_floor (shown v i)) < c" "c \<le> t" for c
  proof -
    obtain m where m: "m \<in> set (log_since (shown v i) from)" "msg_cursor m = c"
      using in_log_since[OF follows_inv[OF assms(3)] range(1)] range(2) t(2) by (meson order_trans)
    then have "show_message (client_hex cl) m \<in> set (map Some ls)"
      unfolding show_messages_Finished[OF ls] all by simp
    then show ?thesis using m out by (auto simp: log_since_def)
  qed
  then show ?thesis using t(1) by blast
qed

text \<open>\<open>lease --auto-ack\<close> leaves nothing it printed to be delivered again: when the command ends over any
  lossy mesh, every message that it printed is handled at the owner, the log is untouched, and the
  note counts the messages printed.\<close>

theorem auto_ack_handles:
  fixes script :: "('i, 'c) fate list"
  assumes "hex_contract hx" "json_contract js" "list_all (fate_ok (speaks hx js)) script"
    and "owner_inv own" "cursor_room own" "connect env = Inr (mesh_client me hx js)"
    and "cmd_lease env ((own, hs), script) (topic_name own) name ow mx True grant t = outcome"
    and "ending outcome = Finished"
  shows "writer (fst (fst (after outcome))) = writer own \<and>
    (\<forall>c n p x. Shown_leased c n p x \<in> set (printed outcome) \<longrightarrow>
      c \<in> handled_in name (own_subs (fst (fst (after outcome))))) \<and>
    (\<forall>k. Acked_all k \<in> set (printed outcome) \<longrightarrow>
      k = length (filter (\<lambda>l. \<exists>c n p x. l = Shown_leased c n p x) (printed outcome)))"
proof -
  have fin: "ending (cmd_lease env ((own, hs), script) (topic_name own) name ow mx True grant t) = Finished"
    using assms(7,8) by simp
  obtain own1 own2 hs2 script2 ms ls where own1: "writer own1 = writer own"
    and own2: "own2 = own1\<lparr>own_subs := replay apply_sub (own_subs own1) (map (Ack name) (map (msg_cursor \<circ> leased_msg) ms))\<rparr>"
    and ls: "map Some ls = map (show_leased hx) ms"
    and acked: "\<forall>lm \<in> set ms. msg_cursor (leased_msg lm) \<in> handled_in name (own_subs own2)"
    and out: "after outcome = ((own2, hs2), script2)" "printed outcome =
      (if ms = [] then [No_messages name] else []) @ ls @ (if ms \<noteq> [] then [Acked_all (length ms)] else [])"
    unfolding assms(7)[symmetric] by (rule auto_ack_run[OF assms(1-3) _ assms(4-6) fin]) (assumption, blast)
  note lines = batch_lines[OF ls]
  have "filter (\<lambda>l. \<exists>c n p x. l = Shown_leased c n p x) ls = ls"
    by (rule filter_True) (use lines(2) in blast)
  with lines acked own1 show ?thesis unfolding out by (auto simp: own2 split: if_splits)
qed

text \<open>\<open>grant\<close> and \<open>inspect\<close> fit together: the token that \<open>grant\<close> prints shows, when inspected, the ability and
  the topic it was granted for.  Its expiry is 0, which is never, or the sum of the time and the
  argument modulo \<open>2^64\<close>.\<close>

theorem granted_link_inspects:
  assumes "iam_contract (iamlib (local_world env))"
    and "ending (cmd_grant env s tp for_subscribe expires_in audience dir) = Finished"
  shows "\<exists>token expiry. printed (cmd_grant env s tp for_subscribe expires_in audience dir) =
      [Minted_token token, Token_note (if for_subscribe then ABILITY_SUBSCRIBE else ABILITY_PUBLISH) tp expiry] \<and>
    printed (cmd_inspect env s' token) =
      [Abilities_line [if for_subscribe then ABILITY_SUBSCRIBE else ABILITY_PUBLISH], Scope_line tp] \<and>
    ending (cmd_inspect env s' token) = Finished \<and>
    unat expiry = (if expires_in = 0 then 0 else (unat (now_secs env 0) + unat expires_in) mod 2 ^ 64)"
  using assms
  by (auto simp: cmd_grant_def cmd_inspect_def finish_def Let_def mint_link_def inspect_link_def iam_contract_def
      and_then_def unat_word_ariths split: sum.splits)

section \<open>Witnesses\<close>

definition sample_setting :: "'s client \<Rightarrow> (node_id, nat list \<times> string list \<times> string option, 's) setting" where
  "sample_setting cl = \<lparr>coord_connect = Inr cl, local_world = two_world, open_writer = \<lambda>n. Inr empty_log,
     open_registry = \<lambda>n. Inr empty_registry, open_live = \<lambda>n. Inr (), read_file = \<lambda>n. Inl (External ''''),
     load_identity = \<lambda>d. Inr [1], project_data_dir = None, clock = \<lambda>i. Inr 100\<rparr>"

lemma sample_connect [simp]: "connect (sample_setting cl) = Inr cl"
  by (simp add: connect_def pubsub_connect_def sample_setting_def)

lemma granted_link_inspects_witness:
  "\<exists>token expiry. printed (cmd_grant (sample_setting sample_client) () ''orders'' True 60 None None) =
       [Minted_token token, Token_note ABILITY_SUBSCRIBE ''orders'' expiry] \<and> unat expiry = 160"
proof -
  have "ending (cmd_grant (sample_setting sample_client) () ''orders'' True 60 None None) = Finished"
    by (simp add: cmd_grant_def finish_def Let_def mint_link_def parse_audience_def) (simp add: sample_setting_def)
  moreover have "iam_contract (iamlib (local_world (sample_setting sample_client)))"
    using plain_iam_contract by (simp add: sample_setting_def two_world_def sample_world_def)
  moreover have "now_secs (sample_setting sample_client) 0 = 100" by (simp add: now_secs_def sample_setting_def)
  ultimately show ?thesis
    using granted_link_inspects[of "sample_setting sample_client" "()" "''orders''" True 60 None None "()"] by auto
qed

definition tail_client :: "unit client" where
  "tail_client = sample_client\<lparr>open_stream := \<lambda>name. Inr (\<lambda>i. if i < 2 then Some (sample_message_at 1) else None)\<rparr>"

lemma short_sample [simp]: "short_publisher ''p'' = Some ''p''"
  by (rule short_publisher_ascii[of "''p''", simplified]) 

lemma live_tail_prints_witness:
  "\<exists>l. printed (the (cmd_subscribe (sample_setting tail_client) () ''t'' ''o'' (Some 0) None)) = [Subscribed ''t'' ''o'', l] \<and>
     Some l = show_message letter_hex (sample_message_at 1)"
proof -
  have valid: "validate_topic ''t'' = Inr ()" by (simp add: topic_char_def is_ascii_alphanumeric_def)
  define sub where "sub = \<lparr>incoming = \<lambda>i. if i < 2 then Some (sample_message_at 1) else None, position = 0,
    live_filter = filter_any\<rparr>"
  then have sub: "open_tail tail_client ''t'' ''o'' None = Inr sub" and pos: "position sub = 0"
    and inc: "incoming sub = (\<lambda>i. if i < 2 then Some (sample_message_at 1) else None)" "live_filter sub = filter_any"
    by (simp_all add: open_tail_def subscribe_def valid tail_client_def)
  have r: "recv sub = Some (sub\<lparr>position := 1\<rparr>, Some (sample_message_at 1))"
    by (subst recv.simps) (simp add: pos inc filter_is_empty_def filter_any_def)
  obtain l where l: "show_message (client_hex tail_client) (sample_message_at 1) = Some l"
    by (simp add: show_message_def sample_message_at_def)
  then have "tail_loop (client_hex tail_client) (Some 0) sub 0 [] = Some ([l], Finished)"
    by (subst tail_loop.simps) (simp add: r)
  then obtain outcome where out: "cmd_subscribe (sample_setting tail_client) () ''t'' ''o'' (Some 0) None = Some outcome"
    "ending outcome = Finished" "printed outcome = [Subscribed ''t'' ''o'', l]"
    by (simp add: cmd_subscribe_def sub)
  from live_tail_prints[OF sample_connect sub out(1,2)] obtain k ls
    where "printed outcome = Subscribed ''t'' ''o'' # ls"
      and "map Some ls = map (show_message (client_hex tail_client)) (admitted sub 0 k)" by blast
  with out(3) have "map Some [l] = map (show_message (client_hex tail_client)) (admitted sub 0 k)" by simp
  then obtain m where m: "admitted sub 0 k = [m]" "Some l = show_message (client_hex tail_client) m" by auto
  then have "m \<in> set (admitted sub 0 k)" by simp
  then have "m = sample_message_at 1" by (auto simp: admitted_def List.map_filter_def inc split: if_splits)
  with m out show ?thesis by (simp add: tail_client_def sample_client_def)
qed

lemma pull_command_complete_witness:
  "\<exists>outcome l. cmd_pull (sample_setting sample_client) () ''t'' ''o'' 0 = Some outcome \<and>
     Some l = show_message letter_hex ((sample_message_at 2)\<lparr>msg_cursor := 2\<rparr>) \<and> l \<in> set (printed outcome)"
proof -
  let ?env = "sample_setting sample_client" and ?m = "(sample_message_at 2)\<lparr>msg_cursor := 2\<rparr>"
  have valid: "validate_topic ''t'' = Inr ()" by (simp add: topic_char_def is_ascii_alphanumeric_def)
  have fetch: "fetch_high_cursor sample_client () ''t'' ''o'' 8000 = ((), Inr 2)"
    by (simp add: fetch_high_cursor_def sample_client_def round_trip_def control_encode_def control_reply_decode_def)
  have conv: "converge_to sample_view (Some 2) = Some (True, 1)"
    by (simp add: converge_to_def await_target.simps[of _ _ 0]) (simp add: sample_view_def sample_script_high)
  have since: "log_since (shown sample_view i) 0 = [?m]" for i
    by (simp add: sample_view_def log_since_def sample_script_state)
  obtain l where l: "show_message letter_hex ?m = Some l"
    by (simp add: show_message_def sample_message_at_def)
  define page where "page = make_page (shown sample_view 1) 0 1000 (Some 2) True"
  have "pull sample_client () ''t'' ''o'' 0 = Some ((), Inr page)"
    by (simp add: pull_def pull_limited_def valid sample_open fetch ok_value_def conv clamp_limit_def
        DEFAULT_PULL_LIMIT_def MAX_PULL_LIMIT_def page_def)
  moreover have "rp_messages page = [?m]" "\<not> rp_truncated page" "rp_converged page"
    by (simp_all add: page_def since)
  moreover have "client_hex sample_client = letter_hex" by (simp add: sample_client_def)
  ultimately obtain outcome where out: "cmd_pull ?env () ''t'' ''o'' 0 = Some outcome" "ending outcome = Finished"
    and lines: "printed outcome = [l, Replayed 1 0 (rp_high page)]"
    using l by (auto simp: cmd_pull_def pull_notes_def replay_len_def)
  have "\<And>c. l \<noteq> More_remain c" "\<And>n. l \<noteq> Not_converged n"
    using l by (auto simp: show_message_def)
  with pull_command_complete[OF sample_connect sample_open sample_view_follows out] lines fetch obtain i
    where "\<forall>c. max 0 (log_floor (shown sample_view i)) < c \<longrightarrow> c \<le> 2 \<longrightarrow>
      (\<exists>m \<in> set (log_messages (shown sample_view i)). msg_cursor m = c \<and>
        show_message (client_hex sample_client) m \<in> Some ` set (printed outcome))"
    by auto
  then have "show_message letter_hex ?m \<in> Some ` set (printed outcome)"
    by (auto dest!: spec[of _ 2] simp: sample_view_def sample_script_state sample_client_def)
  with l out show ?thesis by auto
qed

text \<open>A codec for a lease of one message and its ack.\<close>

definition first_leased :: leased_message where
  "first_leased = \<lparr>leased_msg = new_message letter_hex 1 ''p'' [] 5, delivery_attempt = 1\<rparr>"

definition duo_json :: json_codec where
  "duo_json = two_json\<lparr>
     control_to_json := \<lambda>r. if r = Pull ''s'' 1 None then Inr [0] else if r = AckCursor ''s'' 1 None then Inr [1]
       else Inl (External ''''),
     control_from_json := \<lambda>bs. if bs = [0] then Inr (Pull ''s'' 1 None) else Inr (AckCursor ''s'' 1 None),
     control_reply_to_json := \<lambda>r. if r = Pulled [first_leased] then Inr [0] else if r = Control_ok then Inr [1]
       else Inl (External ''''),
     control_reply_from_json := \<lambda>bs. if bs = [0] then Inr (Pulled [first_leased]) else Inr Control_ok\<rparr>"

lemma duo_json_contract: "json_contract duo_json"
  by (auto simp: json_contract_def duo_json_def two_json_def split: if_splits)

definition duo_world :: "(node_id, nat list \<times> string list \<times> string option) world" where
  "duo_world = two_world\<lparr>json := duo_json\<rparr>"

lemma duo_world_simps [simp]: "world_ok duo_world" "hexlib duo_world = letter_hex" "json duo_world = duo_json"
  using two_world_simps by (simp_all add: duo_world_def world_ok_def)

definition duo_script :: "(node_id, nat list \<times> string list \<times> string option) fate list" where
  "duo_script = [Served duo_world 5 100 True, Served duo_world 6 101 True]"

lemma duo_script_ok: "list_all (fate_ok (\<lambda>W now. speaks letter_hex duo_json W now \<and> 100 \<le> now)) duo_script"
  by (simp add: duo_script_def fate_ok_def speaks_def)

text \<open>A run that leases one message, prints it and acknowledges it.\<close>

lemma one_message_run:
  fixes W :: "(node_id, nat list \<times> string list \<times> string option) world"
  assumes "own_subs own = sample_registry" "own_id own = ''o''" "topic_name own = ''orders''" "\<not> require_cap own"
    and "log_get (writer own) c = Some (leased_msg lm)" "delivery_attempt lm = 1" "msg_cursor (leased_msg lm) = c"
    and "plan_lease sample_registry ''s'' (high_cursor (writer own)) (log_floor (writer own)) 100 1 =
      Some (Some (ApplyLease ''s'' [(c, 130)] [] fl, \<lparr>leased = [(c, 1)], dead_lettered = []\<rparr>))"
    and W: "hexlib W = letter_hex" "json W = js" "subs_propose W = (\<lambda>r x. (apply_sub r x, Inr ()))"
    and js: "control_encode js (Pull ''s'' 1 None) = Inr [0]" "control_encode js (AckCursor ''s'' c None) = Inr [1]"
      "control_decode js [0] = Inr (Pull ''s'' 1 None)" "control_decode js [1] = Inr (AckCursor ''s'' c None)"
      "control_reply_encode js (Pulled [lm]) = Inr [0]" "control_reply_encode js Control_ok = Inr [1]"
      "control_reply_decode js [0] = Inr (Pulled [lm])" "control_reply_decode js [1] = Inr Control_ok"
    and "show_leased letter_hex lm = Some l"
    and tokens: "token_seen 5 100 hs = (hs1, False)" "token_seen 6 101 hs1 = (hs2, False)"
  shows "\<exists>st. cmd_lease (sample_setting (mesh_client ''c'' letter_hex js)) ((own, hs), [Served W 5 100 True, Served W 6 101 True])
      ''orders'' ''s'' ''o'' 1 True None 9 = \<lparr>after = (st, []), owned = None, printed = [l, Acked_all 1], ending = Finished\<rparr>"
proof -
  let ?cl = "mesh_client ''c'' letter_hex js ::
    ((owner \<times> token_set) \<times> (node_id, nat list \<times> string list \<times> string option) fate list) client"
  define own1 where "own1 = own\<lparr>own_subs := apply_sub sample_registry (ApplyLease ''s'' [(c, 130)] [] fl)\<rparr>"
  define own2 where "own2 = own1\<lparr>own_subs := apply_sub (own_subs own1) (Ack ''s'' c)\<rparr>"
  have lm: "lm = \<lparr>leased_msg = leased_msg lm, delivery_attempt = 1\<rparr>" using assms(6) by simp
  have h1: "handle_control W own (hex_encode letter_hex [0]) ''c'' 100 = Some (own1, Pulled [lm])"
    using assms(1,4,5,8) by (subst lm) (simp add: handle_control_def hex_contractD(1)[OF letter_hex_contract] js is_high_cursor_def
        control_gate_def handle_lease_def W own1_def Let_def List.map_filter_simps)
  have h2: "handle_control W own1 (hex_encode letter_hex [1]) ''c'' 101 = Some (own2, Control_ok)"
    using assms(1,4) by (simp add: handle_control_def hex_contractD(1)[OF letter_hex_contract] js is_high_cursor_def
        control_gate_def propose_sub_def W own2_def) (simp add: own1_def reg_get_apply)
  have own: "topic_name own1 = ''orders''" "own_id own1 = ''o''" using assms(2,3) by (simp_all add: own1_def)
  have valid: "validate_topic ''orders'' = Inr ()" by (simp add: topic_char_def is_ascii_alphanumeric_def)
  have "lease_messages ?cl ((own, hs), [Served W 5 100 True, Served W 6 101 True]) ''orders'' ''o'' ''s'' 1 None 9 =
      (((own1, hs1), [Served W 6 101 True]), Inr [lm])"
    using served_control[OF js(1) W(1,2) h1 tokens(1) js(5), of "[Served W 6 101 True]" 9]
    by (simp add: lease_messages_def valid js assms(2,3))
  moreover have "ack ?cl ((own1, hs1), [Served W 6 101 True]) ''orders'' ''o'' ''s'' c None 9 = (((own2, hs2), []), Inr ())"
    using served_control[OF js(2) W(1,2) h2 tokens(2) js(6), of "[]" 9]
    by (simp add: ack_def control_ok_def valid js own)
  ultimately show ?thesis
    using assms(7) \<open>show_leased letter_hex lm = Some l\<close>
    by (intro exI[of _ "(own2, hs2)"]) (simp add: cmd_lease_def)
qed

lemma fresh_tokens:
  obtains hs1 hs2 where "token_seen 5 100 (new_token_set 4 9) = (hs1, False)" "token_seen 6 101 hs1 = (hs2, False)"
proof -
  obtain hs1 where t1: "token_seen 5 100 (new_token_set 4 9) = (hs1, False)" and "\<exists>hs2. token_seen 6 101 hs1 = (hs2, False)"
    by (simp add: token_seen_def new_token_set_def Let_def split: prod.splits)
  then show thesis using that by blast
qed

lemma duo_run:
  assumes "own_subs own = sample_registry" "own_id own = ''o''" "topic_name own = ''orders''" "\<not> require_cap own"
    and "log_floor (writer own) = 0" "log_get (writer own) 1 = Some (leased_msg first_leased)"
    and "plan_lease sample_registry ''s'' (high_cursor (writer own)) 0 100 1 =
      Some (Some (ApplyLease ''s'' [(1, 130)] [] 0, \<lparr>leased = [(1, 1)], dead_lettered = []\<rparr>))"
  shows "\<exists>st l n p x. cmd_lease (sample_setting (mesh_client ''c'' letter_hex duo_json)) ((own, new_token_set 4 9), duo_script)
      ''orders'' ''s'' ''o'' 1 True None 9 =
      \<lparr>after = (st, []), owned = None, printed = [l, Acked_all 1], ending = Finished\<rparr> \<and> l = Shown_leased 1 n p x"
proof -
  have js: "control_encode duo_json (Pull ''s'' 1 None) = Inr [0]" "control_encode duo_json (AckCursor ''s'' 1 None) = Inr [1]"
    "control_decode duo_json [0] = Inr (Pull ''s'' 1 None)" "control_decode duo_json [1] = Inr (AckCursor ''s'' 1 None)"
    "control_reply_encode duo_json (Pulled [first_leased]) = Inr [0]" "control_reply_encode duo_json Control_ok = Inr [1]"
    "control_reply_decode duo_json [0] = Inr (Pulled [first_leased])" "control_reply_decode duo_json [1] = Inr Control_ok"
    by (simp_all add: duo_json_def control_decode_def control_encode_def control_reply_encode_def
        control_reply_decode_def MAX_CONTROL_BODY_BYTES_def MAX_INGEST_HEX_BYTES_def MAX_PAYLOAD_BYTES_def)
  have W: "subs_propose duo_world = (\<lambda>r x. (apply_sub r x, Inr ()))"
    by (simp add: duo_world_def two_world_def sample_world_def)
  obtain hs1 hs2 where tokens: "token_seen 5 100 (new_token_set 4 9) = (hs1, False)" "token_seen 6 101 hs1 = (hs2, False)"
    by (rule fresh_tokens)
  obtain n p x where l: "show_leased letter_hex first_leased = Some (Shown_leased 1 n p x)"
    by (simp add: show_leased_def first_leased_def new_message_def)
  have lm: "delivery_attempt first_leased = 1" "msg_cursor (leased_msg first_leased) = 1"
    by (simp_all add: first_leased_def new_message_def)
  show ?thesis
    using one_message_run[OF assms(1-4,6) lm assms(7)[folded assms(5)] duo_world_simps(2,3) W js l tokens]
    by (auto simp: duo_script_def)
qed

lemma duo_run_sample:
  "\<exists>st l n p x. cmd_lease (sample_setting (mesh_client ''c'' letter_hex duo_json)) ((sample_owner, new_token_set 4 9), duo_script)
      ''orders'' ''s'' ''o'' 1 True None 9 =
      \<lparr>after = (st, []), owned = None, printed = [l, Acked_all 1], ending = Finished\<rparr> \<and> l = Shown_leased 1 n p x"
proof (rule duo_run)
  show "log_get (writer sample_owner) 1 = Some (leased_msg first_leased)"
    by (simp add: sample_log_def numeral_3_eq_3 first_leased_def)
      (simp add: log_get_def empty_log_def apply_log.simps next_cursor_def high_cursor_def new_message_def Let_def)
  show "plan_lease sample_registry ''s'' (high_cursor (writer sample_owner)) 0 100 1 =
      Some (Some (ApplyLease ''s'' [(1, 130)] [] 0, \<lparr>leased = [(1, 1)], dead_lettered = []\<rparr>))"
    by (simp add: plan_lease_def sample_simps)
qed simp_all

lemma auto_ack_handles_witness:
  "\<exists>outcome. cmd_lease (sample_setting (mesh_client ''c'' letter_hex duo_json))
       ((sample_owner, new_token_set 4 9), duo_script) ''orders'' ''s'' ''o'' 1 True None 9 = outcome \<and>
     Acked_all 1 \<in> set (printed outcome) \<and> 1 \<in> handled_in ''s'' (own_subs (fst (fst (after outcome))))"
proof -
  obtain st l n p x where run: "cmd_lease (sample_setting (mesh_client ''c'' letter_hex duo_json))
      ((sample_owner, new_token_set 4 9), duo_script) (topic_name sample_owner) ''s'' ''o'' 1 True None 9 =
      \<lparr>after = (st, []), owned = None, printed = [l, Acked_all 1], ending = Finished\<rparr>" "l = Shown_leased 1 n p x"
    using duo_run_sample by auto
  have script: "list_all (fate_ok (speaks letter_hex duo_json)) duo_script"
    by (rule fate_ok_mono[OF duo_script_ok]) simp
  from auto_ack_handles[OF letter_hex_contract duo_json_contract script sample_owner_inv sample_owner_room
      sample_connect run(1)]
  have "1 \<in> handled_in ''s'' (own_subs (fst st))" by (simp add: run(2))
  with run show ?thesis by simp
qed

end
