(* ===== verification/Drain.thy ===== *)
theory Drain
  imports Delivery
begin

text \<open>
  Progress of a subscription: a consumer that leases a batch and acknowledges all of it, again and
  again, as \<open>ce-pubsub lease --auto-ack\<close> does, ends with every published message handled.  The
  measure is the number of retained cursors that are not handled; each round takes at least one.
\<close>

section \<open>Rounds\<close>

text \<open>A lease and the acks of all it handed out.\<close>

definition consume :: "string \<Rightarrow> cursor \<Rightarrow> cursor \<Rightarrow> usize \<Rightarrow> sub_registry \<Rightarrow> u64 \<Rightarrow> sub_registry" where
  "consume n high fl mx r now =
     (case plan_lease r n high fl now mx of
        Some (Some (x, out)) \<Rightarrow> replay apply_sub (apply_sub r x) (map (Ack n) (map fst (leased out)))
      | _ \<Rightarrow> r)"

definition consumed :: "string \<Rightarrow> cursor \<Rightarrow> cursor \<Rightarrow> usize \<Rightarrow> sub_registry \<Rightarrow> u64 \<Rightarrow> cursor list" where
  "consumed n high fl mx r now =
     (case plan_lease r n high fl now mx of Some (Some (x, out)) \<Rightarrow> map fst (leased out) | _ \<Rightarrow> [])"

fun consume_rounds ::
  "string \<Rightarrow> cursor \<Rightarrow> cursor \<Rightarrow> usize \<Rightarrow> sub_registry \<Rightarrow> (nat \<Rightarrow> u64) \<Rightarrow> nat \<Rightarrow> sub_registry" where
  "consume_rounds n high fl mx r clock 0 = r"
| "consume_rounds n high fl mx r clock (Suc k) =
     consume n high fl mx (consume_rounds n high fl mx r clock k) (clock k)"

definition backlog :: "subscription_state \<Rightarrow> cursor \<Rightarrow> cursor \<Rightarrow> cursor set" where
  "backlog s high fl = {c. fl < c \<and> c \<le> high \<and> c \<notin> handled s}"

text \<open>The range of cursors is not used up: \<open>d\<close> is above the highest one and not handled.\<close>

definition consumable ::
  "sub_registry \<Rightarrow> string \<Rightarrow> subscription_state \<Rightarrow> cursor \<Rightarrow> cursor \<Rightarrow> cursor \<Rightarrow> bool" where
  "consumable r n s high fl d \<longleftrightarrow>
     reg_get r n = Some s \<and> sub_inv s \<and> fl \<le> high \<and> high < d \<and> d \<notin> handled s"

lemma consumable_request: "consumable r n s high fl d \<Longrightarrow> lease_request fl r n s high fl"
  unfolding consumable_def lease_request_def
  by (auto simp: handled_iff dest: less_not_top)

lemma card_cursors: "card {c :: cursor. fl < c \<and> c \<le> high} \<le> unat high - unat fl"
proof -
  have "{c :: cursor. fl < c \<and> c \<le> high} \<subseteq> of_nat ` {unat fl <.. unat high}"
  proof
    fix c :: cursor assume "c \<in> {c. fl < c \<and> c \<le> high}"
    then have "unat c \<in> {unat fl <.. unat high}" by (simp add: word_less_nat_alt word_le_nat_alt)
    then show "c \<in> of_nat ` {unat fl <.. unat high}" by (intro image_eqI[of _ _ "unat c"]) simp_all
  qed
  then have "card {c :: cursor. fl < c \<and> c \<le> high} \<le> card (of_nat ` {unat fl <.. unat high} :: cursor set)"
    by (intro card_mono) auto
  also have "\<dots> \<le> unat high - unat fl" using card_image_le[of "{unat fl <.. unat high}"] by simp
  finally show ?thesis .
qed

lemma backlog_card: "card (backlog s high fl) \<le> unat high - unat fl"
proof -
  have "card (backlog s high fl) \<le> card {c :: cursor. fl < c \<and> c \<le> high}"
    by (rule card_mono) (auto simp: backlog_def)
  with card_cursors[of fl high] show ?thesis by simp
qed

section \<open>One round\<close>

definition expired :: "subscription_state \<Rightarrow> (nat \<Rightarrow> u64) \<Rightarrow> bool" where
  "expired s clock \<longleftrightarrow> (\<forall>c l i. fmlookup (leases s) c = Some l \<longrightarrow> expires_at l \<le> clock i)"

lemma consume_round:
  assumes con: "consumable r n s high fl d" and mx: "0 < mx" and ex: "expired s clock"
  obtains t where "consumable (consume n high fl mx r (clock i)) n t high fl d" "expired t clock"
    and "backlog t high fl \<subseteq> backlog s high fl"
    and "backlog s high fl \<noteq> {} \<Longrightarrow> backlog t high fl \<subset> backlog s high fl" "policy t = policy s"
    and "handled t \<subseteq> handled s \<union> {c. c \<le> fl} \<union> {c. exhausted s c} \<union> set (consumed n high fl mx r (clock i))"
    and "handled s \<union> set (consumed n high fl mx r (clock i)) \<subseteq> handled t"
    and "distinct (consumed n high fl mx r (clock i))" "set (consumed n high fl mx r (clock i)) \<inter> handled s = {}"
    and "\<And>c. exhausted t c \<Longrightarrow> exhausted s c"
proof -
  note req = consumable_request[OF con]
  from con have s: "reg_get r n = Some s" "sub_inv s" and d: "fl \<le> high" "high < d" "d \<notin> handled s"
    by (simp_all add: consumable_def)
  have "withheld s (clock i) c \<longleftrightarrow> False" if "c \<notin> handled s" for c
    using ex that by (auto simp: withheld_def expired_def handled_iff not_less split: option.splits)
  then have deliv: "set (deliverable s high fl (clock i)) = backlog s high fl"
    using set_deliverable[OF lease_request_top[OF req]] by (auto simp: backlog_def)
  show thesis
  proof (cases "plan_lease r n high fl (clock i) mx")
    case None
    have False
      by (rule plan_lease_cases[OF s(1) sub_invD(1)[OF s(2)] _ lease_request_top[OF req], of high "clock i" mx])
        (use None req in \<open>simp_all add: lease_request_def\<close>)
    then show thesis ..
  next
    case (Some plan)
    show thesis
    proof (cases plan)
      case None
      with Some have "deliverable s high fl (clock i) = []" using plan_lease_none[OF req] mx by auto
      with deliv have "backlog s high fl = {}" by auto
      moreover have "consume n high fl mx r (clock i) = r" "consumed n high fl mx r (clock i) = []"
        using Some None by (simp_all add: consume_def consumed_def)
      ultimately show thesis using that[of s] con ex by (simp add: le_supI1)
    next
      fix xo assume "plan = Some xo"
      then obtain x out where plan: "plan_lease r n high fl (clock i) mx = Some (Some (x, out))"
        using Some by (cases xo) simp
      obtain ls dd na where picked: "lease_picked s high fl (clock i) mx = (ls, dd)"
        and out: "out = \<lparr>leased = map (\<lambda>c. (c, next_attempt s c)) ls, dead_lettered = dd\<rparr>"
        and get: "reg_get (apply_sub r x) n = Some (apply_lease s (map (\<lambda>c. (c, lease_expiry s (clock i))) ls) dd na)"
        and ls: "set ls \<subseteq> {c. fl < c \<and> c \<le> high \<and> c \<notin> handled s \<and> \<not> withheld s (clock i) c \<and> \<not> exhausted s c}"
        and dd: "set dd \<subseteq> {c. fl < c \<and> c \<le> high \<and> c \<notin> handled s \<and> \<not> withheld s (clock i) c \<and> exhausted s c}"
        and na: "\<And>e. e \<le> na \<Longrightarrow> e \<in> handled s \<or> e \<le> fl \<or> e \<in> set dd" and sorted: "sorted_wrt (<) ls"
        by (rule planned_leaseE[OF req plan]) (rule that)
      define u where "u = apply_lease s (map (\<lambda>c. (c, lease_expiry s (clock i))) ls) dd na"
      define t where "t = foldl apply_ack u ls"
      have u: "reg_get (apply_sub r x) n = Some u" "sub_inv u"
        using get planned_lease_inv(1)[OF req plan get] by (simp_all add: u_def)
      have "consume n high fl mx r (clock i) = replay apply_sub (apply_sub r x) (map (Ack n) ls)"
        by (simp add: consume_def plan out comp_def)
      then have get_t: "reg_get (consume n high fl mx r (clock i)) n = Some t"
        using acks_state[OF u(1)] by (simp add: t_def)
      have handled_t: "handled t = handled s \<union> set dd \<union> {c. c \<le> na} \<union> set ls"
        using acks_inv(2)[OF u(2), of ls] by (simp add: t_def u_def handled_apply_lease)
      have above: "e \<le> high \<Longrightarrow> e \<noteq> d" for e using d(2) by auto
      moreover have "\<not> d \<le> fl" using d(1,2) by (auto dest: order_trans)
      moreover have "d \<notin> set ls \<union> set dd" using ls dd above by blast
      ultimately have nd: "d \<notin> handled t" using d(3) na[of d] unfolding handled_t by blast
      have left: "fmlookup (leases t) c = Some l \<Longrightarrow> fmlookup (leases s) c = Some l"
        "fmlookup (attempts t) c = Some a \<Longrightarrow> fmlookup (attempts s) c = Some a" for c l a
        by (auto simp: t_def u_def acks_drop apply_lease_def add_lease_fold_other mark_dead_fold image_image split: if_splits)
      have pol: "policy t = policy s" by (simp add: t_def u_def acks_drop apply_lease_fields)
      have "exhausted s c" if "exhausted t c" for c
        using that left(2)[of c] by (cases "fmlookup (attempts t) c")
          (auto simp: exhausted_def next_attempt_def attempt_count_def pol word_less_nat_alt unsigned_eq_0_iff)
      moreover have "expired t clock" using ex left(1) unfolding expired_def by blast
      moreover have sub: "backlog t high fl \<subseteq> backlog s high fl" by (auto simp: backlog_def handled_t)
      moreover have "backlog t high fl \<subset> backlog s high fl"
      proof -
        have "(ls, dd) \<noteq> ([], [])"
          using plan plan_lease_none[OF req, of "clock i" mx] picked
          by (auto simp: lease_picked_def pick_empty_iff lease_room_0)
        then obtain c where "c \<in> set ls \<union> set dd" by (cases ls; cases dd) auto
        then have "c \<in> backlog s high fl" "c \<notin> backlog t high fl"
          using ls dd by (auto simp: backlog_def handled_t)
        then show ?thesis using sub by blast
      qed
      moreover have "consumable (consume n high fl mx r (clock i)) n t high fl d"
        using get_t acks_inv(1)[OF u(2), of ls] d nd by (simp add: consumable_def t_def)
      moreover note pol
      moreover have "handled t \<subseteq> handled s \<union> {c. c \<le> fl} \<union> {c. exhausted s c} \<union> set (consumed n high fl mx r (clock i))"
        using na dd by (auto simp: handled_t consumed_def plan out)
      moreover have "consumed n high fl mx r (clock i) = ls" by (simp add: consumed_def plan out comp_def)
      then have "handled s \<union> set (consumed n high fl mx r (clock i)) \<subseteq> handled t"
        "distinct (consumed n high fl mx r (clock i))" "set (consumed n high fl mx r (clock i)) \<inter> handled s = {}"
        using ls sorted by (auto simp: handled_t strict_sorted_iff)
      ultimately show thesis using that[of t] by blast
    qed
  qed
qed

lemma consume_rounds_progress:
  assumes "consumable r n s high fl d" "0 < mx" "expired s clock"
  shows "\<exists>t. consumable (consume_rounds n high fl mx r clock k) n t high fl d \<and> expired t clock \<and>
    (backlog t high fl = {} \<or> card (backlog t high fl) + k \<le> card (backlog s high fl))"
proof (induction k)
  case (Suc k)
  then obtain t where t: "consumable (consume_rounds n high fl mx r clock k) n t high fl d" "expired t clock"
    "backlog t high fl = {} \<or> card (backlog t high fl) + k \<le> card (backlog s high fl)"
    by blast
  obtain t' where t': "consumable (consume_rounds n high fl mx r clock (Suc k)) n t' high fl d" "expired t' clock"
    and sub: "backlog t' high fl \<subseteq> backlog t high fl"
    and less: "backlog t high fl \<noteq> {} \<Longrightarrow> backlog t' high fl \<subset> backlog t high fl"
    unfolding consume_rounds.simps by (rule consume_round[OF t(1) assms(2) t(2), of k]) blast
  have "backlog t' high fl = {} \<or> card (backlog t' high fl) + Suc k \<le> card (backlog s high fl)"
  proof (cases "backlog t high fl = {}")
    case False
    then have "card (backlog t' high fl) < card (backlog t high fl)" using less by (intro psubset_card_mono) auto
    with t(3) False show ?thesis by simp
  qed (use sub in simp)
  with t' show ?case by blast
qed (use assms in auto)

section \<open>Property\<close>

text \<open>C7: Every published message is handled in the end: a consumer that leases at least one message at a time
  and acknowledges what it gets, once older leases have run out, has after at most as many rounds as
  there are retained cursors no retained message left that is neither acked nor dead-lettered; the ack
  floor then is at or above the highest cursor if nothing was pruned.\<close>

theorem consumer_drains:
  assumes "reg_get r n = Some s" "sub_inv s" "fl \<le> high" "high < d" "d \<notin> handled s"
    and "\<forall>c l i. fmlookup (leases s) c = Some l \<longrightarrow> expires_at l \<le> clock i"
    and "0 < mx" "unat high - unat fl \<le> k"
  shows "\<exists>t. reg_get (consume_rounds n high fl mx r clock k) n = Some t \<and>
    (\<forall>c. fl < c \<longrightarrow> c \<le> high \<longrightarrow> c \<in> handled t) \<and> (fl \<le> acked t \<longrightarrow> high \<le> acked t)"
proof -
  have "consumable r n s high fl d" "expired s clock"
    using assms(1-6) by (simp_all add: consumable_def expired_def)
  from consume_rounds_progress[OF this(1) assms(7) this(2), of k]
  obtain t where t: "consumable (consume_rounds n high fl mx r clock k) n t high fl d"
    and "backlog t high fl = {} \<or> card (backlog t high fl) + k \<le> card (backlog s high fl)"
    by blast
  with backlog_card[of s high fl] assms(8) have "backlog t high fl = {}"
    by (metis (no_types, lifting) add_leE card_eq_0_iff finite le_add2 le_antisym le_trans add_le_same_cancel2 le_zero_eq)
  then have all: "\<forall>c. fl < c \<longrightarrow> c \<le> high \<longrightarrow> c \<in> handled t" by (auto simp: backlog_def)
  have "sub_inv t" using t by (simp add: consumable_def)
  then have "high \<le> acked t" if "fl \<le> acked t"
    using floor_iff[of t high] all that by (auto simp: handled_iff) (meson le_less_trans not_le order_trans)
  with t all show ?thesis by (auto simp: consumable_def)
qed

lemma consumer_drains_witness:
  "\<exists>t. reg_get (consume_rounds ''s'' 3 0 2 sample_registry (\<lambda>i. 100) 3) ''s'' = Some t \<and> 3 \<le> acked t"
proof -
  have "4 \<notin> handled default_state" by (simp add: handled_iff default_state_def)
  then show ?thesis
    using consumer_drains[of sample_registry "''s''" default_state 0 3 4 "\<lambda>i. 100" 2 3]
    by (auto simp: sub_inv_default) (auto simp: default_state_def)
qed

end
