(* ===== verification/Consumer.thy ===== *)
theory Consumer
  imports Cli_Props Drain
begin

text \<open>
  A consumer that runs \<open>ce-pubsub lease --auto-ack\<close> again and again over a lossy mesh.  One run that
  ends is one round of \<open>Drain\<close> at the owner, so the rounds drain the subscription; and unless messages
  are dead-lettered, everything that became handled was printed.
\<close>

section \<open>One run\<close>

text \<open>What the consumer and the owner agree on before and after each run.  \<open>T\<close> is a time by which every
  lease in the way has expired.\<close>

definition drains ::
  "string \<Rightarrow> cursor \<Rightarrow> u64 \<Rightarrow> owner \<Rightarrow> subscription_state \<Rightarrow> bool" where
  "drains name d T own s \<longleftrightarrow> owner_inv own \<and> cursor_room own \<and>
     consumable (own_subs own) name s (high_cursor (writer own)) (log_floor (writer own)) d \<and> expired s (\<lambda>i. T)"

lemma other_subscription:
  "m \<noteq> n \<Longrightarrow> reg_get (replay apply_sub r (map (Ack n) cs)) m = reg_get r m"
  by (induction cs arbitrary: r) (simp_all add: reg_get_apply)

lemma acks_len: "reg_len (replay apply_sub r (map (Ack n) cs)) = reg_len r"
  by (induction cs arbitrary: r) (simp_all add: apply_sub.simps reg_len_modify)

lemma consumable_floor: "consumable r n s high fl d \<Longrightarrow> acked s \<noteq> top_word"
  by (auto simp: consumable_def handled_iff)

lemma acks_reg_inv: "reg_inv r \<Longrightarrow> reg_inv (replay apply_sub r (map (Ack n) cs))"
  by (induction cs arbitrary: r) (simp_all add: registry_handled.apply_inv[OF _ ack_keeps])

lemma consume_other:
  assumes "lease_request F r n s high fl" "m \<noteq> n"
  shows "reg_get (consume n high fl mx r now) m = reg_get r m"
proof (cases "plan_lease r n high fl now mx")
  case (Some plan)
  show ?thesis
  proof (cases plan)
    case (Some p)
    obtain x out where plan: "plan_lease r n high fl now mx = Some (Some (x, out))"
      using \<open>plan_lease r n high fl now mx = Some plan\<close> Some by (cases p) simp
    obtain ls dd na where "x = ApplyLease n ls dd na" by (rule planned_leaseE[OF assms(1) plan])
    with assms(2) show ?thesis by (simp add: consume_def plan other_subscription reg_get_apply del: map_map)
  qed (use \<open>plan_lease r n high fl now mx = Some plan\<close> in \<open>simp add: consume_def\<close>)
qed (simp add: consume_def)

text \<open>A lease that is acked in full is one round.\<close>

lemma leased_and_acked:
  assumes "world_ok W" "owner_inv own" "cursor_room own" "reg_get (own_subs own) name = Some s"
    and "handle_lease W own name mx now = Some (own1, Pulled ms)"
  shows "replay apply_sub (own_subs own1) (map (Ack name) (map (msg_cursor \<circ> leased_msg) ms)) =
      consume name (high_cursor (writer own)) (log_floor (writer own)) mx (own_subs own) now"
    and "map (msg_cursor \<circ> leased_msg) ms =
      consumed name (high_cursor (writer own)) (log_floor (writer own)) mx (own_subs own) now"
    and "\<And>lm. lm \<in> set ms \<Longrightarrow> log_get (writer own) (msg_cursor (leased_msg lm)) = Some (leased_msg lm)"
proof -
  have "(\<forall>lm \<in> set ms. log_get (writer own) (msg_cursor (leased_msg lm)) = Some (leased_msg lm)) \<and> map (msg_cursor \<circ> leased_msg) ms =
      consumed name (high_cursor (writer own)) (log_floor (writer own)) mx (own_subs own) now \<and>
    replay apply_sub (own_subs own1) (map (Ack name) (map (msg_cursor \<circ> leased_msg) ms)) =
      consume name (high_cursor (writer own)) (log_floor (writer own)) mx (own_subs own) now"
  proof (cases rule: handle_lease_Pulled[OF assms])
    case 1
    then show ?thesis by (simp add: consume_def consumed_def)
  next
    case (2 x out)
    have "map (msg_cursor \<circ> leased_msg) ms = map fst (leased out)"
      using 2(5) by (simp add: 2(4) comp_def)
    moreover have "\<forall>lm \<in> set ms. log_get (writer own) (msg_cursor (leased_msg lm)) = Some (leased_msg lm)"
      using 2(5) by (auto simp: 2(4))
    ultimately show ?thesis using 2(1,2) by (simp add: consume_def consumed_def)
  qed
  then show "replay apply_sub (own_subs own1) (map (Ack name) (map (msg_cursor \<circ> leased_msg) ms)) =
      consume name (high_cursor (writer own)) (log_floor (writer own)) mx (own_subs own) now"
    and "map (msg_cursor \<circ> leased_msg) ms =
      consumed name (high_cursor (writer own)) (log_floor (writer own)) mx (own_subs own) now"
    and "\<And>lm. lm \<in> set ms \<Longrightarrow> log_get (writer own) (msg_cursor (leased_msg lm)) = Some (leased_msg lm)"
    by blast+
qed

text \<open>The cursors of the messages printed, in order; and that each line shows the message the log holds.\<close>

definition printed_cursors :: "line list \<Rightarrow> cursor list" where
  "printed_cursors = List.map_filter (\<lambda>l. case l of Shown_leased c k p x \<Rightarrow> Some c | _ \<Rightarrow> None)"

definition shows_log :: "hex_codec \<Rightarrow> topic_log \<Rightarrow> line list \<Rightarrow> bool" where
  "shows_log hx log ls \<longleftrightarrow> (\<forall>c k p x. Shown_leased c k p x \<in> set ls \<longrightarrow>
     (\<exists>m. log_get log c = Some m \<and>
        show_leased hx \<lparr>leased_msg = m, delivery_attempt = k\<rparr> = Some (Shown_leased c k p x)))"

lemma printed_cursors_simps [simp]:
  "printed_cursors [] = []" "printed_cursors (Shown_leased c k p x # ls) = c # printed_cursors ls"
  "printed_cursors (No_messages n # ls) = printed_cursors ls" "printed_cursors (Acked_all i # ls) = printed_cursors ls"
  "printed_cursors (ls @ ls') = printed_cursors ls @ printed_cursors ls'"
  by (simp_all add: printed_cursors_def List.map_filter_simps) (simp add: List.map_filter_def)

lemma set_printed_cursors: "c \<in> set (printed_cursors ls) \<longleftrightarrow> (\<exists>k p x. Shown_leased c k p x \<in> set ls)"
proof (induction ls)
  case (Cons l ls)
  then show ?case by (cases l) (auto simp: printed_cursors_def List.map_filter_simps)
qed simp

lemma batch_printed:
  assumes "map Some ls = map (show_leased hx) ms"
  shows "printed_cursors ls = map (msg_cursor \<circ> leased_msg) ms"
  using assms
proof (induction ms arbitrary: ls)
  case (Cons lm ms)
  then obtain l ls' where ls: "ls = l # ls'" "Some l = show_leased hx lm" "map Some ls' = map (show_leased hx) ms"
    by (cases ls) auto
  then obtain p x where "l = Shown_leased (msg_cursor (leased_msg lm)) (delivery_attempt lm) p x"
    by (cases "short_publisher (publisher (leased_msg lm))") (auto simp: show_leased_def Let_def)
  with Cons.IH[OF ls(3)] show ?case by (simp add: ls(1))
qed simp

lemma batch_shows:
  assumes "map Some ls = map (show_leased hx) ms"
    and "\<And>lm. lm \<in> set ms \<Longrightarrow> log_get log (msg_cursor (leased_msg lm)) = Some (leased_msg lm)"
  shows "shows_log hx log ls"
  unfolding shows_log_def
proof (intro allI impI)
  fix c k p x assume "Shown_leased c k p x \<in> set ls"
  then have "Some (Shown_leased c k p x) \<in> set (map (show_leased hx) ms)" unfolding assms(1)[symmetric] by simp
  then obtain lm where lm: "lm \<in> set ms" "show_leased hx lm = Some (Shown_leased c k p x)" by auto
  then have "c = msg_cursor (leased_msg lm)" "k = delivery_attempt lm" by (auto simp: show_leased_def Let_def)
  with assms(2)[OF lm(1)] lm(2)
  show "\<exists>m. log_get log c = Some m \<and> show_leased hx \<lparr>leased_msg = m, delivery_attempt = k\<rparr> = Some (Shown_leased c k p x)"
    by (intro exI[of _ "leased_msg lm"]) (simp add: show_leased_def)
qed

lemma auto_ack_round:
  fixes script :: "('i, 'c) fate list"
  assumes "hex_contract hx" "json_contract js"
    and "list_all (fate_ok (\<lambda>W now. speaks hx js W now \<and> T \<le> now)) script"
    and "drains name d T own s" "0 < mx" "connect env = Inr (mesh_client me hx js)"
    and "ending (cmd_lease env ((own, hs), script) (topic_name own) name ow mx True grant t) = Finished"
  obtains own2 hs2 script2 s2
    where "after (cmd_lease env ((own, hs), script) (topic_name own) name ow mx True grant t) = ((own2, hs2), script2)"
    and "list_all (fate_ok (\<lambda>W now. speaks hx js W now \<and> T \<le> now)) script2"
    and "drains name d T own2 s2" "topic_name own2 = topic_name own" "writer own2 = writer own"
    and "backlog s2 (high_cursor (writer own)) (log_floor (writer own)) \<subseteq>
      backlog s (high_cursor (writer own)) (log_floor (writer own))"
    and "backlog s (high_cursor (writer own)) (log_floor (writer own)) \<noteq> {} \<Longrightarrow>
      backlog s2 (high_cursor (writer own)) (log_floor (writer own)) \<subset>
      backlog s (high_cursor (writer own)) (log_floor (writer own))"
    and "policy s2 = policy s"
    and "handled s2 \<subseteq> handled s \<union> {c. c \<le> log_floor (writer own)} \<union> {c. exhausted s c} \<union>
      set (printed_cursors (printed (cmd_lease env ((own, hs), script) (topic_name own) name ow mx True grant t)))"
    and "handled s \<union> set (printed_cursors (printed (cmd_lease env ((own, hs), script) (topic_name own) name ow mx True grant t))) \<subseteq> handled s2"
    and "distinct (printed_cursors (printed (cmd_lease env ((own, hs), script) (topic_name own) name ow mx True grant t)))"
    and "set (printed_cursors (printed (cmd_lease env ((own, hs), script) (topic_name own) name ow mx True grant t))) \<inter> handled s = {}"
    and "\<And>c. exhausted s2 c \<Longrightarrow> exhausted s c"
    and "shows_log hx (writer own) (printed (cmd_lease env ((own, hs), script) (topic_name own) name ow mx True grant t))"
proof -
  let ?high = "high_cursor (writer own)" and ?fl = "log_floor (writer own)"
  have own: "owner_inv own" "cursor_room own" and con: "consumable (own_subs own) name s ?high ?fl d"
    and ex: "expired s (\<lambda>i. T)"
    using assms(4) by (simp_all add: drains_def)
  have s: "reg_get (own_subs own) name = Some s" using con by (simp add: consumable_def)
  obtain W :: "('i, 'c) world" and now own1 own2 hs2 script2 ms ls where W: "speaks hx js W now \<and> T \<le> now" "world_ok W"
    and h: "handle_lease W own name mx now = Some (own1, Pulled ms)"
    and own1: "topic_name own1 = topic_name own" "writer own1 = writer own" "dedup own1 = dedup own"
      "reg_inv (own_subs own1)" "reg_len (own_subs own1) \<le> MAX_SUBSCRIPTIONS"
    and own2: "own2 = own1\<lparr>own_subs := replay apply_sub (own_subs own1) (map (Ack name) (map (msg_cursor \<circ> leased_msg) ms))\<rparr>"
    and script2: "list_all (fate_ok (\<lambda>W now. speaks hx js W now \<and> T \<le> now)) script2"
    and ls: "map Some ls = map (show_leased hx) ms"
    and out: "after (cmd_lease env ((own, hs), script) (topic_name own) name ow mx True grant t) = ((own2, hs2), script2)"
      "printed (cmd_lease env ((own, hs), script) (topic_name own) name ow mx True grant t) =
        (if ms = [] then [No_messages name] else []) @ ls @ (if ms \<noteq> [] then [Acked_all (length ms)] else [])"
    by (rule auto_ack_run[OF assms(1-3) _ own assms(6,7)]) (simp, blast)
  note round = leased_and_acked[OF W(2) own s h]
  define clock where "clock i = (if i = 0 then now else T)" for i :: nat
  have "expired s clock" using ex W(1) by (auto simp: expired_def clock_def intro: order_trans)
  then obtain s2 where con2: "consumable (consume name ?high ?fl mx (own_subs own) (clock 0)) name s2 ?high ?fl d"
    and ex2: "expired s2 clock" and rest: "backlog s2 ?high ?fl \<subseteq> backlog s ?high ?fl"
      "backlog s ?high ?fl \<noteq> {} \<Longrightarrow> backlog s2 ?high ?fl \<subset> backlog s ?high ?fl" "policy s2 = policy s"
      "handled s2 \<subseteq> handled s \<union> {c. c \<le> ?fl} \<union> {c. exhausted s c} \<union>
        set (consumed name ?high ?fl mx (own_subs own) (clock 0))"
      "handled s \<union> set (consumed name ?high ?fl mx (own_subs own) (clock 0)) \<subseteq> handled s2"
      "distinct (consumed name ?high ?fl mx (own_subs own) (clock 0))"
      "set (consumed name ?high ?fl mx (own_subs own) (clock 0)) \<inter> handled s = {}" "\<And>c. exhausted s2 c \<Longrightarrow> exhausted s c"
    by (rule consume_round[OF con assms(5)]) blast
  have subs2: "own_subs own2 = consume name ?high ?fl mx (own_subs own) now" by (simp add: own2 round(1) del: map_map)
  have inv2: "owner_inv own2"
    using own(1) own1 acks_reg_inv[OF own1(4)] by (simp add: owner_inv_def own2 acks_len del: map_map)
  have room2: "cursor_room own2"
    unfolding cursor_room_def
  proof (intro conjI allI impI)
    show "high_cursor (writer own2) \<noteq> top_word" using own(2) own1 by (simp add: cursor_room_def own2)
    fix m u assume u: "reg_get (own_subs own2) m = Some u"
    show "acked u \<noteq> top_word"
    proof (cases "m = name")
      case True
      with u con2 have "u = s2" by (simp add: subs2 consumable_def clock_def)
      then show ?thesis using consumable_floor[OF con2] by simp
    next
      case False
      then have "reg_get (own_subs own) m = Some u"
        using u consume_other[OF consumable_request[OF con] False] by (simp add: subs2)
      then show ?thesis using own(2) by (simp add: cursor_room_def)
    qed
  qed
  have "expired s2 (\<lambda>i. T)"
    unfolding expired_def
  proof (intro allI impI)
    fix c l assume "fmlookup (leases s2) c = Some l"
    with ex2 have "expires_at l \<le> clock 1" unfolding expired_def by blast
    then show "expires_at l \<le> T" by (simp add: clock_def)
  qed
  then have drains2: "drains name d T own2 s2"
    using inv2 room2 con2 own1 by (simp add: drains_def own2 clock_def round(1) del: map_map)
  have c0: "clock 0 = now" by (simp add: clock_def)
  have new: "printed_cursors (printed (cmd_lease env ((own, hs), script) (topic_name own) name ow mx True grant t)) = consumed name ?high ?fl mx (own_subs own) (clock 0)"
    by (simp add: out(2) c0 round(2)[symmetric] batch_printed[OF ls])
  have "shows_log hx (writer own) (printed (cmd_lease env ((own, hs), script) (topic_name own) name ow mx True grant t))"
    using batch_shows[OF ls round(3)] by (auto simp: shows_log_def out(2))
  then show thesis using rest(4-8) unfolding new[symmetric]
    by (intro that[OF out(1) script2 drains2 _ _ rest(1,2,3)]) (auto simp: own1 own2)
qed

section \<open>Many runs\<close>

text \<open>The command run \<open>k\<close> times, each with the printed lines and its ending.\<close>

definition lease_again ::
  "('i, 'c, 's) setting \<Rightarrow> string \<Rightarrow> string \<Rightarrow> string \<Rightarrow> usize \<Rightarrow> string option \<Rightarrow> u64 \<Rightarrow> 's \<Rightarrow>
    's \<times> (line list \<times> ending)" where
  "lease_again env tp name ow mx grant t s =
     (let r = cmd_lease env s tp name ow mx True grant t in (after r, (printed r, ending r)))"

text \<open>What a number of runs printed.\<close>

definition all_printed :: "(line list \<times> ending) list \<Rightarrow> line list" where
  "all_printed results = concat (map fst results)"

lemma auto_ack_rounds:
  fixes script :: "('i, 'c) fate list"
  assumes "hex_contract hx" "json_contract js" "0 < mx" "connect env = Inr (mesh_client me hx js)"
    and "attempts (lease_again env (topic_name own) name ow mx grant t) k ((own, hs), script) = (((own', hs'), script'), results)"
    and "\<forall>r \<in> set results. snd r = Finished"
    and "list_all (fate_ok (\<lambda>W now. speaks hx js W now \<and> T \<le> now)) script" "drains name d T own s"
  shows "\<exists>s'. drains name d T own' s' \<and> writer own' = writer own \<and>
    (let B = \<lambda>u. backlog u (high_cursor (writer own)) (log_floor (writer own)) in
      B s' = {} \<or> card (B s') + k \<le> card (B s)) \<and> policy s' = policy s \<and>
    handled s' \<subseteq> handled s \<union> {c. c \<le> log_floor (writer own)} \<union> {c. exhausted s c} \<union>
      set (printed_cursors (all_printed results)) \<and>
    distinct (printed_cursors (all_printed results)) \<and> set (printed_cursors (all_printed results)) \<inter> handled s = {} \<and>
    shows_log hx (writer own) (all_printed results)"
  using assms(5-)
proof (induction k arbitrary: own hs script s results)
  case 0
  then show ?case by (intro exI[of _ s]) (auto simp: all_printed_def shows_log_def)
next
  case (Suc k)
  define r where "r = cmd_lease env ((own, hs), script) (topic_name own) name ow mx True grant t"
  have step: "lease_again env (topic_name own) name ow mx grant t ((own, hs), script) = (after r, (printed r, ending r))"
    by (simp add: lease_again_def r_def Let_def)
  obtain results1 where rest: "attempts (lease_again env (topic_name own) name ow mx grant t) k (after r) =
      (((own', hs'), script'), results1)" and results: "results = (printed r, ending r) # results1"
    using Suc.prems(1) step by (auto split: prod.splits)
  have all: "all_printed results = printed r @ all_printed results1" by (simp add: results all_printed_def)
  have fin: "ending r = Finished" using Suc.prems(2) by (simp add: results)
  let ?high = "high_cursor (writer own)" and ?fl = "log_floor (writer own)"
  obtain own2 hs2 script2 s2 where a: "after r = ((own2, hs2), script2)"
    and later: "list_all (fate_ok (\<lambda>W now. speaks hx js W now \<and> T \<le> now)) script2" "drains name d T own2 s2"
    and same: "topic_name own2 = topic_name own" "writer own2 = writer own"
    and less: "backlog s2 ?high ?fl \<subseteq> backlog s ?high ?fl"
      "backlog s ?high ?fl \<noteq> {} \<Longrightarrow> backlog s2 ?high ?fl \<subset> backlog s ?high ?fl" "policy s2 = policy s"
    and new: "handled s2 \<subseteq> handled s \<union> {c. c \<le> ?fl} \<union> {c. exhausted s c} \<union> set (printed_cursors (printed r))"
    and once: "handled s \<union> set (printed_cursors (printed r)) \<subseteq> handled s2" "distinct (printed_cursors (printed r))"
      "set (printed_cursors (printed r)) \<inter> handled s = {}" "\<And>c. exhausted s2 c \<Longrightarrow> exhausted s c"
      "shows_log hx (writer own) (printed r)"
    unfolding r_def by (rule auto_ack_round[OF assms(1,2) Suc.prems(3,4) assms(3,4) fin[unfolded r_def]]) blast
  obtain s' where s': "drains name d T own' s'" "writer own' = writer own"
    "backlog s' ?high ?fl = {} \<or> card (backlog s' ?high ?fl) + k \<le> card (backlog s2 ?high ?fl)" "policy s' = policy s"
    "handled s' \<subseteq> handled s2 \<union> {c. c \<le> ?fl} \<union> {c. exhausted s2 c} \<union> set (printed_cursors (all_printed results1))"
    "distinct (printed_cursors (all_printed results1))" "set (printed_cursors (all_printed results1)) \<inter> handled s2 = {}"
    "shows_log hx (writer own) (all_printed results1)"
    using Suc.IH[OF rest[unfolded a, folded same(1)] _ later] Suc.prems(2) same(2) less(3) by (auto simp: results Let_def)
  have "backlog s' ?high ?fl = {} \<or> card (backlog s' ?high ?fl) + Suc k \<le> card (backlog s ?high ?fl)"
  proof (cases "backlog s ?high ?fl = {}")
    case True
    with less(1) s'(3) show ?thesis by auto
  next
    case False
    then have "card (backlog s2 ?high ?fl) < card (backlog s ?high ?fl)" using less(2) by (intro psubset_card_mono) auto
    with s'(3) show ?thesis by auto
  qed
  moreover have "handled s' \<subseteq> handled s \<union> {c. c \<le> ?fl} \<union> {c. exhausted s c} \<union> set (printed_cursors (all_printed results))"
    using new s'(5) once(4) by (fastforce simp: all)
  moreover have "distinct (printed_cursors (all_printed results))" "set (printed_cursors (all_printed results)) \<inter> handled s = {}"
    using once(1-3) s'(6,7) by (auto simp: all)
  moreover have "shows_log hx (writer own) (all_printed results)"
    using once(5) s'(8) by (auto simp: all shows_log_def)
  ultimately show ?case using s'(1,2,4) unfolding Let_def by blast
qed

lemma consumer_catches_up:
  fixes script :: "('i, 'c) fate list"
  assumes "hex_contract hx" "json_contract js" "connect env = Inr (mesh_client me hx js)"
    and "list_all (fate_ok (\<lambda>W now. speaks hx js W now \<and> T \<le> now)) script"
    and "owner_inv own" "cursor_room own" "reg_get (own_subs own) name = Some s"
    and "\<forall>c l. fmlookup (leases s) c = Some l \<longrightarrow> expires_at l \<le> T"
    and "high_cursor (writer own) < d" "d \<notin> handled s" "0 < mx"
    and "attempts (lease_again env (topic_name own) name ow mx grant t) k ((own, hs), script) = (((own', hs'), script'), results)"
    and "\<forall>r \<in> set results. snd r = Finished"
    and "unat (high_cursor (writer own)) - unat (log_floor (writer own)) \<le> k"
  shows "(\<forall>c. log_floor (writer own) < c \<longrightarrow> c \<le> high_cursor (writer own) \<longrightarrow>
      c \<in> handled_in name (own_subs own') \<and>
      (c \<in> handled s \<or> exhausted s c \<or> c \<in> set (printed_cursors (all_printed results)))) \<and>
    distinct (printed_cursors (all_printed results)) \<and> set (printed_cursors (all_printed results)) \<inter> handled s = {} \<and>
    shows_log hx (writer own) (all_printed results)"
proof -
  let ?high = "high_cursor (writer own)" and ?fl = "log_floor (writer own)"
  have "sub_inv s" by (rule reg_invD[OF owner_invD(2)[OF assms(5)] assms(7)])
  moreover have "?fl \<le> ?high"
    by (rule floor_le_high[OF owner_invD(1)[OF assms(5)]])
  ultimately have "drains name d T own s"
    using assms(5-10) by (simp add: drains_def consumable_def expired_def)
  from auto_ack_rounds[OF assms(1,2,11,3,12,13,4) this] obtain s' where s': "drains name d T own' s'" "writer own' = writer own"
    and left: "backlog s' ?high ?fl = {} \<or> card (backlog s' ?high ?fl) + k \<le> card (backlog s ?high ?fl)"
    and new: "handled s' \<subseteq> handled s \<union> {c. c \<le> ?fl} \<union> {c. exhausted s c} \<union> set (printed_cursors (all_printed results))"
    and once: "distinct (printed_cursors (all_printed results))" "set (printed_cursors (all_printed results)) \<inter> handled s = {}"
      "shows_log hx (writer own) (all_printed results)"
    by (auto simp: Let_def)
  have "backlog s' ?high ?fl = {}"
    using left backlog_card[of s ?high ?fl] assms(14)
    by (metis (no_types, lifting) add_leE card_eq_0_iff finite le_add2 le_antisym le_trans add_le_same_cancel2 le_zero_eq)
  then have "c \<in> handled s'" if "?fl < c" "c \<le> ?high" for c using that by (auto simp: backlog_def)
  moreover have "handled_in name (own_subs own') = handled s'"
    using s'(1) by (simp add: drains_def consumable_def handled_in_def)
  ultimately show ?thesis using new once by (fastforce simp: not_le[symmetric])
qed

section \<open>Property\<close>


text \<open>A topic with one message.\<close>

definition short_owner :: owner where
  "short_owner = sample_owner\<lparr>writer := apply_log empty_log (Append (new_message letter_hex 0 ''p'' [] 5))\<rparr>"

lemma short_owner_fields:
  "high_cursor (writer short_owner) = 1" "log_floor (writer short_owner) = 0"
  "log_get (writer short_owner) 1 = Some (leased_msg first_leased)"
  "own_subs short_owner = sample_registry" "topic_name short_owner = ''orders''"
  by (simp_all add: short_owner_def first_leased_def next_cursor_def)
    (simp_all add: log_get_def empty_log_def apply_log.simps next_cursor_def high_cursor_def new_message_def Let_def)

lemma short_owner_ok: "owner_inv short_owner" "cursor_room short_owner"
proof -
  have log: "log_inv (writer short_owner)"
    unfolding short_owner_def by (simp add: apply_log_inv log_admissible_def)
  have "wf_message m" if "m \<in> set (log_messages (writer short_owner))" for m
    using that by (auto simp: short_owner_def new_message_def wf_message_def attributes_ok_def
        ordering_key_ok_def letter_hex_def) (auto simp: empty_log_def)
  with log show "owner_inv short_owner"
    using sample_owner_inv unfolding owner_inv_def by (simp add: short_owner_def)
  show "cursor_room short_owner"
    using sample_owner_room short_owner_fields(1) by (simp add: cursor_room_def short_owner_fields(4))
qed


end
