(* ===== verification/End_To_End.thy ===== *)
theory End_To_End
  imports Consumer
begin

text \<open>
  A message from publisher to consumer: \<open>ce-pubsub publish --idempotency-key\<close>, retried over a mesh that
  loses requests and replies, and then \<open>ce-pubsub lease --auto-ack\<close>, run again and again over another
  such mesh.  Both ends meet only in the state of the owner.
\<close>

section \<open>The owner in between\<close>

lemma message_text_payload:
  assumes "hex_contract hx" "valid_utf8 payload" "payload_hex m = hex_encode hx payload"
  shows "message_text hx m = map (\<lambda>b. char_of (unat b)) payload"
  using hex_contractD(1)[OF assms(1)] assms(2,3) by (simp add: message_text_def utf8_lossy_valid)

lemma log_get_last:
  assumes "log_inv l" "log_messages l = ms @ [m]"
  shows "log_get l (msg_cursor m) = Some m"
  using log_get_nth[OF assms(1), of "length ms"] assms(2) by simp

text \<open>The lines that print the message at \<open>c\<close>.\<close>

definition shows_cursor :: "cursor \<Rightarrow> line \<Rightarrow> bool" where
  "shows_cursor c l = (case l of Shown_leased c' k p x \<Rightarrow> c' = c | _ \<Rightarrow> False)"

lemma shows_cursor_iff: "shows_cursor c l \<longleftrightarrow> (\<exists>k p x. l = Shown_leased c k p x)"
  by (cases l) (auto simp: shows_cursor_def)

lemma count_printed: "length (filter (shows_cursor c) ls) = count_list (printed_cursors ls) c"
proof (induction ls)
  case (Cons l ls)
  then show ?case by (cases l) (auto simp: printed_cursors_def shows_cursor_def List.map_filter_simps)
qed simp

lemma count_distinct: "distinct xs \<Longrightarrow> x \<in> set xs \<Longrightarrow> count_list xs x = 1"
  by (induction xs) (auto simp: count_notin)

lemma printed_once:
  assumes "distinct (printed_cursors ls)" "c \<in> set (printed_cursors ls)"
  shows "\<exists>l. filter (shows_cursor c) ls = [l] \<and> l \<in> set ls \<and> shows_cursor c l"
proof -
  have "length (filter (shows_cursor c) ls) = 1"
    unfolding count_printed by (rule count_distinct[OF assms])
  then obtain l where l: "filter (shows_cursor c) ls = [l]" by (auto simp: length_Suc_conv)
  then have "l \<in> set (filter (shows_cursor c) ls)" by simp
  then have "l \<in> set ls" "shows_cursor c l" unfolding set_filter by simp_all
  with l show ?thesis by blast
qed

section \<open>Property\<close>


text \<open>A topic whose three messages were pruned, and a codec for one message sent and received.\<close>

definition trip_owner :: owner where
  "trip_owner = sample_owner\<lparr>writer := apply_log sample_log (PruneTo 3)\<rparr>"

definition trip_request :: ingest_request where
  "trip_request = (bare_request (hex_encode letter_hex [0x68, 0x69]))\<lparr>req_idempotency_key := Some ''k''\<rparr>"

definition trip_leased :: leased_message where
  "trip_leased = \<lparr>leased_msg = new_message letter_hex 4 ''p'' [0x68, 0x69] 50, delivery_attempt = 1\<rparr>"

definition trip_json :: json_codec where
  "trip_json = two_json\<lparr>
     ingest_to_json := \<lambda>r. if r = trip_request then Inr [] else Inl (External ''''),
     ingest_from_json := \<lambda>bs. Inr trip_request,
     control_to_json := \<lambda>r. if r = Pull ''s'' 1 None then Inr [0] else if r = AckCursor ''s'' 4 None then Inr [1]
       else Inl (External ''''),
     control_from_json := \<lambda>bs. if bs = [0] then Inr (Pull ''s'' 1 None) else Inr (AckCursor ''s'' 4 None),
     control_reply_to_json := \<lambda>r. if r = Pulled [trip_leased] then Inr [0] else if r = Control_ok then Inr [1]
       else Inl (External ''''),
     control_reply_from_json := \<lambda>bs. if bs = [0] then Inr (Pulled [trip_leased]) else Inr Control_ok\<rparr>"

definition trip_world :: "(node_id, nat list \<times> string list \<times> string option) world" where
  "trip_world = two_world\<lparr>json := trip_json\<rparr>"

lemma trip_json_contract: "json_contract trip_json"
  by (auto simp: json_contract_def trip_json_def two_json_def split: if_splits)

lemma trip_world_simps [simp]: "world_ok trip_world" "hexlib trip_world = letter_hex" "json trip_world = trip_json"
  using two_world_simps by (simp_all add: trip_world_def world_ok_def)

lemma trip_world_log: "log_propose trip_world = (\<lambda>l x. (apply_log l x, Inr ()))"
  "subs_propose trip_world = (\<lambda>r x. (apply_sub r x, Inr ()))" "live_publish trip_world = (\<lambda>m. Inr ())"
  by (simp_all add: trip_world_def two_world_def sample_world_def)

lemma trip_codec:
  "ingest_encode trip_json trip_request = Inr []" "ingest_decode_hex letter_hex trip_json '''' = Inr trip_request"
  "ingest_reply_encode trip_json (Accepted 4) = Inr []" "ingest_reply_decode trip_json [] = Inr (Accepted 4)"
  "control_encode trip_json (Pull ''s'' 1 None) = Inr [0]" "control_encode trip_json (AckCursor ''s'' 4 None) = Inr [1]"
  "control_decode trip_json [0] = Inr (Pull ''s'' 1 None)" "control_decode trip_json [1] = Inr (AckCursor ''s'' 4 None)"
  "control_reply_encode trip_json (Pulled [trip_leased]) = Inr [0]" "control_reply_encode trip_json Control_ok = Inr [1]"
  "control_reply_decode trip_json [0] = Inr (Pulled [trip_leased])" "control_reply_decode trip_json [1] = Inr Control_ok"
  by (simp_all add: trip_json_def two_json_def ingest_encode_def ingest_reply_encode_def ingest_reply_decode_def
      control_decode_def control_encode_def control_reply_encode_def control_reply_decode_def MAX_CONTROL_BODY_BYTES_def
      MAX_INGEST_HEX_BYTES_def MAX_PAYLOAD_BYTES_def)
    (simp add: ingest_decode_hex_Inr ingest_decode_Inr trip_request_def bare_request_def MAX_IDEMPOTENCY_KEY_LEN_def
      letter_hex_def MAX_INGEST_HEX_BYTES_def MAX_PAYLOAD_BYTES_def)

lemma trip_log: "log_floor (writer trip_owner) = 3" "high_cursor (writer trip_owner) = 3" "log_messages (writer trip_owner) = []"
  by (simp_all add: trip_owner_def sample_log_def numeral_3_eq_3)
    (simp_all add: empty_log_def apply_log.simps next_cursor_def high_cursor_def new_message_def Let_def)

lemma trip_owner_ok: "owner_inv trip_owner" "cursor_room trip_owner"
proof -
  have "log_inv (writer trip_owner)"
    using owner_invD(1)[OF sample_owner_inv] by (simp add: trip_owner_def apply_log_inv log_admissible_def)
  then show "owner_inv trip_owner"
    using sample_owner_inv trip_log(3) unfolding owner_inv_def by (simp add: trip_owner_def)
  show "cursor_room trip_owner"
    using sample_owner_room unfolding cursor_room_def trip_log(2) by (simp add: trip_owner_def)
qed

lemma trip_publish:
  "\<exists>own1. handle_ingest trip_world trip_owner token '''' ''p'' 50 = (own1, Some (Accepted 4)) \<and>
    writer own1 = apply_log (writer trip_owner) (Append (leased_msg trip_leased))"
proof -
  have "cache_get k 50 (dedup trip_owner) = (dedup trip_owner, None)" for k
    by (simp add: trip_owner_def cache_get_def new_cache_def)
  moreover have attrs: "validate_attributes fmempty = Inr ()" by (simp add: attributes_ok_def)
  have "ingest_message trip_world trip_owner trip_request ''p'' 50 = Inr ((leased_msg trip_leased)\<lparr>msg_cursor := 0\<rparr>)"
    by (simp add: ingest_message_def ingest_gate_def trip_request_def bare_request_def validate_ordering_key_def
        hex_contractD(1)[OF letter_hex_contract] trip_leased_def attrs del: validate_attributes_iff)
      (simp add: trip_owner_def validate_payload_def MAX_PAYLOAD_BYTES_def authenticated_def new_message_def)
  then obtain own2 where "apply_ingest trip_world (trip_owner\<lparr>dedup := dedup trip_owner\<rparr>) trip_request ''p'' 50 = (own2, Inr 4)"
    "writer own2 = apply_log (writer trip_owner) (Append (leased_msg trip_leased))"
    by (simp add: apply_ingest_def append_and_fanout_def Let_def next_cursor_def trip_log trip_world_log apply_append_stamp)
  ultimately show ?thesis by (simp add: handle_ingest_def trip_codec Let_def)
qed

lemma trip_plan:
  "plan_lease sample_registry ''s'' 4 3 100 1 =
    Some (Some (ApplyLease ''s'' [(4, 130)] [] 3, \<lparr>leased = [(4, 1)], dead_lettered = []\<rparr>))"
  by (simp add: plan_lease_def sample_simps)


end
