(* ===== verification/Single_Link.thy ===== *)
theory Single_Link
  imports Caps
begin

text \<open>
  What the repository relies on of \<open>ce-iam-core\<close> for the links it mints (\<open>src/src/caps.rs\<close>): each is a chain
  of one capability that its owner issued.  Its comments and the randomized test \<open>link_verify_is_sound\<close>
  describe when such a chain is accepted; that is the contract below, and with it a minted link means
  what it was minted for.
\<close>

section \<open>What is relied on of the capability library\<close>

definition contains_text :: "string \<Rightarrow> string \<Rightarrow> bool" where
  "contains_text s t = list_ex (\<lambda>i. starts_with (drop i s) t) [0..<Suc (length s)]"

text \<open>
  A single capability that its owner issued for one ability is accepted by the owner from its audience only, for
  that ability, until it expires (never, if the expiry is zero), as long as it is not revoked.
\<close>

definition single_link :: "('i, 'c) iam \<Rightarrow> 'i \<Rightarrow> node_id \<Rightarrow> string \<Rightarrow> caveats \<Rightarrow> u64 \<Rightarrow> 'c" where
  "single_link lib owner aud ab cv nonce = issue_cap lib owner aud [ab] (identity_node_id lib owner) cv nonce"

definition in_time :: "caveats \<Rightarrow> u64 \<Rightarrow> bool" where
  "in_time cv now \<longleftrightarrow> not_after cv = 0 \<or> now \<le> not_after cv"

definition single_link_contract :: "('i, 'c) iam \<Rightarrow> bool" where
  "single_link_contract lib \<longleftrightarrow> iam_contract lib \<and>
     (\<forall>owner aud ab cv nonce rs tags now requester ability revoked.
       is_ok (authorize_chain lib (identity_node_id lib owner) rs tags now requester ability
         [single_link lib owner aud ab cv nonce] revoked) =
       (requester = aud \<and> ability = ab \<and> in_time cv now \<and> \<not> revoked (identity_node_id lib owner) nonce)) \<and>
     (\<forall>owner aud ab cv nonce rs tags now revoked.
       in_time cv now \<longrightarrow> revoked (identity_node_id lib owner) nonce \<longrightarrow>
       (\<exists>why. authorize_chain lib (identity_node_id lib owner) rs tags now aud ab
         [single_link lib owner aud ab cv nonce] revoked = Inl (External why) \<and> contains_text why ''revoked''))"

lemma single_link_contractD:
  assumes "single_link_contract lib"
  shows "iam_contract lib"
    and "is_ok (authorize_chain lib (identity_node_id lib owner) rs tags now requester ability
      [single_link lib owner aud ab cv nonce] revoked) =
      (requester = aud \<and> ability = ab \<and> in_time cv now \<and> \<not> revoked (identity_node_id lib owner) nonce)"
    and "in_time cv now \<Longrightarrow> revoked (identity_node_id lib owner) nonce \<Longrightarrow>
      \<exists>why. authorize_chain lib (identity_node_id lib owner) rs tags now aud ab
        [single_link lib owner aud ab cv nonce] revoked = Inl (External why) \<and> contains_text why ''revoked''"
  using assms by (simp_all add: single_link_contract_def)

lemma minted_single:
  assumes "single_link_contract lib" "mint_link lib owner aud ab scope expiry nonce = Inr token"
  shows "decode_chain lib token = Inr [single_link lib owner aud ab \<lparr>not_after = expiry, path_prefix = Some scope\<rparr> nonce]"
    and "cap_path_prefix lib (single_link lib owner aud ab \<lparr>not_after = expiry, path_prefix = Some scope\<rparr> nonce) = Some scope"
  using assms(2) single_link_contractD(1)[OF assms(1)]
  by (auto simp: mint_link_def iam_contract_def single_link_def Let_def)

section \<open>A minted link\<close>

text \<open>A link that its owner minted works for its audience, and for no one else, exactly as it was minted: for its ability, on the
  topics under its scope, until its expiry, and unless it was revoked.\<close>

theorem minted_link_works:
  assumes "single_link_contract lib" "mint_link lib owner aud ab scope expiry nonce = Inr token"
  shows "is_ok (verify_link lib (identity_node_id lib owner) rs tags now requester ability topic token revoked) \<longleftrightarrow>
    requester = aud \<and> ability = ab \<and> (expiry = 0 \<or> now \<le> expiry) \<and> \<not> revoked (identity_node_id lib owner) nonce \<and>
    topic_allows scope topic"
  using minted_single[OF assms] single_link_contractD(2)[OF assms(1), of owner rs tags now requester ability aud ab
      "\<lparr>not_after = expiry, path_prefix = Some scope\<rparr>" nonce revoked]
  by (auto simp: is_ok_iff verify_link_Inr in_time_def)

text \<open>A library of this kind: a capability is written down with everything it was issued with.\<close>

definition dated_iam :: "(node_id, nat list \<times> string list \<times> string option \<times> nat \<times> nat \<times> nat list) iam" where
  "dated_iam = \<lparr>identity_node_id = id,
     issue_cap = \<lambda>i aud ab res cv n. (map unat aud, ab, path_prefix cv, unat (not_after cv), unat n, map unat i),
     cap_abilities = \<lambda>c. fst (snd c), cap_path_prefix = \<lambda>c. fst (snd (snd c)),
     encode_chain = \<lambda>ch. replicate (to_nat ch) (CHR ''x''),
     decode_chain = \<lambda>s. if list_all (\<lambda>c. c = CHR ''x'') s then Inr (from_nat (length s)) else Inl (External ''bad token''),
     authorize_chain = \<lambda>self rs tags now requester ability chain revoked.
       case chain of
         [(aud, ab, scope, expiry, n, issuer)] \<Rightarrow>
           if issuer \<noteq> map unat self \<or> aud \<noteq> map unat requester \<or> ability \<notin> set ab \<or> expiry \<noteq> 0 \<and> expiry < unat now
           then Inl (External ''denied'')
           else if revoked self (of_nat n) then Inl (External ''capability revoked'') else Inr ()
       | _ \<Rightarrow> Inl (External ''denied'')\<rparr>"

lemma dated_iam_contract: "single_link_contract dated_iam"
proof -
  have "list_all (\<lambda>c. c = CHR ''x'') (replicate n (CHR ''x''))" for n by (simp add: list_all_iff)
  then have "iam_contract dated_iam" by (simp add: iam_contract_def dated_iam_def)
  moreover have "contains_text ''capability revoked'' ''revoked''" by code_simp
  ultimately show ?thesis
    by (auto simp: single_link_contract_def single_link_def in_time_def dated_iam_def word_le_nat_alt is_ok_iff unat_eq_0)
qed

end
