(* ===== verification/Granted.thy ===== *)
theory Granted
  imports Cli_Props Single_Link
begin

text \<open>
  A grant from end to end: \<open>ce-pubsub grant\<close> (\<open>cmd_grant\<close> of \<open>src/src/main.rs\<close>) mints a link, its holder
  presents it with a request, and the owner of the topic authorizes it (\<open>authorize\<close> of \<open>lib.rs\<close>).
\<close>

lemma authorize_minted:
  assumes "single_link_contract (iamlib W)" "mint_link (iamlib W) identity aud ab scope expiry nonce = Inr token"
    and "parse_node_id (hexlib W) (own_id own) = Inr (identity_node_id (iamlib W) identity)" "revoked_set W = Inr entries"
  shows "(authorize W own from ability token now = Inr ()) =
    (parse_node_id (hexlib W) from = Inr aud \<and> ability = ab \<and> (expiry = 0 \<or> now \<le> expiry) \<and>
     (\<forall>h. (h, nonce) \<in> set entries \<longrightarrow> parse_node_id (hexlib W) h \<noteq> Inr (identity_node_id (iamlib W) identity)) \<and>
     (\<exists>rest. topic_name own = scope @ rest))"
proof -
  let ?self = "identity_node_id (iamlib W) identity"
  have mem: "(issuer, n) \<in> set (List.map_filter (\<lambda>(issuer_hex, nonce).
      case parse_node_id (hexlib W) issuer_hex of Inr i \<Rightarrow> Some (i, nonce) | Inl _ \<Rightarrow> None) entries) \<longleftrightarrow>
      (\<exists>h. (h, n) \<in> set entries \<and> parse_node_id (hexlib W) h = Inr issuer)" for issuer n
    by (force simp: List.map_filter_def split: sum.splits)
  have "authorize W own from ability token now = Inr () \<longleftrightarrow> (\<exists>requester. parse_node_id (hexlib W) from = Inr requester \<and>
      is_ok (verify_link (iamlib W) ?self (accepted_roots own) [] now requester ability (topic_name own) token
        (\<lambda>issuer n. \<exists>h. (h, n) \<in> set entries \<and> parse_node_id (hexlib W) h = Inr issuer)))"
    by (simp add: authorize_def fetch_revoked_def assms(3,4) result_simps mem is_ok_iff)
  then show ?thesis
    by (auto simp: minted_link_works[OF assms(1,2)] topic_allows_iff)
qed


definition dated_world :: "(node_id, nat list \<times> string list \<times> string option \<times> nat \<times> nat \<times> nat list) world" where
  "dated_world = \<lparr>hexlib = letter_hex, json = bare_json, iamlib = dated_iam,
     log_propose = \<lambda>l x. (apply_log l x, Inr ()), subs_propose = \<lambda>r x. (apply_sub r x, Inr ()),
     live_publish = \<lambda>m. Inr (), revoked_set = Inr [(node_text 1, 7)], dlq_open = \<lambda>n. Inr (), dlq_publish = \<lambda>n m. Inr ()\<rparr>"

definition dated_setting ::
  "(node_id, nat list \<times> string list \<times> string option \<times> nat \<times> nat \<times> nat list, unit) setting" where
  "dated_setting = \<lparr>coord_connect = Inl (External ''''), local_world = dated_world, open_writer = \<lambda>n. Inr empty_log,
     open_registry = \<lambda>n. Inr empty_registry, open_live = \<lambda>n. Inr (), read_file = \<lambda>n. Inl (External ''''),
     load_identity = \<lambda>d. Inr (replicate 32 1), project_data_dir = None, clock = \<lambda>i. Inr 100\<rparr>"


end
