(* ===== verification/Lease_Steps.thy ===== *)
theory Lease_Steps
  imports Owner_Props
begin

text \<open>
  The lease handler of \<open>src/src/lib.rs\<close> split where it awaits.  The control worker is the only one that
  changes the registry, but publishers and the owner's pruning change the log while a lease waits: after
  the plan is made, before the dead letters are read, and before the leased messages are read.
\<close>

section \<open>The steps\<close>

definition lease_begin ::
  "owner \<Rightarrow> string \<Rightarrow> usize \<Rightarrow> u64 \<Rightarrow> (sub_op \<times> lease_outcome) option option" where
  "lease_begin own name mx now =
     plan_lease (own_subs own) name (high_cursor (writer own)) (log_floor (writer own)) now mx"

definition lease_commit :: "('i, 'c) world \<Rightarrow> owner \<Rightarrow> sub_op \<Rightarrow> owner \<times> (error + unit)" where
  "lease_commit W own x = (let (r, res) = subs_propose W (own_subs own) x in (own\<lparr>own_subs := r\<rparr>, res))"

definition lease_route :: "('i, 'c) world \<Rightarrow> owner \<Rightarrow> lease_outcome \<Rightarrow> owner" where
  "lease_route W own outcome =
     (if dead_lettered outcome \<noteq> [] then route_dead_letters W own (dead_lettered outcome) else own)"

definition lease_resolve :: "owner \<Rightarrow> lease_outcome \<Rightarrow> leased_message list" where
  "lease_resolve own outcome =
     List.map_filter (\<lambda>(c, attempt).
       map_option (\<lambda>m. \<lparr>leased_msg = m, delivery_attempt = attempt\<rparr>) (log_get (writer own) c)) (leased outcome)"

text \<open>What others do to the log in the meantime.\<close>

definition log_moves :: "owner \<Rightarrow> log_op list \<Rightarrow> owner" where
  "log_moves own ops = own\<lparr>writer := replay apply_log (writer own) ops\<rparr>"

definition interleaved_lease ::
  "('i, 'c) world \<Rightarrow> owner \<Rightarrow> string \<Rightarrow> usize \<Rightarrow> u64 \<Rightarrow> log_op list \<Rightarrow> log_op list \<Rightarrow> log_op list \<Rightarrow>
    (owner \<times> control_reply) option" where
  "interleaved_lease W own name mx now ops0 ops1 ops2 =
     (if reg_get (own_subs own) name = None then Some (own, Control_rejected (No_such_subscription name))
      else
        case lease_begin own name mx now of
          None \<Rightarrow> None
        | Some None \<Rightarrow> Some (own, Pulled [])
        | Some (Some (x, outcome)) \<Rightarrow>
            let (own1, res) = lease_commit W (log_moves own ops0) x in
            case res of
              Inl e \<Rightarrow> Some (own1, Control_rejected (Wrapped ''lease failed'' e))
            | Inr _ \<Rightarrow>
                let own2 = log_moves (lease_route W (log_moves own1 ops1) outcome) ops2 in
                Some (own2, Pulled (lease_resolve own2 outcome)))"

lemma log_moves_Nil [simp]: "log_moves own [] = own"
  by (simp add: log_moves_def)

lemma log_moves_fields [simp]:
  "own_subs (log_moves own ops) = own_subs own" "dlq_out (log_moves own ops) = dlq_out own"
  "topic_name (log_moves own ops) = topic_name own" "own_id (log_moves own ops) = own_id own"
  "writer (log_moves own ops) = replay apply_log (writer own) ops"
  by (simp_all add: log_moves_def)

text \<open>Without interference the steps make up the handler.\<close>

lemma handle_lease_steps: "handle_lease W own name mx now = interleaved_lease W own name mx now [] [] []"
  by (simp add: handle_lease_def interleaved_lease_def lease_begin_def lease_commit_def lease_route_def
      lease_resolve_def Let_def split: option.split prod.split sum.split)

section \<open>Reading a log that has moved on\<close>

lemma resolve_moved:
  assumes log: "log_inv l" "admissible_run apply_log log_admissible l ops"
    and range: "\<forall>p \<in> set ps. key p \<le> high_cursor l" and get: "\<And>p m. of_result (res p m) = m"
  shows "List.map_filter (\<lambda>p. map_option (res p) (log_get (replay apply_log l ops) (key p))) ps =
    filter (\<lambda>x. log_floor (replay apply_log l ops) < msg_cursor (of_result x))
      (List.map_filter (\<lambda>p. map_option (res p) (log_get l (key p))) ps)"
  using range
proof (induction ps)
  case (Cons p ps)
  have "log_get (replay apply_log l ops) (key p) =
      (if key p \<le> log_floor (replay apply_log l ops) then None else log_get l (key p))"
    using log_get_replay[OF log] Cons.prems by simp
  moreover have "log_get l (key p) = Some m \<Longrightarrow> msg_cursor m = key p" for m by (rule log_get_cursor[OF log(1)])
  ultimately show ?case using Cons
    by (cases "log_get l (key p)") (auto simp: List.map_filter_simps get not_le)
qed (simp add: List.map_filter_simps)

text \<open>The two readings of the handler.\<close>

lemma lease_resolve_moved:
  assumes "log_inv l" "admissible_run apply_log log_admissible l ops" "\<forall>p \<in> set (leased out). fst p \<le> high_cursor l"
    and "writer own = l" "writer own' = replay apply_log l ops"
  shows "lease_resolve own' out =
    filter (\<lambda>lm. log_floor (writer own') < msg_cursor (leased_msg lm)) (lease_resolve own out)"
  using resolve_moved[OF assms(1,2,3), of leased_msg "\<lambda>p m. \<lparr>leased_msg = m, delivery_attempt = snd p\<rparr>"]
  by (simp add: lease_resolve_def assms(4,5) case_prod_unfold)

definition new_dead_letters :: "('i, 'c) world \<Rightarrow> owner \<Rightarrow> cursor list \<Rightarrow> (string \<times> message) list" where
  "new_dead_letters W own cs =
     (let stream = live_stream_name (dead_letter_topic (topic_name own)) (own_id own) in
      if is_ok (dlq_open W stream)
      then map (Pair stream) (filter (\<lambda>m. is_ok (dlq_publish W stream m)) (List.map_filter (log_get (writer own)) cs))
      else [])"

lemma route_dlq: "dlq_out (route_dead_letters W own cs) = dlq_out own @ new_dead_letters W own cs"
  by (cases "dlq_open W (live_stream_name (dead_letter_topic (topic_name own)) (own_id own))")
    (simp_all add: route_dead_letters_def new_dead_letters_def Let_def)

lemma dead_letters_moved:
  assumes "log_inv l" "admissible_run apply_log log_admissible l ops" "\<forall>c \<in> set cs. c \<le> high_cursor l"
    and "writer own = l" "writer own' = replay apply_log l ops" "topic_name own' = topic_name own" "own_id own' = own_id own"
  shows "new_dead_letters W own' cs =
    filter (\<lambda>p. log_floor (writer own') < msg_cursor (snd p)) (new_dead_letters W own cs)"
  using resolve_moved[OF assms(1,2), of cs id id "\<lambda>p m. m"] assms(3)
  by (simp add: new_dead_letters_def assms(4-7) Let_def filter_map comp_def option.map_ident conj_commute)

section \<open>Property\<close>

text \<open>C10: A lease is not disturbed by what happens to the log while it waits: it leaves the same subscription
  state as a lease that is not interrupted, and answers the same messages without those that have been
  pruned in the meantime; likewise for the dead letters it routes.\<close>

theorem interleaved_lease_exact:
  assumes "world_ok W" "owner_inv own" "cursor_room own" "reg_get (own_subs own) name = Some s"
    and "admissible_run apply_log log_admissible (writer own) (ops0 @ ops1 @ ops2)"
    and "interleaved_lease W own name mx now ops0 ops1 ops2 = Some (own', Pulled ms)"
  shows "\<exists>own0 ms0 letters. handle_lease W own name mx now = Some (own0, Pulled ms0) \<and>
    own_subs own' = own_subs own0 \<and>
    ms = filter (\<lambda>lm. log_floor (writer own') < msg_cursor (leased_msg lm)) ms0 \<and>
    dlq_out own0 = dlq_out own @ letters \<and>
    dlq_out own' = dlq_out own @
      filter (\<lambda>p. log_floor (replay apply_log (writer own) (ops0 @ ops1)) < msg_cursor (snd p)) letters"
proof (cases "lease_begin own name mx now")
  case (Some plan)
  show ?thesis
  proof (cases plan)
    case None
    with assms(4,6) Some show ?thesis
      by (auto simp: interleaved_lease_def handle_lease_steps intro!: exI[of _ "[]"])
  next
    fix p assume p: "plan = Some p"
    obtain x out where b: "lease_begin own name mx now = Some (Some (x, out))" using Some p by (cases p) simp
    obtain r res where r: "subs_propose W (own_subs own) x = (r, res)" by fastforce
    note req = owner_lease_request[OF assms(2,3,4)]
    have range: "\<forall>q \<in> set (leased out). fst q \<le> high_cursor (writer own)"
      "\<forall>c \<in> set (dead_lettered out). c \<le> high_cursor (writer own)"
      by (rule planned_leaseE[OF req b[unfolded lease_begin_def]], auto)+
    let ?L1 = "replay apply_log (writer own) (ops0 @ ops1)"
    have adm: "admissible_run apply_log log_admissible (writer own) (ops0 @ ops1)" using assms(5) by simp
    note inv = owner_invD(1)[OF assms(2)]
    obtain u where res: "res = Inr u"
      using assms(4,6) b r by (cases res) (auto simp: interleaved_lease_def lease_commit_def Let_def)
    define own1 where "own1 = own\<lparr>own_subs := r\<rparr>"
    define moved where "moved = own1\<lparr>writer := ?L1\<rparr>"
    have h: "handle_lease W own name mx now = Some (lease_route W own1 out, Pulled (lease_resolve own1 out))"
      using assms(4) b r res
      by (simp add: handle_lease_steps interleaved_lease_def lease_commit_def own1_def Let_def)
        (simp add: lease_route_def lease_resolve_def)
    have "log_moves (log_moves own ops0\<lparr>own_subs := r\<rparr>) ops1 = moved"
      by (simp add: moved_def own1_def log_moves_def)
    then have own': "own' = log_moves (lease_route W moved out) ops2" and ms: "ms = lease_resolve own' out"
      using assms(4,6) b r res by (auto simp: interleaved_lease_def lease_commit_def Let_def)
    have w: "writer own' = replay apply_log (writer own1) (ops0 @ ops1 @ ops2)" "writer own1 = writer own"
      by (simp_all add: own' lease_route_def moved_def own1_def)
    have "ms = filter (\<lambda>lm. log_floor (writer own') < msg_cursor (leased_msg lm)) (lease_resolve own1 out)"
      unfolding ms by (rule lease_resolve_moved[OF inv assms(5) range(1) w(2)]) (simp add: w)
    moreover have "own_subs own' = own_subs (lease_route W own1 out)"
      by (simp add: own' lease_route_def moved_def)
    moreover have "new_dead_letters W moved (dead_lettered out) =
        filter (\<lambda>p. log_floor ?L1 < msg_cursor (snd p)) (new_dead_letters W own1 (dead_lettered out))"
      using dead_letters_moved[OF inv adm range(2) w(2), of moved W] by (simp add: moved_def)
    ultimately show ?thesis
      by (intro exI[of _ "lease_route W own1 out"] exI[of _ "lease_resolve own1 out"]
          exI[of _ "if dead_lettered out \<noteq> [] then new_dead_letters W own1 (dead_lettered out) else []"])
        (simp add: h own' lease_route_def route_dlq moved_def own1_def)
  qed
qed (use assms(4,6) in \<open>simp add: interleaved_lease_def\<close>)

lemma interleaved_lease_exact_witness:
  "\<exists>own' ms. interleaved_lease (sample_world list_request (bare_request [])) sample_owner ''s'' 2 100
      [PruneTo 1] [Append (sample_message_at 1)] [] = Some (own', Pulled ms) \<and> map (msg_cursor \<circ> leased_msg) ms = [2]"
proof -
  let ?W = "sample_world list_request (bare_request [])"
  have plan: "lease_begin sample_owner ''s'' 2 100 = Some (Some (sample_lease, \<lparr>leased = [(1, 1), (2, 1)], dead_lettered = []\<rparr>))"
    using sample_plan by (simp add: lease_begin_def)
  have commit: "lease_commit ?W own x = (own\<lparr>own_subs := apply_sub (own_subs own) x\<rparr>, Inr ())" for own x
    by (simp add: lease_commit_def sample_world_def)
  obtain own' ms where l: "interleaved_lease ?W sample_owner ''s'' 2 100 [PruneTo 1] [Append (sample_message_at 1)] [] =
      Some (own', Pulled ms)" and w: "writer own' = replay apply_log sample_log [PruneTo 1, Append (sample_message_at 1)]"
    by (simp add: interleaved_lease_def plan commit lease_route_def Let_def)
  have s: "reg_get (own_subs sample_owner) ''s'' = Some default_state" by simp
  have log: "log_inv sample_log" using owner_invD(1)[OF sample_owner_inv] by simp
  have adm: "admissible_run apply_log log_admissible (writer sample_owner) ([PruneTo 1] @ [Append (sample_message_at 1)] @ [])"
    by (simp add: log_admissible_def high_cursor_prune[OF log])
  obtain own0 ms0 where h: "handle_lease ?W sample_owner ''s'' 2 100 = Some (own0, Pulled ms0)"
    and ms: "ms = filter (\<lambda>lm. log_floor (writer own') < msg_cursor (leased_msg lm)) ms0"
    using interleaved_lease_exact[OF sample_world_ok sample_owner_inv sample_owner_room s adm l] by blast
  have "length (log_messages sample_log) = 3" using unat_high_cursor[OF log] by simp
  then have "unat (log_floor (writer own')) = 1"
    using unat_floor_prune[OF log, of 1] by (simp add: w)
  then have fl: "log_floor (writer own') = 1" by (simp add: word_unat_eq_iff)
  have "map (msg_cursor \<circ> leased_msg) ms0 = [1, 2]"
    by (rule handle_lease_Pulled[OF sample_world_ok sample_owner_inv sample_owner_room s h])
      (use sample_plan in \<open>auto simp: comp_def\<close>)
  then have "map (msg_cursor \<circ> leased_msg) ms = [2]"
    unfolding ms fl by (auto simp: map_eq_Cons_conv)
  with l show ?thesis by (intro exI conjI)
qed

end
