(* ===== verification/Workers.thy ===== *)
theory Workers
  imports Owner_Props
begin

text \<open>
  The background workers of a topic owner, \<open>serve_ingest\<close> and \<open>serve_control\<close> of \<open>src/src/lib.rs\<close>:
  one turn of each polling loop, when the loops stop (the reference count of the shared state and
  \<open>Drop for Topic\<close>), and what happens when two publishes interleave inside \<open>append_and_fanout\<close>.
\<close>

section \<open>One turn of a polling loop\<close>

text \<open>
  The messages of the inbox with the time at which each is handled.  A turn answers the replies that
  were sent; \<open>None\<close> is a worker that returns because it was told to stop.
\<close>

fun ingest_batch ::
  "('i, 'c) world \<Rightarrow> owner \<Rightarrow> (app_message \<times> u64) list \<Rightarrow> owner \<times> (u64 \<times> bytes) list" where
  "ingest_batch W own [] = (own, [])"
| "ingest_batch W own ((m, now) # ms) =
     (let (own1, r) = serve_ingest_message W own m now; (own2, rs) = ingest_batch W own1 ms in
      (own2, (case r of Some sent \<Rightarrow> sent # rs | None \<Rightarrow> rs)))"

definition ingest_turn ::
  "('i, 'c) world \<Rightarrow> owner \<Rightarrow> error + (app_message \<times> u64) list \<Rightarrow> (owner \<times> (u64 \<times> bytes) list) option" where
  "ingest_turn W own inbox =
     (if shutdown own then None
      else Some (case inbox of Inr ms \<Rightarrow> ingest_batch W own ms | Inl _ \<Rightarrow> (own, [])))"

fun control_batch ::
  "('i, 'c) world \<Rightarrow> owner \<times> token_set \<Rightarrow> (app_message \<times> u64) list \<Rightarrow>
    ((owner \<times> token_set) \<times> (u64 \<times> bytes) list) option" where
  "control_batch W st [] = Some (st, [])"
| "control_batch W st ((m, now) # ms) =
     (case serve_control_message W st m now of
        None \<Rightarrow> None
      | Some (st1, r) \<Rightarrow>
          map_option (\<lambda>(st2, rs). (st2, case r of Some sent \<Rightarrow> sent # rs | None \<Rightarrow> rs)) (control_batch W st1 ms))"

text \<open>Here the outer option tells whether the turn ends, the inner one whether the worker goes on.\<close>

definition control_turn ::
  "('i, 'c) world \<Rightarrow> owner \<times> token_set \<Rightarrow> error + (app_message \<times> u64) list \<Rightarrow>
    ((owner \<times> token_set) \<times> (u64 \<times> bytes) list) option option" where
  "control_turn W st inbox =
     (if shutdown (fst st) then Some None
      else case inbox of Inr ms \<Rightarrow> map_option Some (control_batch W st ms) | Inl _ \<Rightarrow> Some (Some (st, [])))"

text \<open>A turn that sees only messages for other topics, without a reply token, or with a token it has seen
  within the time limit, does nothing: so an inbox that is read again is harmless.\<close>

lemma control_batch_seen:
  assumes "\<And>m now t. (m, now) \<in> set ms \<Longrightarrow> am_topic m = control_topic (topic_name own) \<Longrightarrow>
      am_reply_token m = Some t \<Longrightarrow> token_seen t now hs = (hs, True)"
  shows "control_batch W (own, hs) ms = Some ((own, hs), [])"
  using assms
proof (induction ms)
  case (Cons p ms)
  obtain m now where p: "p = (m, now)" by fastforce
  have "serve_control_message W (own, hs) m now = Some ((own, hs), None)"
    using Cons.prems[of m now] by (auto simp: serve_control_message_def p split: option.split)
  moreover have "control_batch W (own, hs) ms = Some ((own, hs), [])"
    by (rule Cons.IH) (rule Cons.prems, simp_all)
  ultimately show ?case by (simp add: p)
qed simp

section \<open>Handles and the shutdown flag\<close>

text \<open>
  The reference count of the state shared by all \<open>Topic\<close> handles, the handles that user code holds, the
  flag, and whether each worker task still runs.  A running worker holds one clone of the handle.
\<close>

record handles =
  strong_count :: nat
  user_handles :: nat
  stop_flag :: bool
  ingest_runs :: bool
  control_runs :: bool

definition clone_handle :: "handles \<Rightarrow> handles" where
  "clone_handle h = h\<lparr>strong_count := strong_count h + 1\<rparr>"

text \<open>\<open>Drop for Topic\<close>, after which the reference itself is given up.\<close>

definition drop_handle :: "handles \<Rightarrow> handles" where
  "drop_handle h = h\<lparr>stop_flag := stop_flag h \<or> strong_count h = 1, strong_count := strong_count h - 1\<rparr>"

definition serve_ingest :: "handles \<Rightarrow> handles" where
  "serve_ingest h = (clone_handle h)\<lparr>ingest_runs := True\<rparr>"

definition serve_control :: "handles \<Rightarrow> handles" where
  "serve_control h = (clone_handle h)\<lparr>control_runs := True\<rparr>"

definition created_handles :: handles where
  "created_handles = serve_control (serve_ingest
     \<lparr>strong_count = 1, user_handles = 1, stop_flag = False, ingest_runs = False, control_runs = False\<rparr>)"

text \<open>What a worker does at the head of its loop.\<close>

definition poll_ingest :: "handles \<Rightarrow> handles" where
  "poll_ingest h = (if stop_flag h then (drop_handle h)\<lparr>ingest_runs := False\<rparr> else h)"

definition poll_control :: "handles \<Rightarrow> handles" where
  "poll_control h = (if stop_flag h then (drop_handle h)\<lparr>control_runs := False\<rparr> else h)"

inductive handle_step :: "handles \<Rightarrow> handles \<Rightarrow> bool" where
  Clone: "0 < user_handles h \<Longrightarrow> handle_step h ((clone_handle h)\<lparr>user_handles := user_handles h + 1\<rparr>)"
| Drop: "0 < user_handles h \<Longrightarrow> handle_step h ((drop_handle h)\<lparr>user_handles := user_handles h - 1\<rparr>)"
| Poll_ingest: "ingest_runs h \<Longrightarrow> handle_step h (poll_ingest h)"
| Poll_control: "control_runs h \<Longrightarrow> handle_step h (poll_control h)"

inductive_cases handle_stepE: "handle_step h h'"

inductive handles_reachable :: "handles \<Rightarrow> bool" where
  Created: "handles_reachable created_handles"
| Later: "handles_reachable h \<Longrightarrow> handle_step h h' \<Longrightarrow> handles_reachable h'"

section \<open>A publish in two steps\<close>

text \<open>The read of the next cursor, and the rest of \<open>append_and_fanout\<close>, which awaits the append.\<close>

definition append_read :: "owner \<Rightarrow> cursor" where
  "append_read own = next_cursor (writer own)"

definition append_commit :: "('i, 'c) world \<Rightarrow> owner \<Rightarrow> cursor \<Rightarrow> message \<Rightarrow> owner \<times> (error + cursor)" where
  "append_commit W own c msg =
     (let m = msg\<lparr>msg_cursor := c\<rparr>; (w, res) = log_propose W (writer own) (Append m); own1 = own\<lparr>writer := w\<rparr> in
      case res of
        Inl e \<Rightarrow> (own1, Inl (Context ''durable append'' e))
      | Inr _ \<Rightarrow>
          (case live_publish W m of Inl _ \<Rightarrow> own1 | Inr _ \<Rightarrow> own1\<lparr>live_out := live_out own1 @ [m]\<rparr>, Inr c))"

lemma append_and_fanout_steps: "append_and_fanout W own msg = append_commit W own (append_read own) msg"
  by (simp add: append_and_fanout_def append_commit_def append_read_def Let_def)

lemma append_commit_Inr:
  assumes "world_ok W" "append_commit W own c msg = (own', Inr c')"
  shows "c' = c" "writer own' = apply_log (writer own) (Append msg)"
proof -
  obtain w r where p: "log_propose W (writer own) (Append (msg\<lparr>msg_cursor := c\<rparr>)) = (w, r)" by fastforce
  with assms(2) have "is_ok r" "c' = c" "writer own' = w"
    by (auto simp: append_commit_def Let_def split: sum.splits)
  then show "c' = c" "writer own' = apply_log (writer own) (Append msg)"
    using propose_contractD(1)[OF world_okD(2)[OF assms(1)] p] by (simp_all add: apply_append_stamp)
qed

section \<open>Properties\<close>

text \<open>C38: The workers of a topic never stop: whatever handles are cloned and dropped, the flag is never set and
  both workers go on, also when no user handle is left; the two clones the workers hold keep the count
  above one, so the drop of the last user handle does not see it.\<close>

theorem workers_never_stop:
  assumes "handles_reachable h"
  shows "\<not> stop_flag h \<and> ingest_runs h \<and> control_runs h \<and> strong_count h = user_handles h + 2"
  using assms
proof induction
  case Created
  show ?case by (simp add: created_handles_def serve_control_def serve_ingest_def clone_handle_def)
next
  case (Later h h')
  from Later(2,3) show ?case
    by cases (auto simp: clone_handle_def drop_handle_def poll_ingest_def poll_control_def)
qed

lemma workers_never_stop_witness:
  "\<exists>h. handles_reachable h \<and> user_handles h = 0 \<and> \<not> stop_flag h \<and> ingest_runs h"
proof -
  let ?h = "(drop_handle created_handles)\<lparr>user_handles := user_handles created_handles - 1\<rparr>"
  have one: "user_handles created_handles = 1"
    by (simp add: created_handles_def serve_control_def serve_ingest_def clone_handle_def)
  then have "handles_reachable ?h"
    by (intro handles_reachable.Later[OF handles_reachable.Created] handle_step.Drop) simp
  with workers_never_stop[OF this] one show ?thesis by (intro exI[of _ ?h]) simp
qed

text \<open>C39: Two publishes that interleave get the same cursor: if both read the next cursor before either has
  appended, both succeed with that cursor, and both broadcast under it; the log stores the second
  message one cursor further, so the second publisher is told the cursor of the first message.\<close>

theorem interleaved_publishes_collide:
  assumes "world_ok W" "world_ok W'" "log_inv (writer own)"
    and "high_cursor (writer own) \<noteq> top_word" "next_cursor (writer own) \<noteq> top_word"
    and "append_commit W own (append_read own) m = (own1, Inr c)"
    and "append_commit W' own1 (append_read own) m' = (own2, Inr c')"
  shows "c' = c \<and> log_get (writer own2) c = Some (m\<lparr>msg_cursor := c\<rparr>) \<and>
    log_get (writer own2) (c + 1) = Some (m'\<lparr>msg_cursor := c + 1\<rparr>)"
proof -
  note a = append_commit_Inr[OF assms(1,6)] and b = append_commit_Inr[OF assms(2,7)]
  have c: "c = high_cursor (writer own) + 1" using a(1) by (simp add: append_read_def next_cursor_def)
  have inv: "log_inv (writer own1)"
    using assms(3,4) unfolding a(2) by (intro apply_log_inv) (simp_all add: log_admissible_def)
  have high: "high_cursor (writer own1) = c" by (simp add: a(2) c next_cursor_def)
  have top: "high_cursor (writer own1) \<noteq> top_word" using assms(5) by (simp add: high c next_cursor_def)
  have "c \<noteq> c + 1" by simp
  then show ?thesis
    using log_get_append[OF inv top, of m'] log_get_append[OF assms(3,4), of m] a(1) b(1)
    by (simp add: b(2) high) (simp add: a(2) c)
qed

lemma interleaved_publishes_collide_witness:
  "\<exists>own1 own2. append_commit (sample_world list_request (bare_request '''')) sample_owner (append_read sample_owner)
       (sample_message_at 1) = (own1, Inr 4) \<and>
     append_commit (sample_world list_request (bare_request '''')) own1 (append_read sample_owner)
       (sample_message_at 2) = (own2, Inr 4) \<and>
     log_get (writer own2) 5 = Some ((sample_message_at 2)\<lparr>msg_cursor := 5\<rparr>)"
proof -
  let ?W = "sample_world list_request (bare_request [])"
  have read: "append_read sample_owner = 4" by (simp add: append_read_def next_cursor_def)
  have commit: "\<exists>own'. append_commit ?W own 4 msg = (own', Inr 4)" for own msg
    by (simp add: append_commit_def sample_world_def Let_def)
  obtain own1 where 1: "append_commit ?W sample_owner (append_read sample_owner) (sample_message_at 1) = (own1, Inr 4)"
    using commit by (auto simp: read)
  obtain own2 where 2: "append_commit ?W own1 (append_read sample_owner) (sample_message_at 2) = (own2, Inr 4)"
    using commit by (auto simp: read)
  have "log_inv (writer sample_owner)" using sample_owner_inv by (simp add: owner_inv_def)
  from interleaved_publishes_collide[OF sample_world_ok sample_world_ok this _ _ 1 2] 1 2
  show ?thesis by (auto simp: next_cursor_def)
qed

end
