(* ===== verification/Traffic.thy ===== *)
theory Traffic
  imports Remote Workers
begin

text \<open>
  The owner under arbitrary traffic.  An event is a message that the polling loops find in the inbox of
  the node, at a time and in a world, or a call of user code; a run is a list of events, in any order,
  from any number of clients, with any message repeated any number of times.
\<close>

section \<open>Events and runs\<close>

datatype (plugins del: "quickcheck") ('i, 'c) event =
    Frame "('i, 'c) world" app_message u64
  | Own_publish "('i, 'c) world" bytes u64
  | Own_publish_with "('i, 'c) world" bytes publish_options u64
  | Own_prune "('i, 'c) world" cursor
  | Own_accept_root "('i, 'c) world" string
  | Own_require bool

type_synonym system = "owner \<times> token_set"

text \<open>One event, with the reply sent; \<open>None\<close> is a handler that does not return.\<close>

fun system_step :: "('i, 'c) event \<Rightarrow> system \<Rightarrow> (system \<times> (u64 \<times> bytes) option) option" where
  "system_step (Frame W m now) st = deliver_message W st m now"
| "system_step (Own_publish W payload now) (own, hs) = Some ((fst (publish W own payload now), hs), None)"
| "system_step (Own_publish_with W payload opts now) (own, hs) =
     Some ((fst (publish_with W own payload opts now), hs), None)"
| "system_step (Own_prune W c) (own, hs) = Some ((fst (prune_to W own c), hs), None)"
| "system_step (Own_accept_root W root) (own, hs) =
     Some ((case accept_root (hexlib W) own root of Inr own1 \<Rightarrow> own1 | Inl _ \<Rightarrow> own, hs), None)"
| "system_step (Own_require yes) (own, hs) = Some ((require_publish_cap own yes, hs), None)"

fun system_run :: "('i, 'c) event list \<Rightarrow> system \<Rightarrow> system option" where
  "system_run [] st = Some st"
| "system_run (e # es) st = (case system_step e st of Some (st1, _) \<Rightarrow> system_run es st1 | None \<Rightarrow> None)"

lemma system_run_append:
  "system_run (es @ es') st = (case system_run es st of Some st1 \<Rightarrow> system_run es' st1 | None \<Rightarrow> None)"
  by (induction es arbitrary: st) (auto split: option.split)

text \<open>A message is served by the worker of its topic alone.\<close>

lemma deliver_control:
  assumes "am_topic m = control_topic (topic_name own)"
  shows "deliver_message W (own, hs) m now = serve_control_message W (own, hs) m now"
  using assms by (auto simp: deliver_message_def serve_ingest_message_def topics_apart[symmetric]
      split: option.split prod.split)

lemma deliver_not_control:
  assumes "am_topic m \<noteq> control_topic (topic_name own)"
  shows "deliver_message W (own, hs) m now =
    (let (own1, r) = serve_ingest_message W own m now in Some ((own1, hs), r))"
proof -
  obtain own1 r where i: "serve_ingest_message W own m now = (own1, r)" by fastforce
  then have "topic_name own1 = topic_name own"
    by (auto simp: serve_ingest_message_def Let_def dest: handle_ingest_frame split: if_splits option.splits prod.splits)
  with assms i show ?thesis by (simp add: deliver_message_def serve_control_message_def)
qed

lemma deliver_elsewhere:
  assumes "am_reply_token m = None \<or>
      am_topic m \<noteq> control_topic (topic_name own) \<and> am_topic m \<noteq> ingest_topic (topic_name own)"
  shows "deliver_message W (own, hs) m now = Some ((own, hs), None)"
  using assms by (auto simp: deliver_message_def serve_ingest_message_def serve_control_message_def
      split: option.split)

text \<open>The handlers leave the identity of the topic and, on the control path, the cache.\<close>

lemma handle_lease_frame:
  assumes "handle_lease W own name mx now = Some (own', reply)"
  shows "dedup own' = dedup own" "topic_name own' = topic_name own" "writer own' = writer own"
    "require_cap own' = require_cap own"
  using assms by (auto simp: handle_lease_def Let_def route_dead_letters_def
      split: if_splits option.splits sum.splits prod.splits)

lemma serve_request_frame:
  assumes "serve_request W own req now = Some (own', reply)"
  shows "dedup own' = dedup own \<and> topic_name own' = topic_name own \<and> writer own' = writer own \<and>
    require_cap own' = require_cap own"
  using assms by (cases req)
    (auto simp: propose_sub_def dest: handle_lease_frame split: if_splits sum.splits prod.splits)

lemma handle_control_frame:
  assumes "handle_control W own payload from now = Some (own', reply)"
  shows "dedup own' = dedup own" "topic_name own' = topic_name own" "writer own' = writer own"
    "require_cap own' = require_cap own"
  using assms by (cases rule: handle_control_cases; auto dest: serve_request_frame)+

section \<open>The turns of the loops as runs\<close>

text \<open>A turn of a polling loop is the run of the messages of its topic, each at the time it is handled.\<close>

abbreviation frames_on :: "string \<Rightarrow> ('i, 'c) world \<Rightarrow> (app_message \<times> u64) list \<Rightarrow> ('i, 'c) event list" where
  "frames_on tp W ms \<equiv> map (\<lambda>(m, now). Frame W m now) (filter (\<lambda>(m, now). am_topic m = tp) ms)"

lemma control_batch_run:
  "map_option fst (control_batch W (own, hs) ms) = system_run (frames_on (control_topic (topic_name own)) W ms) (own, hs)"
proof (induction ms arbitrary: own hs)
  case (Cons p ms)
  obtain m now where p: "p = (m, now)" by fastforce
  show ?case
  proof (cases "am_topic m = control_topic (topic_name own)")
    case True
    have tp: "topic_name own' = topic_name own"
      if "serve_control_message W (own, hs) m now = Some ((own', hs'), r)" for own' hs' r
      using that by (auto simp: serve_control_message_def Let_def dest: handle_control_frame
          split: if_splits option.splits prod.splits)
    show ?thesis
      using True tp Cons.IH
      by (auto simp: p deliver_control option.map_comp comp_def case_prod_unfold split: option.split)
  next
    case False
    then have "serve_control_message W (own, hs) m now = Some ((own, hs), None)"
      by (simp add: serve_control_message_def)
    with False Cons.IH show ?thesis by (simp add: p option.map_comp comp_def case_prod_unfold)
  qed
qed simp

lemma ingest_batch_run:
  "system_run (frames_on (ingest_topic (topic_name own)) W ms) (own, hs) = Some (fst (ingest_batch W own ms), hs)"
proof (induction ms arbitrary: own)
  case (Cons p ms)
  obtain m now where p: "p = (m, now)" by fastforce
  obtain own1 r where i: "serve_ingest_message W own m now = (own1, r)" by fastforce
  show ?case
  proof (cases "am_topic m = ingest_topic (topic_name own)")
    case True
    then have "am_topic m \<noteq> control_topic (topic_name own)" by (simp add: topics_apart)
    moreover have "topic_name own1 = topic_name own"
      using i by (auto simp: serve_ingest_message_def Let_def dest: handle_ingest_frame
          split: if_splits option.splits prod.splits)
    ultimately show ?thesis using True i Cons.IH[of own1]
      by (simp add: p deliver_not_control case_prod_unfold Let_def)
  next
    case False
    with i have "own1 = own" by (simp add: serve_ingest_message_def)
    with False i Cons.IH[of own] show ?thesis by (simp add: p case_prod_unfold Let_def)
  qed
qed simp

end
