(* ===== verification/Redelivery.thy ===== *)
theory Redelivery
  imports Traffic
begin

text \<open>
  Messages that the inbox delivers more than once.  The control worker skips a reply token it has seen,
  the ingest worker answers a key it remembers from the cache; so a run with repetitions ends in the
  state of the run in which each message is delivered the first time only.
\<close>

section \<open>Identities\<close>

text \<open>What the workers tell messages apart by: the reply token on the control path, the de-duplication
  key on the ingest path.\<close>

datatype frame_id = Control_token u64 | Ingest_key string

definition message_id :: "hex_codec \<Rightarrow> json_codec \<Rightarrow> string \<Rightarrow> app_message \<Rightarrow> frame_id option" where
  "message_id hx js tp m =
     (case am_reply_token m of
        None \<Rightarrow> None
      | Some token \<Rightarrow>
          if am_topic m = control_topic tp then Some (Control_token token)
          else if am_topic m = ingest_topic tp then
            (case ingest_decode_hex hx js (am_payload_hex m) of
               Inr req \<Rightarrow> Some (Ingest_key (dedup_key token req))
             | Inl _ \<Rightarrow> None)
          else None)"

fun event_id :: "hex_codec \<Rightarrow> json_codec \<Rightarrow> string \<Rightarrow> ('i, 'c) event \<Rightarrow> frame_id option" where
  "event_id hx js tp (Frame W m now) = message_id hx js tp m"
| "event_id hx js tp _ = None"

definition event_ids :: "hex_codec \<Rightarrow> json_codec \<Rightarrow> string \<Rightarrow> ('i, 'c) event list \<Rightarrow> frame_id set" where
  "event_ids hx js tp es = set (List.map_filter (event_id hx js tp) es)"

text \<open>The run without repetitions; \<open>past\<close> holds the identities delivered before.\<close>

fun first_deliveries :: "('e \<Rightarrow> 'k option) \<Rightarrow> 'k list \<Rightarrow> 'e list \<Rightarrow> 'e list" where
  "first_deliveries ident past [] = []"
| "first_deliveries ident past (e # es) =
     (case ident e of
        None \<Rightarrow> e # first_deliveries ident past es
      | Some k \<Rightarrow>
          if k \<in> set past then first_deliveries ident past es
          else e # first_deliveries ident (k # past) es)"

text \<open>The time limits of both caches, from a first time on.\<close>

definition within_limits :: "system \<Rightarrow> u64 \<Rightarrow> u64 \<Rightarrow> bool" where
  "within_limits st t0 now \<longleftrightarrow> in_window (fst st) t0 now \<and>
     (token_ttl (snd st) = 0 \<or> t0 \<le> now \<and> unat now - unat t0 \<le> unat (token_ttl (snd st)))"

fun event_within :: "hex_codec \<Rightarrow> json_codec \<Rightarrow> system \<Rightarrow> u64 \<Rightarrow> ('i, 'c) event \<Rightarrow> bool" where
  "event_within hx js st t0 (Frame W m now) \<longleftrightarrow> hexlib W = hx \<and> json W = js \<and> within_limits st t0 now"
| "event_within hx js st t0 _ \<longleftrightarrow> True"

fun recorded :: "system \<Rightarrow> frame_id \<Rightarrow> bool" where
  "recorded (own, hs) (Control_token t) \<longleftrightarrow> contains_key (token_map hs) t"
| "recorded (own, hs) (Ingest_key k) \<longleftrightarrow> contains_key (cache_map (dedup own)) k"

definition room_for :: "nat \<Rightarrow> system \<Rightarrow> bool" where
  "room_for n st \<longleftrightarrow> map_len (token_map (snd st)) + n \<le> token_capacity (snd st) \<and>
     map_len (cache_map (dedup (fst st))) + n \<le> cache_capacity (dedup (fst st))"

section \<open>One delivery\<close>

text \<open>The identity is recognized at every time within the limits.\<close>

fun recognized :: "(u64 \<Rightarrow> bool) \<Rightarrow> system \<Rightarrow> frame_id \<Rightarrow> bool" where
  "recognized T (own, hs) (Control_token t) \<longleftrightarrow> (\<forall>now. T now \<longrightarrow> token_seen t now hs = (hs, True))"
| "recognized T (own, hs) (Ingest_key k) \<longleftrightarrow>
     (\<exists>v. \<forall>now. T now \<longrightarrow> cache_get k now (dedup own) = (dedup own, Some v))"

lemma evict_room_none: "map_len m < cap \<Longrightarrow> evict cap m ks = (m, ks)"
  by (cases ks) simp_all

lemma token_seen_new:
  assumes "\<not> contains_key (token_map hs) t" "map_len (token_map hs) < token_capacity hs"
  shows "token_seen t now hs =
    (hs\<lparr>token_map := fmupd t now (token_map hs), token_order := token_order hs @ [t]\<rparr>, False)"
proof -
  have "fmlookup (token_map hs) t = None" "fmdrop t (token_map hs) = token_map hs"
    using assms(1) by (simp_all add: fmdom'_notI fmdom'_notD fmdrop_idle')
  then show ?thesis using assms(2) by (simp add: token_seen_def evict_room_none Let_def)
qed

lemma cache_insert_new:
  assumes "\<not> contains_key (cache_map c) k" "map_len (cache_map c) < cache_capacity c"
  shows "cache_insert k v now c =
    c\<lparr>cache_map := fmupd k (v, now) (cache_map c), cache_order := cache_order c @ [k]\<rparr>"
  using assms by (simp add: cache_insert_def evict_room_none)

text \<open>A repetition changes nothing.\<close>

lemma repeated_step:
  assumes "event_within hx js (own, hs) t0 e" "event_id hx js (topic_name own) e = Some k"
    and "recognized (within_limits (own, hs) t0) (own, hs) k"
  shows "\<exists>r. system_step e (own, hs) = Some ((own, hs), r)"
proof -
  obtain W m now where e: "e = Frame W m now" and W: "hexlib W = hx" "json W = js" "within_limits (own, hs) t0 now"
    using assms(1,2) by (cases e) auto
  with assms(2) obtain token where token: "am_reply_token m = Some token"
    by (auto simp: message_id_def split: option.splits)
  show ?thesis
  proof (cases "am_topic m = control_topic (topic_name own)")
    case True
    with assms(2,3) token W e have "token_seen token now hs = (hs, True)" by (auto simp: message_id_def)
    with True token show ?thesis by (simp add: e deliver_control serve_control_message_def)
  next
    case False
    with assms(2) token obtain req where tp: "am_topic m = ingest_topic (topic_name own)"
      and dec: "ingest_decode_hex hx js (am_payload_hex m) = Inr req" and k: "k = Ingest_key (dedup_key token req)"
      by (auto simp: e message_id_def split: if_splits sum.splits)
    from assms(3) W obtain v where "cache_get (dedup_key token req) now (dedup own) = (dedup own, Some v)"
      by (auto simp: k)
    from handle_ingest_known[OF dec[folded W(1,2)] this] show ?thesis
      by (simp add: e deliver_not_control[OF False] serve_ingest_message_def tp token)
  qed
qed

text \<open>An event without an identity leaves both caches.\<close>

lemma anonymous_step:
  assumes "event_within hx js (own, hs) t0 e" "event_id hx js (topic_name own) e = None"
    and "system_step e (own, hs) = Some ((own', hs'), r)"
  shows "hs' = hs \<and> dedup own' = dedup own \<and> topic_name own' = topic_name own"
proof (cases e)
  case (Frame W m now)
  then have W: "hexlib W = hx" "json W = js" using assms(1) by simp_all
  show ?thesis
  proof (cases "am_topic m = control_topic (topic_name own)")
    case True
    with assms(2) Frame have "am_reply_token m = None" by (auto simp: message_id_def split: option.splits)
    with assms(3) Frame show ?thesis by (simp add: deliver_elsewhere)
  next
    case False
    obtain own1 q where i: "serve_ingest_message W own m now = (own1, q)" by fastforce
    with assms(3) Frame False have st: "own' = own1" "hs' = hs" by (simp_all add: deliver_not_control)
    have "own1 = own"
    proof (cases "am_topic m = ingest_topic (topic_name own)")
      case True
      then show ?thesis
        using i assms(2) False W
        by (auto simp: Frame message_id_def serve_ingest_message_def handle_ingest_def split: option.splits sum.splits)
    qed (use i in \<open>simp add: serve_ingest_message_def\<close>)
    with st show ?thesis by simp
  qed
next
  case (Own_publish W payload now)
  then show ?thesis
    using assms(3) append_and_fanout_frame[OF surjective_pairing]
    by (auto simp: publish_def split: sum.splits)
next
  case (Own_publish_with W payload opts now)
  then show ?thesis
    using assms(3) append_and_fanout_frame[OF surjective_pairing]
    by (auto simp: publish_with_def Let_def split: sum.splits)
next
  case (Own_prune W c)
  with assms(3) show ?thesis by (auto simp: prune_to_def split: prod.splits)
next
  case (Own_accept_root W root)
  with assms(3) show ?thesis by (auto simp: accept_root_def result_simps split: sum.splits if_splits)
qed (use assms(3) in \<open>auto simp: require_publish_cap_def\<close>)

text \<open>What a new identity leaves in the caches.\<close>

fun remembered_by :: "u64 \<Rightarrow> frame_id \<Rightarrow> system \<Rightarrow> system \<Rightarrow> bool" where
  "remembered_by now (Control_token t) (own, hs) (own', hs') \<longleftrightarrow> dedup own' = dedup own \<and>
     token_map hs' = fmupd t now (token_map hs) \<and> token_ttl hs' = token_ttl hs \<and> token_capacity hs' = token_capacity hs"
| "remembered_by now (Ingest_key k) (own, hs) (own', hs') \<longleftrightarrow> hs' = hs \<and>
     (\<exists>v. cache_map (dedup own') = fmupd k (v, now) (cache_map (dedup own))) \<and>
     cache_ttl (dedup own') = cache_ttl (dedup own) \<and> cache_capacity (dedup own') = cache_capacity (dedup own)"

lemma first_step:
  assumes "event_within hx js (own, hs) t0 e" "event_id hx js (topic_name own) e = Some k"
    and "\<not> recorded (own, hs) k" "room_for 1 (own, hs)"
    and "system_step e (own, hs) = Some ((own', hs'), r)"
  shows "topic_name own' = topic_name own \<and>
    (\<exists>now. within_limits (own, hs) t0 now \<and> remembered_by now k (own, hs) (own', hs'))"
proof -
  obtain W m now where e: "e = Frame W m now" and W: "hexlib W = hx" "json W = js" "within_limits (own, hs) t0 now"
    using assms(1,2) by (cases e) auto
  with assms(2) obtain token where token: "am_reply_token m = Some token"
    by (auto simp: message_id_def split: option.splits)
  have "topic_name own' = topic_name own \<and> remembered_by now k (own, hs) (own', hs')"
  proof (cases "am_topic m = control_topic (topic_name own)")
    case True
    with assms(2) token e have k: "k = Control_token token" by (simp add: message_id_def)
    have "token_seen token now hs =
        (hs\<lparr>token_map := fmupd token now (token_map hs), token_order := token_order hs @ [token]\<rparr>, False)"
      using assms(3,4) by (intro token_seen_new) (simp_all add: k room_for_def)
    with assms(5) True token show ?thesis
      by (auto simp: k e deliver_control serve_control_message_def dest: handle_control_frame split: option.splits)
  next
    case False
    with assms(2) token obtain req where tp: "am_topic m = ingest_topic (topic_name own)"
      and dec: "ingest_decode_hex (hexlib W) (json W) (am_payload_hex m) = Inr req"
      and k: "k = Ingest_key (dedup_key token req)"
      using W by (auto simp: e message_id_def split: if_splits sum.splits)
    obtain rep where h: "handle_ingest W own token (am_payload_hex m) (am_from m) now = (own', rep)" and "hs' = hs"
      using assms(5) by (auto simp: e deliver_not_control[OF False] serve_ingest_message_def tp token Let_def
          split: prod.splits)
    have new: "fmlookup (cache_map (dedup own)) (dedup_key token req) = None"
      using assms(3) by (simp add: k fmdom'_notD)
    then have "cache_get (dedup_key token req) now (dedup own) = (dedup own, None)"
      by (simp add: cache_get_def)
    then obtain own2 out where a: "apply_ingest W own req (am_from m) now = (own2, out)"
      and own': "own' = own2\<lparr>dedup := cache_insert (dedup_key token req)
        (case out of Inr c \<Rightarrow> Seen_cursor c | Inl _ \<Rightarrow> Seen_handled) now (dedup own2)\<rparr>"
      by (rule handle_ingest_fresh[OF dec _ h]) simp
    from apply_ingest_dedup[OF a] apply_ingest_frame[OF a] assms(3,4) \<open>hs' = hs\<close> show ?thesis
      by (auto simp: own' k room_for_def cache_insert_new)
  qed
  with W(3) show ?thesis by blast
qed

lemma token_seen_True: "token_seen t now hs = (hs, True) \<longleftrightarrow>
    (\<exists>at. fmlookup (token_map hs) t = Some at \<and> (token_ttl hs = 0 \<or> sat_sub now at \<le> token_ttl hs))"
  by (auto simp: token_seen_def Let_def split: option.splits prod.splits)

lemma cache_get_Some: "cache_get k now c = (c, Some v) \<longleftrightarrow>
    (\<exists>at. fmlookup (cache_map c) k = Some (v, at) \<and> cache_live c at now)"
  by (auto simp: cache_get_def cache_live_def split: option.splits)

text \<open>After a first delivery the identity is recognized, and what was recognized before still is.\<close>

lemma remembered_recognized:
  assumes "remembered_by now k st st'" "within_limits st t0 now"
  shows "recognized (within_limits st t0) st' k"
    and "j \<noteq> k \<Longrightarrow> recognized T st' j = recognized T st j"
    and "recorded st' j \<longleftrightarrow> j = k \<or> recorded st j"
    and "within_limits st' = within_limits st"
    and "room_for (Suc n) st \<Longrightarrow> room_for n st'"
proof -
  obtain own hs own' hs' where st: "st = (own, hs)" "st' = (own', hs')" by (cases st; cases st')
  show "recognized (within_limits st t0) st' k"
  proof (cases k)
    case (Ingest_key key)
    then obtain v where "cache_map (dedup own') = fmupd key (v, now) (cache_map (dedup own))"
      "cache_ttl (dedup own') = cache_ttl (dedup own)"
      using assms(1) by (auto simp: st)
    then have "cache_get key later (dedup own') = (dedup own', Some v)" if "within_limits st t0 later" for later
      using assms(2) that in_window_live by (auto simp: st cache_get_Some within_limits_def cache_live_def)
    then show ?thesis unfolding st Ingest_key recognized.simps by blast
  qed (use assms in \<open>auto simp: st token_seen_True within_limits_def word_le_nat_alt unat_sat_sub\<close>)
  show "j \<noteq> k \<Longrightarrow> recognized T st' j = recognized T st j"
    using assms(1) by (cases k; cases j) (clarsimp simp: st token_seen_True cache_get_Some cache_live_def)+
  show "recorded st' j \<longleftrightarrow> j = k \<or> recorded st j"
    using assms(1) by (cases k; cases j) (auto simp: st)
  show "within_limits st' = within_limits st"
    using assms(1) by (cases k) (auto simp: st within_limits_def in_window_def fun_eq_iff)
  show "room_for (Suc n) st \<Longrightarrow> room_for n st'"
    using assms(1) by (cases k) (auto simp: st room_for_def map_len_upd)
qed

section \<open>Runs\<close>

lemma event_within_cong: "within_limits st' = within_limits st \<Longrightarrow> event_within hx js st' t0 e = event_within hx js st t0 e"
  by (cases e) simp_all

lemma event_ids_Cons: "event_ids hx js tp (e # es) =
    (case event_id hx js tp e of Some k \<Rightarrow> insert k (event_ids hx js tp es) | None \<Rightarrow> event_ids hx js tp es)"
  by (simp add: event_ids_def List.map_filter_simps split: option.split)

lemma finite_event_ids [simp]: "finite (event_ids hx js tp es)"
  by (simp add: event_ids_def)

text \<open>Events that leave the caches leave all that is said about them.\<close>

lemma recognized_frame:
  assumes "dedup own' = dedup own"
  shows "recognized T (own', hs) = recognized T (own, hs)" "recorded (own', hs) = recorded (own, hs)"
    "within_limits (own', hs) = within_limits (own, hs)" "room_for n (own', hs) = room_for n (own, hs)"
proof -
  show "recognized T (own', hs) = recognized T (own, hs)" "recorded (own', hs) = recorded (own, hs)"
    by (rule ext; rename_tac k; case_tac k; simp add: assms)+
qed (simp_all add: within_limits_def in_window_def room_for_def assms fun_eq_iff)

text \<open>The identities of the past are recognized, the others still to come are new and fit into the caches.\<close>

definition tracked ::
  "hex_codec \<Rightarrow> json_codec \<Rightarrow> string \<Rightarrow> u64 \<Rightarrow> frame_id set \<Rightarrow> ('i, 'c) event list \<Rightarrow> system \<Rightarrow> bool" where
  "tracked hx js tp t0 past es st \<longleftrightarrow> (\<forall>e \<in> set es. event_within hx js st t0 e) \<and> topic_name (fst st) = tp \<and>
     (\<forall>k \<in> past. recognized (within_limits st t0) st k) \<and>
     (\<forall>k \<in> event_ids hx js tp es - past. \<not> recorded st k) \<and>
     room_for (card (event_ids hx js tp es - past)) st"

lemma tracked_frame:
  assumes "tracked hx js tp t0 past (e # es) (own, hs)" "event_ids hx js tp (e # es) - past = event_ids hx js tp es - past"
    and "dedup own' = dedup own" "topic_name own' = topic_name own"
  shows "tracked hx js tp t0 past es (own', hs)"
  using assms unfolding tracked_def assms(2)
  by (simp add: recognized_frame[OF assms(3)] event_within_cong[OF recognized_frame(3)[OF assms(3)]])

lemma tracked_known:
  assumes "tracked hx js tp t0 past (e # es) st" "event_id hx js tp e = Some k" "k \<in> past"
  shows "tracked hx js tp t0 past es st \<and> (\<exists>r. system_step e st = Some (st, r))"
proof -
  obtain own hs where st: "st = (own, hs)" by fastforce
  have "event_ids hx js tp (e # es) - past = event_ids hx js tp es - past"
    using assms(2,3) by (auto simp: event_ids_Cons)
  from tracked_frame[OF assms(1)[unfolded st] this refl refl] assms st show ?thesis
    using repeated_step[of hx js own hs t0 e k] by (simp add: tracked_def)
qed

lemma tracked_new:
  assumes "tracked hx js tp t0 past (e # es) (own, hs)" "event_id hx js tp e = Some k" "k \<notin> past"
    and "system_step e (own, hs) = Some ((own', hs'), r)"
  shows "tracked hx js tp t0 (insert k past) es (own', hs') \<and>
    (\<exists>now. within_limits (own, hs) t0 now \<and> remembered_by now k (own, hs) (own', hs'))"
proof -
  let ?n = "card (event_ids hx js tp es - insert k past)"
  have ids: "event_ids hx js tp (e # es) - past = insert k (event_ids hx js tp es - insert k past)"
    using assms(2,3) by (auto simp: event_ids_Cons)
  note T = assms(1)[unfolded tracked_def ids]
  have room: "room_for (Suc ?n) (own, hs)" and tp: "topic_name own = tp" using T by simp_all
  have new: "\<not> recorded (own, hs) k" using T by blast
  have "room_for 1 (own, hs)" using room by (simp add: room_for_def)
  from first_step[OF _ _ new this assms(4), of hx js t0] T assms(2) obtain now where tp': "topic_name own' = tp"
    and w: "within_limits (own, hs) t0 now" and rem: "remembered_by now k (own, hs) (own', hs')"
    by auto
  note R = remembered_recognized[OF rem w]
  have "recognized (within_limits (own', hs') t0) (own', hs') j" if "j \<in> insert k past" for j
    unfolding R(4) using that T R(1) R(2)[of j "within_limits (own, hs) t0"] by auto
  moreover have "\<not> recorded (own', hs') j" if "j \<in> event_ids hx js tp es - insert k past" for j
    using that T R(3) by blast
  ultimately have "tracked hx js tp t0 (insert k past) es (own', hs')"
    using T tp' R(5)[OF room] by (simp add: tracked_def event_within_cong[OF R(4)])
  with w rem show ?thesis by blast
qed

lemma tracked_anonymous:
  assumes "tracked hx js tp t0 past (e # es) (own, hs)" "event_id hx js tp e = None"
    and "system_step e (own, hs) = Some ((own', hs'), r)"
  shows "tracked hx js tp t0 past es (own', hs') \<and> hs' = hs \<and> dedup own' = dedup own"
proof -
  from anonymous_step[OF _ _ assms(3), of hx js t0] assms(1,2)
  have "hs' = hs" "dedup own' = dedup own" "topic_name own' = topic_name own" by (simp_all add: tracked_def)
  moreover have "event_ids hx js tp (e # es) - past = event_ids hx js tp es - past"
    using assms(2) by (simp add: event_ids_Cons)
  ultimately show ?thesis using tracked_frame[OF assms(1)] by simp
qed

lemma run_first_deliveries:
  assumes "tracked hx js tp t0 (set past) es st"
  shows "system_run es st = system_run (first_deliveries (event_id hx js tp) past es) st"
  using assms
proof (induction es arbitrary: st past)
  case (Cons e es)
  obtain own hs where st: "st = (own, hs)" by fastforce
  show ?case
  proof (cases "event_id hx js tp e")
    case None
    have "system_run es (own', hs') = system_run (first_deliveries (event_id hx js tp) past es) (own', hs')"
      if "system_step e (own, hs) = Some ((own', hs'), r)" for own' hs' r
      using tracked_anonymous[OF Cons.prems[unfolded st] None that] by (intro Cons.IH) blast
    then show ?thesis by (auto simp: None st split: option.split)
  next
    case (Some k)
    show ?thesis
    proof (cases "k \<in> set past")
      case True
      from tracked_known[OF Cons.prems Some this] Cons.IH[of past st] show ?thesis by (auto simp: Some True)
    next
      case False
      have "system_run es (own', hs') = system_run (first_deliveries (event_id hx js tp) (k # past) es) (own', hs')"
        if "system_step e (own, hs) = Some ((own', hs'), r)" for own' hs' r
        using tracked_new[OF Cons.prems[unfolded st] Some False that] by (intro Cons.IH) simp
      then show ?thesis by (auto simp: Some False st split: option.split)
    qed
  qed
qed simp

text \<open>The outcome recorded for a key that was delivered stays what it is.\<close>

lemma run_keeps_outcome:
  assumes "tracked hx js tp t0 past es (own, hs)" "Ingest_key key \<in> past" "system_run es (own, hs) = Some (own', hs')"
  shows "fmlookup (cache_map (dedup own')) key = fmlookup (cache_map (dedup own)) key \<and>
    cache_ttl (dedup own') = cache_ttl (dedup own) \<and> topic_name own' = topic_name own"
  using assms
proof (induction es arbitrary: own hs past)
  case (Cons e es)
  obtain own1 hs1 r where step: "system_step e (own, hs) = Some ((own1, hs1), r)"
    and run: "system_run es (own1, hs1) = Some (own', hs')"
    using Cons.prems(3) by (auto split: option.splits)
  have tp: "topic_name own = tp" using Cons.prems(1) by (simp add: tracked_def)
  show ?case
  proof (cases "event_id hx js tp e")
    case None
    from tracked_anonymous[OF Cons.prems(1) None step] Cons.IH[OF _ Cons.prems(2) run] tp show ?thesis
      by (auto simp: tracked_def)
  next
    case (Some k)
    show ?thesis
    proof (cases "k \<in> past")
      case True
      with tracked_known[OF Cons.prems(1) Some True] step Cons.IH[OF _ Cons.prems(2) run] show ?thesis by auto
    next
      case False
      from tracked_new[OF Cons.prems(1) Some False step] obtain now
        where t: "tracked hx js tp t0 (insert k past) es (own1, hs1)" and rem: "remembered_by now k (own, hs) (own1, hs1)"
        by blast
      have "k \<noteq> Ingest_key key" using False Cons.prems(2) by auto
      with rem have "fmlookup (cache_map (dedup own1)) key = fmlookup (cache_map (dedup own)) key"
        "cache_ttl (dedup own1) = cache_ttl (dedup own)"
        by (cases k; auto)+
      with Cons.IH[OF t _ run] Cons.prems(2) t tp show ?thesis by (simp add: tracked_def)
    qed
  qed
qed simp

text \<open>A run that follows the first handling of a request keeps answering for its key.\<close>

lemma handle_ingest_remembers:
  assumes "ingest_decode_hex (hexlib W) (json W) payload = Inr req"
    and "\<not> recorded (own, hs) (Ingest_key (dedup_key token req))" "room_for 1 (own, hs)"
    and "handle_ingest W own token payload from now = (own', Some reply)"
  shows "remembered_by now (Ingest_key (dedup_key token req)) (own, hs) (own', hs) \<and> topic_name own' = topic_name own \<and>
    (\<exists>v. fmlookup (cache_map (dedup own')) (dedup_key token req) = Some (v, now) \<and>
      (case v of Seen_cursor c \<Rightarrow> Accepted c | Seen_handled \<Rightarrow> Ingest_rejected Duplicate_request) =
      (case reply of Accepted c \<Rightarrow> Accepted c | Ingest_rejected _ \<Rightarrow> Ingest_rejected Duplicate_request))"
proof -
  let ?key = "dedup_key token req"
  have "fmlookup (cache_map (dedup own)) ?key = None" using assms(2) by (simp add: fmdom'_notD)
  then have g: "cache_get ?key now (dedup own) = (dedup own, None)" by (simp add: cache_get_def)
  obtain own2 out where a: "apply_ingest W own req from now = (own2, out)"
    and rep: "Some reply = Some (case out of Inr c \<Rightarrow> Accepted c | Inl why \<Rightarrow> Ingest_rejected why)"
    and own': "own' = own2\<lparr>dedup := cache_insert ?key
      (case out of Inr c \<Rightarrow> Seen_cursor c | Inl _ \<Rightarrow> Seen_handled) now (dedup own2)\<rparr>"
    by (rule handle_ingest_fresh[OF assms(1) g assms(4)]) simp
  from apply_ingest_dedup[OF a] apply_ingest_frame[OF a] assms(2,3) rep show ?thesis
    by (cases out) (auto simp: own' room_for_def cache_insert_new)
qed

section \<open>Properties\<close>


definition publish_frame :: "u64 \<Rightarrow> app_message" where
  "publish_frame token = request_message letter_hex ''p'' (ingest_topic ''orders'') [] token"

definition ack_frame :: "u64 \<Rightarrow> app_message" where
  "ack_frame token = request_message letter_hex ''c'' (control_topic ''orders'') [] token"

lemma two_limits:
  assumes "100 \<le> now" "now \<le> 140"
  shows "within_limits (sample_owner, new_token_set 10 60) 100 now"
proof -
  have "unat now - 100 \<le> 60" using assms by (simp add: word_le_nat_alt)
  with assms(1) show ?thesis
    by (simp add: within_limits_def in_window_def new_cache_def DEDUP_TTL_SECS_def new_token_set_def)
qed



lemma ack_frame_id: "event_id letter_hex two_json ''orders'' (Frame W (ack_frame t) now) = Some (Control_token t)"
  by (simp add: message_id_def ack_frame_def request_message_def)


end
