(* ===== verification/Traffic_Safety.thy ===== *)
theory Traffic_Safety
  imports Redelivery
begin

text \<open>
  What holds of the subscriptions of a topic under arbitrary traffic: which message of which requester
  can make a cursor handled, and that consumers who lease at the same time get different messages.
\<close>

section \<open>What a message does to the registry\<close>

text \<open>The message is a control request that the owner decodes and admits.\<close>

definition admitted :: "('i, 'c) world \<Rightarrow> owner \<Rightarrow> app_message \<Rightarrow> u64 \<Rightarrow> control_request \<Rightarrow> bool" where
  "admitted W own m now req \<longleftrightarrow> am_topic m = control_topic (topic_name own) \<and>
     and_then (hex_decode (hexlib W) (am_payload_hex m)) (control_decode (json W)) = Inr req \<and>
     control_gate W own req (am_from m) now = Inr ()"

text \<open>The operation that a served request proposes.\<close>

definition proposes :: "owner \<Rightarrow> control_request \<Rightarrow> u64 \<Rightarrow> sub_op \<Rightarrow> bool" where
  "proposes own req now x \<longleftrightarrow> request_op req = Some x \<or>
     (\<exists>name mx grant out. req = Pull name mx grant \<and>
       plan_lease (own_subs own) name (high_cursor (writer own)) (log_floor (writer own)) now mx = Some (Some (x, out)))"

lemma handle_lease_proposes:
  assumes "world_ok W" "handle_lease W own name mx now = Some (own', reply)"
  shows "own_subs own' = own_subs own \<or>
    (\<exists>x. proposes own (Pull name mx grant) now x \<and> own_subs own' = apply_sub (own_subs own) x)"
proof (cases "plan_lease (own_subs own) name (high_cursor (writer own)) (log_floor (writer own)) now mx")
  case (Some plan)
  show ?thesis
  proof (cases plan)
    case (Some xo)
    then obtain x out where plan: "plan_lease (own_subs own) name (high_cursor (writer own))
        (log_floor (writer own)) now mx = Some (Some (x, out))"
      using \<open>plan_lease _ _ _ _ _ _ = Some plan\<close> by (cases xo) simp
    obtain r res where p: "subs_propose W (own_subs own) x = (r, res)" by fastforce
    have "own_subs own' = r \<or> own_subs own' = own_subs own"
      using assms(2) plan p by (auto simp: handle_lease_def Let_def split: sum.splits if_splits)
    then show ?thesis
      using propose_contractD(2)[OF world_okD(3)[OF assms(1)] p] plan by (auto simp: proposes_def)
  qed (use assms(2) \<open>plan_lease _ _ _ _ _ _ = Some plan\<close> in \<open>auto simp: handle_lease_def Let_def split: if_splits\<close>)
qed (use assms(2) in \<open>auto simp: handle_lease_def Let_def split: if_splits\<close>)

lemma propose_sub_proposes:
  assumes "world_ok W" "propose_sub W own failed x = (own', reply)"
  shows "own_subs own' = own_subs own \<or> own_subs own' = apply_sub (own_subs own) x"
proof -
  obtain r res where p: "subs_propose W (own_subs own) x = (r, res)" by fastforce
  with assms(2) have "own_subs own' = r" by (auto simp: propose_sub_def)
  with propose_contractD(2)[OF world_okD(3)[OF assms(1)] p] show ?thesis by auto
qed

lemma serve_request_proposes:
  assumes "world_ok W" "serve_request W own req now = Some (own', reply)"
  shows "own_subs own' = own_subs own \<or> (\<exists>x. proposes own req now x \<and> own_subs own' = apply_sub (own_subs own) x)"
proof (cases req)
  case (Pull name mx grant)
  with assms handle_lease_proposes[of W own name mx now own' reply grant] show ?thesis by simp
qed (use assms propose_sub_proposes[OF assms(1)] in
    \<open>fastforce simp: proposes_def split: sum.splits if_splits\<close>)+

fun event_ok :: "('i, 'c) event \<Rightarrow> bool" where
  "event_ok (Frame W m now) \<longleftrightarrow> world_ok W"
| "event_ok (Own_publish W payload now) \<longleftrightarrow> world_ok W"
| "event_ok (Own_publish_with W payload opts now) \<longleftrightarrow> world_ok W"
| "event_ok (Own_prune W c) \<longleftrightarrow> world_ok W"
| "event_ok (Own_accept_root W root) \<longleftrightarrow> world_ok W"
| "event_ok (Own_require yes) \<longleftrightarrow> True"

text \<open>A message reaches at most one handler.\<close>

lemma frame_cases:
  assumes "system_step (Frame W m now) (own, hs) = Some ((own', hs'), r)"
  obtains (Skipped) "own' = own"
  | (Ingested) token rep where "handle_ingest W own token (am_payload_hex m) (am_from m) now = (own', rep)" "hs' = hs"
  | (Controlled) rep where "am_topic m = control_topic (topic_name own)"
      "handle_control W own (am_payload_hex m) (am_from m) now = Some (own', rep)"
proof (cases "am_topic m = control_topic (topic_name own)")
  case True
  then show thesis
    using assms Skipped Controlled
    by (auto simp: deliver_control serve_control_message_def Let_def split: option.splits prod.splits if_splits)
next
  case False
  then show thesis
    using assms Skipped Ingested
    by (auto simp: deliver_not_control serve_ingest_message_def Let_def split: option.splits prod.splits if_splits)
qed

lemma system_step_subs:
  assumes "event_ok e" "system_step e (own, hs) = Some ((own', hs'), r)" "own_subs own' \<noteq> own_subs own"
  shows "\<exists>W m now req x. e = Frame W m now \<and> admitted W own m now req \<and> proposes own req now x \<and>
    own_subs own' = apply_sub (own_subs own) x"
proof (cases e)
  case (Frame W m now)
  from assms(2)[unfolded Frame] show ?thesis
  proof (cases rule: frame_cases)
    case (Controlled rep)
    from Controlled(2) show ?thesis
    proof (cases rule: handle_control_cases)
      case (Served bs req)
      with serve_request_proposes[of W own req now own' rep] assms(1,3) Controlled(1) show ?thesis
        by (fastforce simp: Frame admitted_def)
    qed (use assms(3) in simp)
  qed (use assms(3) in \<open>auto dest: handle_ingest_subs\<close>)
next
  case (Own_publish W payload now)
  then show ?thesis
    using assms(2,3) append_and_fanout_frame(1)[OF surjective_pairing] by (auto simp: publish_def split: sum.splits)
next
  case (Own_publish_with W payload opts now)
  then show ?thesis
    using assms(2,3) append_and_fanout_frame(1)[OF surjective_pairing]
    by (auto simp: publish_with_def Let_def split: sum.splits)
next
  case (Own_prune W c)
  with assms(2,3) show ?thesis by (auto simp: prune_to_def split: prod.splits)
next
  case (Own_accept_root W root)
  with assms(2,3) show ?thesis by (auto simp: accept_root_def result_simps split: sum.splits if_splits)
qed (use assms(2,3) in \<open>auto simp: require_publish_cap_def\<close>)

section \<open>The invariant along a run\<close>

text \<open>The range of cursors is not used up at any point of the run.\<close>

fun roomy :: "('i, 'c) event list \<Rightarrow> system \<Rightarrow> bool" where
  "roomy [] st \<longleftrightarrow> cursor_room (fst st)"
| "roomy (e # es) st \<longleftrightarrow> cursor_room (fst st) \<and>
     (case system_step e st of Some (st1, _) \<Rightarrow> roomy es st1 | None \<Rightarrow> True)"

lemma roomy_cursor_room: "roomy es st \<Longrightarrow> cursor_room (fst st)"
  by (cases es) simp_all

text \<open>Every event is a step of the owner.\<close>

lemma system_step_owner:
  fixes e :: "('i, 'c) event"
  assumes "event_ok e" "system_step e (own, hs) = Some ((own', hs'), r)"
  shows "own' = own \<or> owner_step {W :: ('i, 'c) world. world_ok W} own own'"
proof (cases e)
  case (Frame W m now)
  from assms(2)[unfolded Frame] show ?thesis
  proof (cases rule: frame_cases)
    case (Ingested token rep)
    with assms(1) Frame show ?thesis by (intro disjI2 owner_step.Ingest[OF _ Ingested(1)]) simp_all
  next
    case (Controlled rep)
    with assms(1) Frame show ?thesis by (intro disjI2 owner_step.Control[OF _ Controlled(2)]) simp_all
  qed simp
next
  case (Own_publish W payload now)
  with assms show ?thesis by (auto intro!: owner_step.Publish[of W] surjective_pairing)
next
  case (Own_publish_with W payload opts now)
  with assms show ?thesis by (auto intro!: owner_step.Publish_with[of W] surjective_pairing)
next
  case (Own_prune W c)
  with assms show ?thesis by (auto intro!: owner_step.Prune[of W] surjective_pairing)
next
  case (Own_accept_root W root)
  with assms show ?thesis by (auto intro: owner_step.Accept_root[of W] split: sum.splits)
next
  case (Own_require yes)
  with assms(2) show ?thesis by (auto intro: owner_step.Require_cap)
qed

lemma log_floor_progress:
  assumes "log_progress w w'" "log_inv w" "high_cursor w \<noteq> top_word"
  shows "log_floor w \<le> log_floor w'"
  using assms log_retention.apply_mono[OF assms(2)]
  by (auto simp: log_progress_def log_admissible_def next_cursor_def)

lemma system_step_inv:
  fixes e :: "('i, 'c) event"
  assumes "event_ok e" "owner_inv own" "cursor_room own" "system_step e (own, hs) = Some ((own', hs'), r)"
  shows "owner_inv own'" "log_floor (writer own) \<le> log_floor (writer own')"
proof -
  consider "own' = own" | "owner_step {W :: ('i, 'c) world. world_ok W} own own'"
    using system_step_owner[OF assms(1,4)] by blast
  then have "owner_inv own' \<and> log_floor (writer own) \<le> log_floor (writer own')"
  proof cases
    case 2
    have W: "\<forall>W \<in> {W :: ('i, 'c) world. world_ok W}. world_ok W" by simp
    have "log_progress (writer own) (writer own')" using owner_step_progress[OF W assms(2,3) 2] by blast
    from log_floor_progress[OF this owner_invD(1)[OF assms(2)]] owner_inv_step[OF W assms(2,3) 2] assms(3)
    show ?thesis by (simp add: cursor_room_def)
  qed (use assms(2) in simp)
  then show "owner_inv own'" "log_floor (writer own) \<le> log_floor (writer own')" by simp_all
qed

text \<open>What every event keeps from an owner that meets its invariant holds after the run.\<close>

lemma run_invariant:
  assumes "system_run es st = Some st'" "\<forall>e \<in> set es. event_ok e" "roomy es st" "owner_inv (fst st)" "Q st"
    and "\<And>e own hs own' hs' r. e \<in> set es \<Longrightarrow> event_ok e \<Longrightarrow> owner_inv own \<Longrightarrow> cursor_room own \<Longrightarrow>
      system_step e (own, hs) = Some ((own', hs'), r) \<Longrightarrow> Q (own, hs) \<Longrightarrow> Q (own', hs')"
  shows "Q st' \<and> owner_inv (fst st') \<and> cursor_room (fst st')"
  using assms
proof (induction es arbitrary: st)
  case (Cons e es)
  obtain own hs where st: "st = (own, hs)" by fastforce
  from Cons.prems(1) obtain own1 hs1 r where step: "system_step e (own, hs) = Some ((own1, hs1), r)"
    and run: "system_run es (own1, hs1) = Some st'"
    by (auto simp: st split: option.splits)
  have own: "event_ok e" "owner_inv own" "cursor_room own" using Cons.prems(2-4) by (simp_all add: st)
  show ?case
  proof (rule Cons.IH[OF run])
    show "roomy es (own1, hs1)" using Cons.prems(3) step by (simp add: st)
    show "owner_inv (fst (own1, hs1))" using system_step_inv(1)[OF own step] by simp
    show "Q (own1, hs1)" using Cons.prems(6)[OF _ own step] Cons.prems(5) by (simp add: st)
    show "Q (own', hs')" if "e' \<in> set es" "event_ok e'" "owner_inv own" "cursor_room own"
      "system_step e' (own, hs) = Some ((own', hs'), r)" "Q (own, hs)" for e' own hs own' hs' r
      using Cons.prems(6)[OF _ that(2-)] that(1) by simp
  qed (use Cons.prems(2) in simp)
qed simp

lemma run_inv:
  assumes "system_run es (own, hs) = Some (own', hs')" "\<forall>e \<in> set es. event_ok e" "roomy es (own, hs)" "owner_inv own"
  shows "owner_inv own'" "cursor_room own'" "log_floor (writer own) \<le> log_floor (writer own')"
proof -
  let ?Q = "\<lambda>st. log_floor (writer own) \<le> log_floor (writer (fst st))"
  have "?Q (own', hs') \<and> owner_inv (fst (own', hs')) \<and> cursor_room (fst (own', hs'))"
  proof (rule run_invariant[OF assms(1-3), where Q = ?Q])
    show "?Q (own2, hs2)" if "event_ok e" "owner_inv own1" "cursor_room own1"
      "system_step e (own1, hs1) = Some ((own2, hs2), r)" "?Q (own1, hs1)" for e own1 hs1 own2 hs2 r
      using system_step_inv(2)[OF that(1-4)] that(5) by simp
  qed (use assms(4) in simp_all)
  then show "owner_inv own'" "cursor_room own'" "log_floor (writer own) \<le> log_floor (writer own')" by simp_all
qed

section \<open>No message is lost silently\<close>

lemma proposes_planned:
  assumes "owner_inv own" "cursor_room own" "proposes own req now x"
  shows "lease_planned (log_floor (writer own)) (own_subs own) x"
  using assms(3) unfolding proposes_def
proof (elim disjE exE conjE)
  assume "request_op req = Some x"
  then show ?thesis by (cases req) (auto simp: lease_planned_def)
next
  fix name mx grant out
  assume plan: "plan_lease (own_subs own) name (high_cursor (writer own)) (log_floor (writer own)) now mx =
      Some (Some (x, out))"
  then obtain s where "reg_get (own_subs own) name = Some s" by (auto simp: plan_lease_def split: option.splits)
  from owner_lease_request[OF assms(1,2) this]
  have "lease_request (log_floor (writer own)) (own_subs own) name s (high_cursor (writer own)) (log_floor (writer own))"
    by (simp add: lease_request_def)
  from lease_planned_intro[OF this plan] show ?thesis .
qed

text \<open>What accounts for a cursor that is handled: its ack, or a lease that dead-letters it.\<close>

definition accounts_for :: "owner \<Rightarrow> string \<Rightarrow> cursor \<Rightarrow> u64 \<Rightarrow> control_request \<Rightarrow> bool" where
  "accounts_for own n c now req \<longleftrightarrow> (\<exists>grant. req = AckCursor n c grant) \<or>
     (\<exists>mx grant x out s. req = Pull n mx grant \<and> reg_get (own_subs own) n = Some s \<and> exhausted s c \<and>
       plan_lease (own_subs own) n (high_cursor (writer own)) (log_floor (writer own)) now mx = Some (Some (x, out)) \<and>
       c \<in> set (dead_lettered out))"

lemma proposes_accounts:
  assumes "owner_inv own" "cursor_room own" "proposes own req now x" "log_floor (writer own) < c"
    and "c \<in> handled_in n (apply_sub (own_subs own) x)" "c \<notin> handled_in n (own_subs own)"
  shows "accounts_for own n c now req"
  using newly_handled[OF owner_invD(2)[OF assms(1)] proposes_planned[OF assms(1-3)] assms(4-6)]
proof (elim disjE exE conjE)
  assume "x = Ack n c"
  with assms(3) consider "request_op req = Some (Ack n c)"
    | name mx out where "plan_lease (own_subs own) name (high_cursor (writer own)) (log_floor (writer own)) now mx =
        Some (Some (Ack n c, out))"
    unfolding proposes_def by blast
  then show ?thesis
  proof cases
    case 1
    then show ?thesis by (cases req) (auto simp: accounts_for_def)
  next
    case (2 name mx out)
    then show ?thesis by (auto simp: plan_lease_def Let_def split: option.splits if_splits bind_splits)
  qed
next
  fix s ls dd na
  assume x: "x = ApplyLease n ls dd na" and c: "c \<in> set dd" "reg_get (own_subs own) n = Some s" "exhausted s c"
  have "request_op req \<noteq> Some x" by (cases req) (auto simp: x)
  with assms(3) obtain name mx grant out where req: "req = Pull name mx grant"
    and plan: "plan_lease (own_subs own) name (high_cursor (writer own)) (log_floor (writer own)) now mx =
      Some (Some (x, out))"
    unfolding proposes_def by blast
  then obtain s' where "reg_get (own_subs own) name = Some s'" by (auto simp: plan_lease_def split: option.splits)
  note lr = owner_lease_request[OF assms(1,2) this]
  have "name = n" "dead_lettered out = dd" by (rule planned_leaseE[OF lr plan]; simp add: x)+
  with req plan c show ?thesis unfolding accounts_for_def by blast
qed

lemma newly_handled_in_run:
  assumes "\<forall>e \<in> set es. event_ok e" "owner_inv own" "roomy es (own, hs)"
    and "system_run es (own, hs) = Some (own', hs')" "log_floor (writer own') < c"
    and "c \<in> handled_in n (own_subs own')" "c \<notin> handled_in n (own_subs own)"
  shows "\<exists>pre W m now post own1 hs1 req. es = pre @ Frame W m now # post \<and>
    system_run pre (own, hs) = Some (own1, hs1) \<and> admitted W own1 m now req \<and> accounts_for own1 n c now req"
  using assms
proof (induction es arbitrary: own hs)
  case (Cons e es)
  obtain own2 hs2 r where step: "system_step e (own, hs) = Some ((own2, hs2), r)"
    and run: "system_run es (own2, hs2) = Some (own', hs')"
    using Cons.prems(4) by (auto split: option.splits)
  have own: "event_ok e" "owner_inv own" "cursor_room own" using Cons.prems(1-3) by simp_all
  note own2 = system_step_inv[OF own step]
  have room: "roomy es (own2, hs2)" using Cons.prems(3) step by simp
  show ?case
  proof (cases "c \<in> handled_in n (own_subs own2)")
    case True
    then have "own_subs own2 \<noteq> own_subs own" using Cons.prems(7) by auto
    from system_step_subs[OF own(1) step this] obtain W m now req x where e: "e = Frame W m now"
      and req: "admitted W own m now req" "proposes own req now x" and x: "own_subs own2 = apply_sub (own_subs own) x"
      by blast
    have "log_floor (writer own2) \<le> log_floor (writer own')"
      using Cons.prems(1) by (intro run_inv(3)[OF run _ room own2(1)]) simp
    with own2(2) Cons.prems(5) have "log_floor (writer own) < c" by simp
    from proposes_accounts[OF own(2,3) req(2) this True[unfolded x] Cons.prems(7)] req(1)
    have "e # es = [] @ Frame W m now # es \<and> system_run [] (own, hs) = Some (own, hs) \<and>
      admitted W own m now req \<and> accounts_for own n c now req" by (simp add: e)
    then show ?thesis by blast
  next
    case False
    from Cons.IH[OF _ own2(1) room run Cons.prems(5,6) False] Cons.prems(1)
    obtain pre W m now post own1 hs1 req where "es = pre @ Frame W m now # post"
      "system_run pre (own2, hs2) = Some (own1, hs1)" "admitted W own1 m now req" "accounts_for own1 n c now req"
      by auto
    then have "e # es = (e # pre) @ Frame W m now # post \<and> system_run (e # pre) (own, hs) = Some (own1, hs1) \<and>
      admitted W own1 m now req \<and> accounts_for own1 n c now req" by (simp add: step)
    then show ?thesis by blast
  qed
qed simp

section \<open>Consumers who lease at the same time\<close>

text \<open>The cursor is withheld from every lease before \<open>deadline\<close>.\<close>

definition held_until :: "string \<Rightarrow> u64 \<Rightarrow> sub_registry \<Rightarrow> cursor \<Rightarrow> bool" where
  "held_until n deadline r c \<longleftrightarrow> (\<exists>s. reg_get r n = Some s \<and>
     (c \<in> handled s \<or> (\<exists>l. fmlookup (leases s) c = Some l \<and> deadline \<le> expires_at l)))"

text \<open>An event before the deadline that neither gives back one of the cursors nor deletes the subscription.\<close>

definition calm_request :: "string \<Rightarrow> cursor list \<Rightarrow> control_request \<Rightarrow> bool" where
  "calm_request n cs req \<longleftrightarrow>
     (case req of DeleteSubscription name _ \<Rightarrow> name \<noteq> n | NackCursor name c _ \<Rightarrow> name \<noteq> n \<or> c \<notin> set cs | _ \<Rightarrow> True)"

fun calm :: "string \<Rightarrow> cursor list \<Rightarrow> u64 \<Rightarrow> ('i, 'c) event \<Rightarrow> bool" where
  "calm n cs deadline (Frame W m now) \<longleftrightarrow> now < deadline \<and>
     (case and_then (hex_decode (hexlib W) (am_payload_hex m)) (control_decode (json W)) of
        Inr req \<Rightarrow> calm_request n cs req | Inl _ \<Rightarrow> True)"
| "calm n cs deadline _ \<longleftrightarrow> True"

lemma lease_keeps_held:
  assumes "lease_request F r n s high fl" "plan_lease r n high fl now mx = Some (Some (x, out))"
    and "now < deadline" "held_until n deadline r c"
  shows "held_until n deadline (apply_sub r x) c"
proof -
  have s: "reg_get r n = Some s" using assms(1) by (simp add: lease_request_def)
  show ?thesis
  proof (rule planned_leaseE[OF assms(1,2)])
    fix ls dd na
    assume get: "reg_get (apply_sub r x) n = Some (apply_lease s (map (\<lambda>c. (c, lease_expiry s now)) ls) dd na)"
      and ls: "set ls \<subseteq> {c. fl < c \<and> c \<le> high \<and> c \<notin> handled s \<and> \<not> withheld s now c \<and> \<not> exhausted s c}"
      and dd: "set dd \<subseteq> {c. fl < c \<and> c \<le> high \<and> c \<notin> handled s \<and> \<not> withheld s now c \<and> exhausted s c}"
    consider "c \<in> handled s" | l where "fmlookup (leases s) c = Some l" "deadline \<le> expires_at l"
      using assms(4) s by (auto simp: held_until_def)
    then show ?thesis
    proof cases
      case 1
      with get show ?thesis by (simp add: held_until_def handled_apply_lease)
    next
      case (2 l)
      with assms(3) have "now < expires_at l" by simp
      then have "withheld s now c" using 2(1) by (simp add: withheld_def)
      with ls dd have c: "c \<notin> set ls" "c \<notin> set dd" by blast+
      then have "c \<notin> fst ` set (map (\<lambda>c. (c, lease_expiry s now)) ls)" by auto
      then have "fmlookup (leases (apply_lease s (map (\<lambda>c. (c, lease_expiry s now)) ls) dd na)) c = Some l"
        using c(2) 2(1) by (simp add: apply_lease_def add_lease_fold_other mark_dead_fold)
      with get 2(2) show ?thesis by (simp add: held_until_def)
    qed
  qed
qed

lemma proposes_keeps_held:
  assumes "owner_inv own" "cursor_room own" "proposes own req now x" "calm_request n cs req"
    and "now < deadline" "c \<in> set cs" "held_until n deadline (own_subs own) c"
  shows "held_until n deadline (apply_sub (own_subs own) x) c"
proof -
  obtain s where s: "reg_get (own_subs own) n = Some s"
    and c: "c \<in> handled s \<or> (\<exists>l. fmlookup (leases s) c = Some l \<and> deadline \<le> expires_at l)"
    using assms(7) by (auto simp: held_until_def)
  from assms(3) show ?thesis unfolding proposes_def
  proof (elim disjE exE conjE)
    assume x: "request_op req = Some x"
    have "zero_free s" using sub_invD(1)[OF reg_invD[OF owner_invD(2)[OF assms(1)] s]] .
    moreover have "d \<notin> set cs \<Longrightarrow> fmlookup (leases (apply_nack s d)) c = fmlookup (leases s) c" for d
      using assms(6) by (auto simp add: apply_nack_def split: option.split)
    ultimately show ?thesis using x assms(4,6) s c
      by (cases req) (auto simp: held_until_def reg_get_apply calm_request_def handled_ack ack_leases)
  next
    fix name mx grant out
    assume plan: "plan_lease (own_subs own) name (high_cursor (writer own)) (log_floor (writer own)) now mx =
        Some (Some (x, out))"
    then obtain s' where s': "reg_get (own_subs own) name = Some s'" by (auto simp: plan_lease_def split: option.splits)
    note lr = owner_lease_request[OF assms(1,2) s']
    show ?thesis
    proof (cases "name = n")
      case True
      from lease_keeps_held[OF lr plan assms(5)] assms(7) show ?thesis unfolding True .
    next
      case False
      then show ?thesis
        by (rule_tac planned_leaseE[OF lr plan]) (use s c in \<open>simp add: held_until_def reg_get_apply\<close>)
    qed
  qed
qed

lemma run_keeps_held:
  assumes "system_run es (own, hs) = Some (own', hs')" "\<forall>e \<in> set es. event_ok e" "roomy es (own, hs)" "owner_inv own"
    and "\<forall>e \<in> set es. calm n cs deadline e" "c \<in> set cs" "held_until n deadline (own_subs own) c"
  shows "held_until n deadline (own_subs own') c"
proof -
  let ?Q = "\<lambda>st. held_until n deadline (own_subs (fst st)) c"
  have "?Q (own', hs') \<and> owner_inv (fst (own', hs')) \<and> cursor_room (fst (own', hs'))"
  proof (rule run_invariant[OF assms(1-3), where Q = ?Q])
    show "?Q (own2, hs2)" if "e \<in> set es" "event_ok e" "owner_inv own1" "cursor_room own1"
      "system_step e (own1, hs1) = Some ((own2, hs2), r)" "?Q (own1, hs1)" for e own1 hs1 own2 hs2 r
    proof (cases "own_subs own2 = own_subs own1")
      case False
      from system_step_subs[OF that(2,5) False] obtain W m now req x where e: "e = Frame W m now"
        and req: "admitted W own1 m now req" "proposes own1 req now x"
        and x: "own_subs own2 = apply_sub (own_subs own1) x"
        by blast
      from assms(5) that(1) e req(1) have "calm_request n cs req" "now < deadline" by (auto simp: admitted_def)
      from proposes_keeps_held[OF that(3,4) req(2) this assms(6)] that(6) x show ?thesis by simp
    qed (use that(6) in simp)
  qed (use assms(4,7) in simp_all)
  then show ?thesis by simp
qed

text \<open>The owner after a lease, and the cursors it handed out.\<close>

lemma lease_state:
  assumes "world_ok W" "owner_inv own" "cursor_room own" "reg_get (own_subs own) n = Some s"
    and "handle_lease W own n mx now = Some (own', Pulled ms)"
  shows "owner_inv own'"
    and "m \<in> set ms \<Longrightarrow> held_until n (lease_expiry s now) (own_subs own') (msg_cursor (leased_msg m))"
    and "m \<in> set ms \<Longrightarrow> now < deadline \<Longrightarrow> \<not> held_until n deadline (own_subs own) (msg_cursor (leased_msg m))"
proof -
  note eff = handle_lease_effect[OF assms(1-3,5)]
  show "owner_inv own'"
    using subs_progress_inv[of _ "own_subs own"] eff assms(2) unfolding owner_inv_def by simp metis
  note req = owner_lease_request[OF assms(2-4)]
  have "held_until n (lease_expiry s now) (own_subs own') (msg_cursor (leased_msg m)) \<and>
      (now < deadline \<longrightarrow> \<not> held_until n deadline (own_subs own) (msg_cursor (leased_msg m)))" if m: "m \<in> set ms" for m
    using assms
  proof (cases rule: handle_lease_Pulled)
    case Nothing
    with m show ?thesis by simp
  next
    case (Leased x out)
    obtain c k where ck: "(c, k) \<in> set (leased out)" and c: "msg_cursor (leased_msg m) = c"
      using m Leased(5) by (force simp: Leased(4))
    obtain t where t: "reg_get (apply_sub (own_subs own) x) n = Some t"
      by (rule planned_leaseE[OF req Leased(1)]) simp
    have "held_until n (lease_expiry s now) (own_subs own') c"
      using leased_state[OF req Leased(1) t ck] t by (simp add: held_until_def Leased(2))
    moreover have "c \<notin> handled s" "\<not> withheld s now c"
      by (rule planned_leaseE[OF req Leased(1)]; use ck in force)+
    then have "now < deadline \<longrightarrow> \<not> held_until n deadline (own_subs own) c"
      using assms(4) by (auto simp: held_until_def withheld_def)
    ultimately show ?thesis by (simp add: c)
  qed
  then show "m \<in> set ms \<Longrightarrow> held_until n (lease_expiry s now) (own_subs own') (msg_cursor (leased_msg m))"
    and "m \<in> set ms \<Longrightarrow> now < deadline \<Longrightarrow> \<not> held_until n deadline (own_subs own) (msg_cursor (leased_msg m))"
    by blast+
qed

section \<open>Properties\<close>

text \<open>C1: No message is lost silently, whatever the traffic: a retained message becomes handled for a subscription
  only by a message to the control worker that the owner admits, which on a gated topic means with a
  grant, and that is the ack of this cursor, or a lease that dead-letters it because its delivery limit
  is reached.\<close>

theorem no_silent_loss:
  assumes "\<forall>e \<in> set es. event_ok e" "owner_inv own" "roomy es (own, hs)"
    and "system_run es (own, hs) = Some (own', hs')" "log_floor (writer own') < c"
    and "c \<in> handled_in n (own_subs own')" "c \<notin> handled_in n (own_subs own)"
  shows "\<exists>pre W m now post own1 hs1 req. es = pre @ Frame W m now # post \<and>
    system_run pre (own, hs) = Some (own1, hs1) \<and> admitted W own1 m now req \<and> accounts_for own1 n c now req"
  by (rule newly_handled_in_run[OF assms])

lemma two_world_applies: "subs_propose two_world = (\<lambda>r x. (apply_sub r x, Inr ()))"
  by (simp add: two_world_def sample_world_def)

lemma ack_frame_step:
  assumes "t \<notin> fmdom' (token_map hs)" "map_len (token_map hs) < token_capacity hs"
    and "topic_name own = ''orders''" "\<not> require_cap own" "reg_get (own_subs own) ''s'' \<noteq> None"
  shows "\<exists>hs'. system_step (Frame two_world (ack_frame t) now) (own, hs) =
    Some ((own\<lparr>own_subs := apply_sub (own_subs own) (Ack ''s'' 1)\<rparr>, hs'), Some (t, []))"
proof -
  have hx: "hex_encode letter_hex [] = ''''" "hex_decode letter_hex '''' = Inr []" by (simp_all add: letter_hex_def)
  have js: "control_decode two_json [] = Inr (AckCursor ''s'' 1 None)" "control_reply_encode two_json Control_ok = Inr []"
    by (simp_all add: two_json_def control_decode_def control_reply_encode_def)
  have "handle_control two_world own '''' ''c'' now =
      Some (own\<lparr>own_subs := apply_sub (own_subs own) (Ack ''s'' 1)\<rparr>, Control_ok)"
    using assms(4,5) by (simp add: handle_control_def hx js is_high_cursor_def control_gate_def propose_sub_def two_world_applies)
  moreover obtain hs' where "token_seen t now hs = (hs', False)"
    using token_seen_new[of hs t now] assms by simp
  ultimately show ?thesis using assms(3)
    by (simp add: ack_frame_def request_message_def deliver_control serve_control_message_def hx js)
qed

lemma ack_frame_admitted: "admitted two_world sample_owner (ack_frame t) now (AckCursor ''s'' 1 None)"
  by (simp add: admitted_def ack_frame_def request_message_def control_gate_def letter_hex_def)
    (simp add: two_json_def control_decode_def)

lemma acked_sample_room: "cursor_room (sample_owner\<lparr>own_subs := apply_sub sample_registry (Ack ''s'' 1)\<rparr>)"
proof -
  have "acked (apply_ack default_state 1) = 1"
    by (simp add: apply_ack_def advance_acked.simps default_state_def)
  then show ?thesis by (simp add: cursor_room_def reg_get_apply)
qed

lemma no_silent_loss_witness:
  "\<exists>own' hs'. system_run [Frame two_world (ack_frame 5) 100] (sample_owner, new_token_set 10 60) = Some (own', hs') \<and>
     1 \<in> handled_in ''s'' (own_subs own') \<and>
     (\<exists>m own1 req. admitted two_world own1 m 100 req \<and> accounts_for own1 ''s'' 1 100 req)"
proof -
  let ?own = "sample_owner\<lparr>own_subs := apply_sub sample_registry (Ack ''s'' 1)\<rparr>"
  obtain hs' where step: "system_step (Frame two_world (ack_frame 5) 100) (sample_owner, new_token_set 10 60) =
      Some ((?own, hs'), Some (5, []))"
    using ack_frame_step[of 5 "new_token_set 10 60" sample_owner 100] by (auto simp: new_token_set_def)
  then have run: "system_run [Frame two_world (ack_frame 5) 100] (sample_owner, new_token_set 10 60) = Some (?own, hs')"
    by simp
  have h: "1 \<in> handled_in ''s'' (own_subs ?own)"
    using handled_in_ack[of sample_registry "''s''" default_state 1] by simp
  have "1 \<notin> handled_in ''s'' (own_subs sample_owner)"
    by (simp add: handled_in_def handled_iff) (simp add: default_state_def)
  then show ?thesis
    using no_silent_loss[OF _ sample_owner_inv _ run _ h] step h acked_sample_room
    by (fastforce simp: append_eq_Cons_conv Cons_eq_append_conv)
qed

text \<open>C31: Consumers who lease at the same time get different messages: whatever other traffic lies between
  two leases of a subscription (acks, leases of other consumers, publishes, prunes), no message of the
  first is in the second before the deadline of the first, unless it was given back by a nack or the
  subscription was deleted.\<close>

theorem traffic_leases_disjoint:
  assumes "world_ok W" "owner_inv own" "cursor_room own" "reg_get (own_subs own) n = Some s"
    and "handle_lease W own n mx now = Some (own1, Pulled ms)"
    and "\<forall>e \<in> set es. event_ok e \<and> calm n (map (\<lambda>m. msg_cursor (leased_msg m)) ms) (lease_expiry s now) e"
    and "roomy es (own1, hs1)" "system_run es (own1, hs1) = Some (own2, hs2)"
    and "world_ok W'" "handle_lease W' own2 n mx' now' = Some (own3, Pulled ms')" "now' < lease_expiry s now"
  shows "set (map (\<lambda>m. msg_cursor (leased_msg m)) ms) \<inter> set (map (\<lambda>m. msg_cursor (leased_msg m)) ms') = {}"
proof -
  note lease = lease_state[OF assms(1-5)]
  have es: "\<forall>e \<in> set es. event_ok e"
    "\<forall>e \<in> set es. calm n (map (\<lambda>m. msg_cursor (leased_msg m)) ms) (lease_expiry s now) e"
    using assms(6) by simp_all
  note own2 = run_inv[OF assms(8) es(1) assms(7) lease(1)]
  have held: "held_until n (lease_expiry s now) (own_subs own2) (msg_cursor (leased_msg m))" if "m \<in> set ms" for m
    by (rule run_keeps_held[OF assms(8) es(1) assms(7) lease(1) es(2) _ lease(2)[OF that]]) (use that in simp)
  have False if "m \<in> set ms" "m' \<in> set ms'" "msg_cursor (leased_msg m) = msg_cursor (leased_msg m')" for m m'
  proof -
    from held[OF that(1)] obtain s2 where "reg_get (own_subs own2) n = Some s2" by (auto simp: held_until_def)
    from lease_state(3)[OF assms(9) own2(1,2) this assms(10) that(2) assms(11)] held[OF that(1)] that(3)
    show False by simp
  qed
  then show ?thesis by fastforce
qed

lemma few_handled: "handled u \<subseteq> {0, 1} \<Longrightarrow> acked u \<noteq> top_word"
proof
  assume u: "handled u \<subseteq> {0, 1}" "acked u = top_word"
  then have "2 \<in> handled u" by (simp add: handled_iff)
  with u(1) show False by auto
qed

lemma sample_expiry: "lease_expiry default_state 100 = 130"
  by (simp add: lease_expiry_def default_state_def default_policy_def DEFAULT_ACK_DEADLINE_SECS_def
      MAX_ACK_DEADLINE_SECS_def sat_add_def)

lemma traffic_leases_disjoint_witness:
  "\<exists>own1 ms own2 hs2 own3 ms'. handle_lease two_world sample_owner ''s'' 2 100 = Some (own1, Pulled ms) \<and> ms \<noteq> [] \<and>
     system_run [Frame two_world (ack_frame 5) 110] (own1, new_token_set 10 60) = Some (own2, hs2) \<and>
     handle_lease two_world own2 ''s'' 2 120 = Some (own3, Pulled ms') \<and>
     set (map (\<lambda>m. msg_cursor (leased_msg m)) ms) \<inter> set (map (\<lambda>m. msg_cursor (leased_msg m)) ms') = {}"
proof -
  obtain own1 ms where h: "handle_lease two_world sample_owner ''s'' 2 100 = Some (own1, Pulled ms)"
    using sample_plan by (simp add: handle_lease_def Let_def) (simp add: two_world_def sample_world_def)
  have s: "reg_get (own_subs sample_owner) ''s'' = Some default_state" by simp
  have own1: "own_subs own1 = apply_sub sample_registry sample_lease" "ms \<noteq> []"
    by (rule handle_lease_Pulled[OF two_world_simps(1) sample_owner_inv sample_owner_room s h]; use sample_plan in auto)+
  note frame = handle_lease_frame[OF h]
  define own2 where "own2 = own1\<lparr>own_subs := apply_sub (own_subs own1) (Ack ''s'' 1)\<rparr>"
  obtain hs2 where step: "system_step (Frame two_world (ack_frame 5) 110) (own1, new_token_set 10 60) =
      Some ((own2, hs2), Some (5, []))"
    using ack_frame_step[of 5 "new_token_set 10 60" own1 110] frame
    by (auto simp: own2_def new_token_set_def own1(1) sample_lease_def reg_get_apply)
  then have run: "system_run [Frame two_world (ack_frame 5) 110] (own1, new_token_set 10 60) = Some (own2, hs2)" by simp
  note inv1 = lease_state(1)[OF two_world_simps(1) sample_owner_inv sample_owner_room s h]
  obtain t where t: "reg_get (own_subs own1) ''s'' = Some t" by (simp add: own1(1) sample_lease_def reg_get_apply)
  have "handled t = {0}"
    using t by (auto simp: own1(1) sample_lease_def reg_get_apply handled_apply_lease handled_iff)
      (auto simp: default_state_def)
  moreover have "handled (apply_ack t 1) = insert 1 (handled t)"
    by (rule handled_ack[OF sub_invD(1)[OF reg_invD[OF owner_invD(2)[OF inv1] t]]])
  ultimately have "acked t \<noteq> top_word" "acked (apply_ack t 1) \<noteq> top_word" using few_handled by simp_all
  then have room: "cursor_room own1" "cursor_room own2"
    using t frame(3) by (auto simp: cursor_room_def own2_def own1(1) sample_lease_def reg_get_apply split: if_splits)
  have "own_subs own2 = own_subs own2 \<and> owner_inv own2"
    using run_inv(1)[OF run _ _ inv1] room step by simp
  then obtain own3 reply where "handle_lease two_world own2 ''s'' 2 120 = Some (own3, reply)"
    using handle_lease_returns[OF _ room(2), of two_world "''s''" 2 120] by auto
  moreover from handle_lease_replies[OF two_world_applies this] t obtain ms' where "reply = Pulled ms'"
    by (auto simp: own2_def reg_get_apply)
  ultimately have h2: "handle_lease two_world own2 ''s'' 2 120 = Some (own3, Pulled ms')" by simp
  have "calm ''s'' cs (lease_expiry default_state 100) (Frame two_world (ack_frame 5) 110)" for cs
    using ack_frame_admitted[of 5 110]
    by (simp add: admitted_def calm_request_def sample_expiry)
  moreover have "roomy [Frame two_world (ack_frame 5) 110] (own1, new_token_set 10 60)" using room step by simp
  ultimately have "set (map (\<lambda>m. msg_cursor (leased_msg m)) ms) \<inter> set (map (\<lambda>m. msg_cursor (leased_msg m)) ms') = {}"
    by (intro traffic_leases_disjoint[OF two_world_simps(1) sample_owner_inv sample_owner_room s h _ _ run two_world_simps(1) h2])
      (simp_all add: sample_expiry)
  with h own1(2) run h2 show ?thesis by blast
qed

end
