(* ===== verification/Gate_Steps.thy ===== *)
theory Gate_Steps
  imports Traffic_Safety
begin

text \<open>
  The two request handlers of \<open>src/src/lib.rs\<close> split where they wait: the flag of
  \<open>require_publish_cap\<close> is read when a request is taken up, the accepted roots after the revocation set has
  been fetched, the next cursor after that, the append waits for the replicated log, and the outcome is
  recorded last.  In between come the events of everyone else: the owner's own calls, among them those that
  switch the gate and add roots, and the requests that the other worker serves.  Each worker takes its own
  requests one after another, so no second request of the same kind comes in between.
\<close>

section \<open>The ingest handler in steps\<close>

text \<open>What does not take a request from the inbox of the worker on topic \<open>tp\<close>.\<close>

fun spares :: "string \<Rightarrow> ('i, 'c) event \<Rightarrow> bool" where
  "spares tp (Frame W m now) \<longleftrightarrow> am_topic m \<noteq> tp"
| "spares tp _ \<longleftrightarrow> True"

text \<open>The flag is read (\<open>gated\<close>), then the gate is passed with the roots accepted by now, the request is
  checked, and the cursor is read.\<close>

definition ingest_admit ::
  "('i, 'c) world \<Rightarrow> owner \<Rightarrow> bool \<Rightarrow> ingest_request \<Rightarrow> string \<Rightarrow> u64 \<Rightarrow> error + (message \<times> cursor)" where
  "ingest_admit W own gated req from now =
     and_then (ingest_message W (own\<lparr>require_cap := gated\<rparr>) req from now) (\<lambda>msg. Inr (msg, append_read own))"

text \<open>The append of what was admitted.\<close>

definition ingest_settle :: "('i, 'c) world \<Rightarrow> owner \<Rightarrow> error + (message \<times> cursor) \<Rightarrow> owner \<times> (error + cursor)" where
  "ingest_settle W own adm =
     (case adm of
        Inl e \<Rightarrow> (own, Inl e)
      | Inr (msg, c) \<Rightarrow> let (own1, res) = append_commit W own c msg in (own1, map_err (Wrapped ''append failed'') res))"

text \<open>The outcome is recorded and answered.\<close>

definition ingest_record :: "owner \<Rightarrow> string \<Rightarrow> u64 \<Rightarrow> error + cursor \<Rightarrow> owner \<times> ingest_reply option" where
  "ingest_record own key now outcome =
     (let seen = (case outcome of Inr c \<Rightarrow> Seen_cursor c | Inl _ \<Rightarrow> Seen_handled) in
      (own\<lparr>dedup := cache_insert key seen now (dedup own)\<rparr>,
       Some (case outcome of Inr c \<Rightarrow> Accepted c | Inl why \<Rightarrow> Ingest_rejected why)))"

text \<open>The events \<open>es0\<close> come before the checks, \<open>es1\<close> after the read of the cursor and before the append,
  and \<open>es2\<close> before the outcome is recorded.\<close>

definition interleaved_ingest ::
  "('i, 'c) world \<Rightarrow> system \<Rightarrow> u64 \<Rightarrow> string \<Rightarrow> string \<Rightarrow> u64 \<Rightarrow> ('i, 'c) event list \<Rightarrow> ('i, 'c) event list \<Rightarrow>
    ('i, 'c) event list \<Rightarrow> (system \<times> ingest_reply option) option" where
  "interleaved_ingest W st token payload from now es0 es1 es2 =
     (case ingest_decode_hex (hexlib W) (json W) payload of
        Inl e \<Rightarrow> Some (st, Some (Ingest_rejected (Wrapped ''bad request'' e)))
      | Inr req \<Rightarrow>
          let key = dedup_key token req; (cache, found) = cache_get key now (dedup (fst st));
              gated = require_cap (fst st); st1 = ((fst st)\<lparr>dedup := cache\<rparr>, snd st) in
          case found of
            Some (Seen_cursor c) \<Rightarrow> Some (st1, Some (Accepted c))
          | Some Seen_handled \<Rightarrow> Some (st1, Some (Ingest_rejected Duplicate_request))
          | None \<Rightarrow>
              (case system_run es0 st1 of
                 None \<Rightarrow> None
               | Some (own0, hs0) \<Rightarrow>
                   (case system_run es1 (own0, hs0) of
                      None \<Rightarrow> None
                    | Some (own1, hs1) \<Rightarrow>
                        let (own2, outcome) = ingest_settle W own1 (ingest_admit W own0 gated req from now) in
                        (case system_run es2 (own2, hs1) of
                           None \<Rightarrow> None
                         | Some (own3, hs3) \<Rightarrow>
                             let (own4, r) = ingest_record own3 key now outcome in Some ((own4, hs3), r)))))"

text \<open>Without interference the steps make up the handler.\<close>

lemma require_cap_same [simp]: "own\<lparr>require_cap := require_cap own\<rparr> = own"
    "own\<lparr>dedup := d, require_cap := require_cap own\<rparr> = own\<lparr>dedup := d\<rparr>"
  for own :: owner
  by (cases own, simp)+

lemma handle_ingest_steps:
  "interleaved_ingest W (own, hs) token payload from now [] [] [] =
     (let (own', r) = handle_ingest W own token payload from now in Some ((own', hs), r))"
  by (auto simp: interleaved_ingest_def handle_ingest_def apply_ingest_def append_and_fanout_steps ingest_admit_def
      ingest_settle_def ingest_record_def append_read_def Let_def split: sum.split option.split prod.split seen.split)

section \<open>What the other events leave alone\<close>

lemma spared_step:
  assumes "spares (ingest_topic (topic_name own)) e" "system_step e (own, hs) = Some ((own', hs'), r)"
  shows "dedup own' = dedup own \<and> topic_name own' = topic_name own"
proof (cases e)
  case (Frame W m now)
  with assms have "serve_control_message W (own, hs) m now = Some ((own', hs'), r)"
    by (auto simp: deliver_message_def serve_ingest_message_def split: option.splits prod.splits)
  then show ?thesis
    by (auto simp: serve_control_message_def Let_def dest: handle_control_frame split: if_splits option.splits prod.splits)
next
  case (Own_publish W payload now)
  then show ?thesis
    using assms(2) append_and_fanout_frame[OF surjective_pairing] by (auto simp: publish_def split: sum.splits)
next
  case (Own_publish_with W payload opts now)
  then show ?thesis
    using assms(2) append_and_fanout_frame[OF surjective_pairing] by (auto simp: publish_with_def Let_def split: sum.splits)
next
  case (Own_prune W c)
  with assms(2) show ?thesis by (auto simp: prune_to_def split: prod.splits)
next
  case (Own_accept_root W root)
  with assms(2) show ?thesis by (auto simp: accept_root_def result_simps split: sum.splits if_splits)
qed (use assms(2) in \<open>auto simp: require_publish_cap_def\<close>)

lemma spared_run:
  assumes "\<forall>e \<in> set es. spares (ingest_topic (topic_name own)) e" "system_run es (own, hs) = Some (own', hs')"
  shows "dedup own' = dedup own \<and> topic_name own' = topic_name own"
  using assms
proof (induction es arbitrary: own hs)
  case (Cons e es)
  then obtain own1 hs1 r where s: "system_step e (own, hs) = Some ((own1, hs1), r)"
    and run: "system_run es (own1, hs1) = Some (own', hs')"
    by (auto split: option.splits)
  with spared_step[OF _ s] Cons.prems(1) Cons.IH[OF _ run] show ?case by simp
qed simp


section \<open>The ingest worker\<close>

lemma append_commit_frame:
  assumes "append_commit W own c msg = (own', res)"
  shows "own' = own\<lparr>writer := writer own', live_out := live_out own'\<rparr>"
  using assms by (auto simp: append_commit_def Let_def split: prod.splits sum.splits)

lemma append_commit_log:
  assumes "world_ok W" "append_commit W own c msg = (own', res)"
  shows "writer own' = writer own \<or> writer own' = apply_log (writer own) (Append msg)"
proof -
  obtain w r where p: "log_propose W (writer own) (Append (msg\<lparr>msg_cursor := c\<rparr>)) = (w, r)" by fastforce
  with assms(2) have "writer own' = w" by (auto simp: append_commit_def Let_def split: sum.splits)
  with propose_contractD(2)[OF world_okD(2)[OF assms(1)] p] show ?thesis by (simp add: apply_append_stamp)
qed

text \<open>The message that was checked is from the sender, and is marked authenticated exactly if the flag that
  was read asked for a grant, which was then found to authorize the sender.\<close>

definition vouched :: "('i, 'c) world \<Rightarrow> owner \<Rightarrow> bool \<Rightarrow> ingest_request \<Rightarrow> string \<Rightarrow> u64 \<Rightarrow> message \<Rightarrow> bool" where
  "vouched W own gated req from now m \<longleftrightarrow> publisher m = from \<and> published_at m = now \<and>
     ordering_key m = req_ordering_key req \<and> attributes m = req_attributes req \<and>
     publisher_authenticated m = gated \<and>
     (gated \<longrightarrow> (\<exists>grant. req_grant req = Some grant \<and> authorize W own from ABILITY_PUBLISH grant now = Inr ()))"

lemma authorize_flag [simp]: "authorize W (own\<lparr>require_cap := b\<rparr>) = authorize W own"
  by (simp add: authorize_def fun_eq_iff)

lemma ingest_admit_Inr:
  assumes "ingest_admit W own gated req from now = Inr (msg, c)"
  shows "vouched W own gated req from now msg" "c = next_cursor (writer own)"
proof -
  from assms have msg: "ingest_message W (own\<lparr>require_cap := gated\<rparr>) req from now = Inr msg"
    and "c = next_cursor (writer own)"
    by (auto simp: ingest_admit_def result_simps append_read_def)
  then show "c = next_cursor (writer own)" by simp
  from msg show "vouched W own gated req from now msg"
    by (auto simp: ingest_message_def result_simps vouched_def authenticated_def new_message_def ingest_gate_def
        split: if_splits option.splits)
qed

lemma ingest_settle_effect:
  assumes "world_ok W" "ingest_settle W own1 (ingest_admit W own0 gated req from now) = (own2, out)"
  shows "own2 = own1\<lparr>writer := writer own2, live_out := live_out own2\<rparr>"
    and "writer own2 = writer own1 \<or>
      (\<exists>m. vouched W own0 gated req from now m \<and> writer own2 = apply_log (writer own1) (Append m))"
    and "out = Inr c \<Longrightarrow> c = next_cursor (writer own0) \<and> writer own2 \<noteq> writer own1"
proof -
  show "own2 = own1\<lparr>writer := writer own2, live_out := live_out own2\<rparr>"
    using assms(2) append_commit_frame by (auto simp: ingest_settle_def split: sum.splits prod.splits)
  show "writer own2 = writer own1 \<or>
      (\<exists>m. vouched W own0 gated req from now m \<and> writer own2 = apply_log (writer own1) (Append m))"
    using assms(2) append_commit_log[OF assms(1)] ingest_admit_Inr
    by (fastforce simp: ingest_settle_def split: sum.splits prod.splits)
  assume "out = Inr c"
  with assms(2) obtain msg c' where a: "ingest_admit W own0 gated req from now = Inr (msg, c')"
    and com: "append_commit W own1 c' msg = (own2, Inr c)"
    by (auto simp: ingest_settle_def result_simps split: sum.splits prod.splits)
  have "apply_log l (Append m) \<noteq> l" for l m by (cases l) (simp add: apply_log.simps)
  with append_commit_Inr[OF assms(1) com] ingest_admit_Inr(2)[OF a]
  show "c = next_cursor (writer own0) \<and> writer own2 \<noteq> writer own1" by simp
qed

text \<open>C19: A gate is passed or not as it stood when the request was taken up, whatever others do while the
  request waits: roots added, the gate switched on or off, messages published and pruned, control requests
  served.  The request appends at most one message; it is the sender's, it is marked authenticated exactly
  if the gate was closed then, and in that case the request carried a grant that authorizes the sender
  under the roots accepted when it was checked.  A request that is accepted did append, is answered with
  the cursor that was next at the checks, and that is what is remembered for its key, next to what was
  remembered before.\<close>

theorem interleaved_append_authorized:
  assumes "world_ok W" "\<forall>e \<in> set (es0 @ es1 @ es2). spares (ingest_topic (topic_name own)) e"
    and "ingest_decode_hex (hexlib W) (json W) payload = Inr req"
    and "cache_get (dedup_key token req) now (dedup own) = (cache, None)"
    and "interleaved_ingest W (own, hs) token payload from now es0 es1 es2 = Some ((own', hs'), reply)"
  shows "\<exists>own0 hs0 own1 hs1 w live own3 d. system_run es0 (own\<lparr>dedup := cache\<rparr>, hs) = Some (own0, hs0) \<and>
    system_run es1 (own0, hs0) = Some (own1, hs1) \<and>
    (w = writer own1 \<or>
      (\<exists>m. w = apply_log (writer own1) (Append m) \<and> publisher m = from \<and>
        publisher_authenticated m = require_cap own \<and>
        (require_cap own \<longrightarrow>
          (\<exists>grant. req_grant req = Some grant \<and> authorize W own0 from ABILITY_PUBLISH grant now = Inr ())))) \<and>
    system_run es2 (own1\<lparr>writer := w, live_out := live\<rparr>, hs1) = Some (own3, hs') \<and> own' = own3\<lparr>dedup := d\<rparr> \<and>
    (\<forall>c. reply = Some (Accepted c) \<longrightarrow> w \<noteq> writer own1 \<and> c = next_cursor (writer own0) \<and>
      d = cache_insert (dedup_key token req) (Seen_cursor c) now cache)"
proof -
  let ?gated = "require_cap own"
  obtain own0 hs0 where run0: "system_run es0 (own\<lparr>dedup := cache\<rparr>, hs) = Some (own0, hs0)"
    using assms(3-5) by (auto simp: interleaved_ingest_def split: option.splits)
  obtain own1 hs1 where run1: "system_run es1 (own0, hs0) = Some (own1, hs1)"
    using assms(3-5) run0 by (auto simp: interleaved_ingest_def split: option.splits)
  obtain own2 out where settle: "ingest_settle W own1 (ingest_admit W own0 ?gated req from now) = (own2, out)"
    by fastforce
  note effect = ingest_settle_effect[OF assms(1) settle]
  obtain w live where own2: "own2 = own1\<lparr>writer := w, live_out := live\<rparr>" using effect(1) by blast
  obtain own3 where run2: "system_run es2 (own2, hs1) = Some (own3, hs')"
    and rec: "ingest_record own3 (dedup_key token req) now out = (own', reply)"
    using assms(3-5) run0 run1 settle by (auto simp: interleaved_ingest_def Let_def split: option.splits prod.splits)
  obtain d where own': "own' = own3\<lparr>dedup := d\<rparr>" using rec by (auto simp: ingest_record_def)
  have spared: "dedup own0 = cache" "topic_name own0 = topic_name own" "dedup own1 = cache" "topic_name own1 = topic_name own"
    using spared_run[OF _ run0] spared_run[OF _ run1] assms(2) by auto
  moreover have "dedup own2 = dedup own1" "topic_name own2 = topic_name own1"
    by (simp_all add: own2)
  ultimately have "dedup own3 = cache" using spared_run[OF _ run2] assms(2) by simp
  then have "w \<noteq> writer own1 \<and> c = next_cursor (writer own0) \<and>
      d = cache_insert (dedup_key token req) (Seen_cursor c) now cache"
    if "reply = Some (Accepted c)" for c
  proof -
    from that rec have out: "out = Inr c" by (auto simp: ingest_record_def split: sum.splits)
    with rec effect(3)[OF out] \<open>dedup own3 = cache\<close> own' show ?thesis
      by (auto simp: ingest_record_def own2 dest: arg_cong[of _ _ dedup])
  qed
  moreover have "w = writer own1 \<or> (\<exists>m. vouched W own0 ?gated req from now m \<and> w = apply_log (writer own1) (Append m))"
    using effect(2) by (simp add: own2)
  ultimately show ?thesis
    using run0 run1 run2 own' unfolding vouched_def own2 by blast
qed


lemma sample_message:
  "\<exists>msg. ingest_message (sample_world creq (bare_request [])) sample_owner (bare_request []) ''p'' 100 = Inr msg"
proof -
  have "validate_attributes fmempty = Inr ()" by (simp add: attributes_ok_def)
  then obtain msg where
      "ingest_message (sample_world creq (bare_request [])) sample_owner (bare_request []) ''p'' 100 = Inr msg"
    by (simp add: ingest_message_def ingest_gate_def bare_request_def validate_ordering_key_def
        validate_payload_def sample_world_def letter_hex_def)
  then show ?thesis by blast
qed

lemma interleaved_append_authorized_witness:
  "\<exists>own' hs m. interleaved_ingest (sample_world list_request (bare_request [])) (sample_owner, hs) 7 [] ''p'' 100
       [Own_require True] [] [] = Some ((own', hs), Some (Accepted 4)) \<and> require_cap own' \<and>
     writer own' = apply_log sample_log (Append m) \<and> \<not> publisher_authenticated m"
proof -
  let ?W = "sample_world list_request (bare_request [])"
  define hs where "hs = new_token_set DEDUP_CAPACITY DEDUP_TTL_SECS"
  let ?c = "new_cache DEDUP_CAPACITY DEDUP_TTL_SECS" and ?own0 = "sample_owner\<lparr>require_cap := True\<rparr>"
  have miss: "cache_get (dedup_key 7 (bare_request [])) 100 (dedup sample_owner) = (?c, None)"
    by (simp add: cache_get_def new_cache_def)
  have run: "system_run [Own_require True] (sample_owner\<lparr>dedup := ?c\<rparr>, hs) = Some (?own0, hs)"
    by (simp add: require_publish_cap_def sample_owner_def)
  obtain msg where "ingest_message ?W sample_owner (bare_request []) ''p'' 100 = Inr msg"
    using sample_message by blast
  then have admit: "ingest_admit ?W ?own0 False (bare_request []) ''p'' 100 = Inr (msg, 4)"
    by (simp add: ingest_admit_def append_read_def next_cursor_def sample_owner_def)
  obtain own2 where settle: "ingest_settle ?W ?own0 (Inr (msg, 4)) = (own2, Inr 4)"
    by (simp add: ingest_settle_def append_commit_def sample_world_def Let_def)
  obtain own' where i: "interleaved_ingest ?W (sample_owner, hs) 7 [] ''p'' 100 [Own_require True] [] [] =
      Some ((own', hs), Some (Accepted 4))"
    using sample_decode_bare[of list_request] miss run admit settle
    by (simp add: interleaved_ingest_def ingest_record_def)
  have "\<forall>e \<in> set ([Own_require True] @ [] @ []). spares (ingest_topic (topic_name sample_owner)) e" by simp
  note * = interleaved_append_authorized[OF sample_world_ok this sample_decode_bare miss i]
  then obtain w live d m where "w = apply_log (writer ?own0) (Append m)" "\<not> publisher_authenticated m"
    and "own' = ?own0\<lparr>writer := w, live_out := live\<rparr>\<lparr>dedup := d\<rparr>"
    unfolding run by auto
  with i show ?thesis by (intro exI[of _ own'] exI[of _ hs] exI[of _ m]) simp
qed

section \<open>The control worker\<close>

text \<open>The body of \<open>handle_control\<close> with the flag as it was read.\<close>

definition control_at ::
  "('i, 'c) world \<Rightarrow> owner \<Rightarrow> bool \<Rightarrow> string \<Rightarrow> string \<Rightarrow> u64 \<Rightarrow> (owner \<times> control_reply) option" where
  "control_at W own gated payload requester now =
     (case hex_decode (hexlib W) payload of
        Inl e \<Rightarrow> Some (own, Control_rejected (Wrapped ''bad request hex'' e))
      | Inr bs \<Rightarrow>
          (case control_decode (json W) bs of
             Inl e \<Rightarrow> Some (own, Control_rejected (Wrapped ''bad request body'' e))
           | Inr req \<Rightarrow>
               if is_high_cursor req then Some (own, High (high_cursor (writer own)))
               else
                 (case control_gate W (own\<lparr>require_cap := gated\<rparr>) req requester now of
                    Inl why \<Rightarrow> Some (own, Control_rejected why)
                  | Inr _ \<Rightarrow> serve_request W own req now)))"

text \<open>The flag is read, the events \<open>es\<close> take place while the revocation set is fetched, and the rest
  follows.  The waits of a lease itself are those of \<open>Lease_Steps\<close>.\<close>

definition interleaved_control ::
  "('i, 'c) world \<Rightarrow> system \<Rightarrow> string \<Rightarrow> string \<Rightarrow> u64 \<Rightarrow> ('i, 'c) event list \<Rightarrow> (system \<times> control_reply) option" where
  "interleaved_control W st payload requester now es =
     (case system_run es st of
        None \<Rightarrow> None
      | Some (own1, hs1) \<Rightarrow>
          map_option (\<lambda>(own2, reply). ((own2, hs1), reply))
            (control_at W own1 (require_cap (fst st)) payload requester now))"

lemma handle_control_steps:
  "interleaved_control W (own, hs) payload requester now [] =
     map_option (\<lambda>(own2, reply). ((own2, hs), reply)) (handle_control W own payload requester now)"
  by (simp add: interleaved_control_def control_at_def handle_control_def split: sum.split)

text \<open>Serving a request does not look at the flag.\<close>

lemma handle_lease_flag:
  "handle_lease W (own\<lparr>require_cap := b\<rparr>) name mx now =
     map_option (\<lambda>(own', r). (own'\<lparr>require_cap := b\<rparr>, r)) (handle_lease W own name mx now)"
  by (simp add: handle_lease_def route_dead_letters_def Let_def split: option.split sum.split prod.split)

lemma propose_sub_flag:
  "propose_sub W (own\<lparr>require_cap := b\<rparr>) failed x =
     (let (own', r) = propose_sub W own failed x in (own'\<lparr>require_cap := b\<rparr>, r))"
  by (simp add: propose_sub_def case_prod_unfold Let_def)

lemma serve_request_flag:
  "serve_request W (own\<lparr>require_cap := b\<rparr>) req now =
     map_option (\<lambda>(own', r). (own'\<lparr>require_cap := b\<rparr>, r)) (serve_request W own req now)"
proof (cases req)
  case (CreateSubscription name p grant)
  then show ?thesis
    by (cases "policy_validate p"; cases "validate_topic name")
      (simp_all only: serve_request.simps sum.case option.map prod.case propose_sub_flag Let_def owner.simps
        owner.update_convs split: if_split prod.split, simp)
qed (simp_all add: handle_lease_flag propose_sub_flag case_prod_unfold Let_def)

text \<open>So a control request that waits is one that is taken up when the wait is over and does not wait, but
  sees the gate as it was.\<close>

theorem interleaved_control_late:
  "control_at W own gated payload requester now =
     map_option (\<lambda>(own', r). (own'\<lparr>require_cap := require_cap own\<rparr>, r))
       (handle_control W (own\<lparr>require_cap := gated\<rparr>) payload requester now)"
proof -
  have "map_option (\<lambda>(own', r). (own'\<lparr>require_cap := require_cap own\<rparr>, r)) (serve_request W own req now) =
      serve_request W own req now" for req
    using serve_request_flag[of W "require_cap own" own req now] by simp
  then show ?thesis
    by (simp add: control_at_def handle_control_def serve_request_flag option.map_comp comp_def case_prod_unfold
        split: sum.split)
qed

text \<open>C20: A consumer is served as the gate stood when the request was taken up, whatever others do while
  it waits: if the gate was closed then, the request changes the owner's state, or returns messages or
  subscription names, only if it carries a grant that authorizes the requester to subscribe under the
  roots accepted when it is served.\<close>

theorem interleaved_control_authorized:
  assumes "require_cap own" "system_run es (own, hs) = Some (own1, hs1)"
    and "interleaved_control W (own, hs) payload requester now es = Some ((own', hs'), reply)"
    and "own' \<noteq> own1 \<or> (\<exists>ms. reply = Pulled ms) \<or> (\<exists>ns. reply = Subscriptions ns)"
  shows "\<exists>bs req grant. hex_decode (hexlib W) payload = Inr bs \<and> control_decode (json W) bs = Inr req \<and>
    request_grant req = Some grant \<and> authorize W own1 requester ABILITY_SUBSCRIBE grant now = Inr ()"
proof -
  obtain own2 where h: "handle_control W (own1\<lparr>require_cap := True\<rparr>) payload requester now = Some (own2, reply)"
    and own': "own' = own2\<lparr>require_cap := require_cap own1\<rparr>"
    using assms(1,2,3) by (auto simp: interleaved_control_def interleaved_control_late)
  have "own2 = own1\<lparr>require_cap := True\<rparr> \<Longrightarrow> own' = own1" by (simp add: own')
  with assms(4) have "own2 \<noteq> own1\<lparr>require_cap := True\<rparr> \<or> (\<exists>ms. reply = Pulled ms) \<or> (\<exists>ns. reply = Subscriptions ns)"
    by blast
  from gated_control_authorized[OF _ h this] show ?thesis by simp
qed

lemma interleaved_control_authorized_witness:
  "\<exists>(req :: control_request) grant. request_grant req = Some grant \<and>
     authorize (sample_world (ListSubscriptions (Some (grant_for ABILITY_SUBSCRIBE))) (bare_request []))
       (gated_owner\<lparr>require_cap := False\<rparr>) (node_text 2) ABILITY_SUBSCRIBE grant 100 = Inr ()"
proof -
  let ?req = "ListSubscriptions (Some (grant_for ABILITY_SUBSCRIBE))"
  let ?W = "sample_world ?req (bare_request [])" and ?hs = "new_token_set DEDUP_CAPACITY DEDUP_TTL_SECS"
    and ?open = "gated_owner\<lparr>require_cap := False\<rparr>"
  have cap: "require_cap gated_owner" by (simp add: gated_owner_def)
  have run: "system_run [Own_require False] (gated_owner, ?hs) = Some (?open, ?hs)"
    by (simp add: require_publish_cap_def)
  have "control_gate ?W gated_owner ?req (node_text 2) 100 = Inr ()"
    using gated_authorize[of ?req "bare_request []" ABILITY_SUBSCRIBE 100] cap by (simp add: control_gate_def)
  moreover have "hex_decode (hexlib ?W) [] = Inr []" "control_decode (json ?W) [] = Inr ?req"
    by (simp_all add: sample_world_def letter_hex_def sample_json_def control_decode_def)
  ultimately have "control_at ?W ?open True [] (node_text 2) 100 = Some (?open, Subscriptions (reg_names (own_subs ?open)))"
    using cap by (simp add: control_at_def is_high_cursor_def control_gate_def)
  with run cap have "interleaved_control ?W (gated_owner, ?hs) [] (node_text 2) 100 [Own_require False] =
      Some ((?open, ?hs), Subscriptions (reg_names (own_subs ?open)))"
    by (simp add: interleaved_control_def)
  from interleaved_control_authorized[OF cap run this] show ?thesis by auto
qed

section \<open>A topic is open until it is gated\<close>

text \<open>The workers of a topic run as soon as \<open>create_topic\<close> has returned, and the flag is then still off; the
  command \<open>create-topic --require-cap\<close> switches it on only afterwards.  A remote publish that is served in
  between is stored unauthenticated, also when it carries no grant.\<close>

theorem open_until_gated:
  assumes "create_topic node open_log open_subs open_bcast tp = Inr own"
    and "world_ok W" "owner_inv own" "cursor_room own" "ingest_decode_hex (hexlib W) (json W) payload = Inr req"
    and "handle_ingest W own token payload from now = (own', Some (Accepted c))"
  shows "\<exists>m. log_get (writer (require_publish_cap own' True)) c = Some m \<and> publisher m = from \<and>
    \<not> publisher_authenticated m"
proof -
  obtain cache where "\<not> require_cap own" and g: "cache_get (dedup_key token req) now (dedup own) = (cache, None)"
    using assms(1) by (auto simp: create_topic_def result_simps cache_get_def new_cache_def)
  then have own: "own\<lparr>require_cap := False\<rparr> = own" by (cases own) simp
  obtain own2 out where a: "apply_ingest W (own\<lparr>dedup := cache\<rparr>) req from now = (own2, out)"
    and out: "Some (Accepted c) = Some (case out of Inr c \<Rightarrow> Accepted c | Inl why \<Rightarrow> Ingest_rejected why)"
    and own': "writer own' = writer own2"
    by (rule handle_ingest_fresh[OF assms(5) g assms(6)]) (use that in simp)
  from a out obtain msg where msg: "ingest_message W own req from now = Inr msg"
    and app: "append_and_fanout W (own\<lparr>dedup := cache\<rparr>) msg = (own2, Inr c)"
    by (auto simp: apply_ingest_def result_simps split: sum.splits prod.splits)
  then have "ingest_admit W own False req from now = Inr (msg, append_read own)" by (simp add: ingest_admit_def own)
  from ingest_admit_Inr(1)[OF this] have "publisher msg = from" "\<not> publisher_authenticated msg" by (simp_all add: vouched_def)
  moreover have "log_inv (writer own)" "high_cursor (writer own) \<noteq> top_word"
    using assms(3,4) by (simp_all add: owner_inv_def cursor_room_def)
  from log_get_append_new[OF this, of msg] append_and_fanout_log(2)[OF assms(2) app refl]
  have "log_get (writer own') c = Some (msg\<lparr>msg_cursor := c\<rparr>)" by (simp add: own')
  ultimately show ?thesis by (simp add: require_publish_cap_def)
qed

lemma open_until_gated_witness:
  "\<exists>own' m. handle_ingest (sample_world list_request (bare_request [])) sample_owner 7 [] ''p'' 100 =
     (own', Some (Accepted 4)) \<and> log_get (writer (require_publish_cap own' True)) 4 = Some m \<and> \<not> publisher_authenticated m"
proof -
  have valid: "validate_topic ''orders'' = Inr ()" by (simp add: topic_char_def is_ascii_alphanumeric_def)
  have "create_topic ''o'' (\<lambda>_. Inr sample_log) (\<lambda>_. Inr sample_registry) (\<lambda>_. Inr ()) ''orders'' = Inr sample_owner"
    unfolding create_topic_def valid by (simp add: sample_owner_def)
  moreover obtain own' where h: "handle_ingest (sample_world list_request (bare_request [])) sample_owner 7 [] ''p'' 100 =
     (own', Some (Accepted 4))"
    using sample_publish by blast
  ultimately show ?thesis
    using open_until_gated[OF _ sample_world_ok sample_owner_inv sample_owner_room sample_decode_bare h] h by blast
qed

end
