(* ===== verification/Delivery_Spec.thy ===== *)
theory Delivery_Spec
  imports Delivery
begin

text \<open>
  What a subscription promises, without its representation: a ledger of settled cursors, of the time
  until which a cursor is held, and of how often it was tried.  There is no floor, no set of acks above
  it and no lease record.  The operations of \<open>src/src/subscription.rs\<close> refine it, with equal answers.
\<close>

section \<open>The ledger\<close>

record ledger =
  settled :: "cursor set"
  held :: "cursor \<Rightarrow> u64 option"
  tries :: "cursor \<Rightarrow> u32"
  terms :: subscription_policy

datatype (plugins del: "quickcheck") delivery_request =
    Lease_some cursor cursor u64 usize
  | Settle cursor
  | Release cursor
  | Set_terms subscription_policy

text \<open>What is due: published, retained, not settled and not held.\<close>

definition due :: "ledger \<Rightarrow> cursor \<Rightarrow> cursor \<Rightarrow> u64 \<Rightarrow> cursor list" where
  "due L high fl now =
     filter (\<lambda>c. c \<notin> settled L \<and> (case held L c of Some e \<Rightarrow> e \<le> now | None \<Rightarrow> True)) (cursors_upto (fl + 1) high)"

definition tried_out :: "ledger \<Rightarrow> cursor \<Rightarrow> bool" where
  "tried_out L c \<longleftrightarrow> max_delivery_attempts (terms L) \<noteq> 0 \<and> max_delivery_attempts (terms L) < tries L c + 1"

definition hold_until :: "ledger \<Rightarrow> u64 \<Rightarrow> u64" where
  "hold_until L now = sat_add now (min (max (ack_deadline_secs (terms L)) 1) MAX_ACK_DEADLINE_SECS)"

text \<open>A lease hands out what is due up to a count, settles what has been tried too often on the way, and
  settles what has been pruned.  The answer is what was handed out, with the number of the try, and
  what was given up.\<close>

definition hand_out ::
  "ledger \<Rightarrow> cursor \<Rightarrow> cursor \<Rightarrow> u64 \<Rightarrow> usize \<Rightarrow> ledger \<times> (cursor \<times> u32) list \<times> cursor list" where
  "hand_out L high fl now mx =
     (let (ls, dd) = pick (tried_out L) (unat (min mx MAX_LEASE_BATCH)) (due L high fl now) in
      if ls = [] \<and> dd = [] then (L, [], [])
      else
        (L\<lparr>settled := settled L \<union> set dd \<union> {c. c \<le> fl},
           held := \<lambda>c. if c \<in> set ls then Some (hold_until L now) else if c \<in> set dd then None else held L c,
           tries := \<lambda>c. if c \<in> set ls then tries L c + 1 else if c \<in> set dd then 0 else tries L c\<rparr>,
         map (\<lambda>c. (c, tries L c + 1)) ls, dd))"

fun ledger_step :: "ledger \<Rightarrow> delivery_request \<Rightarrow> ledger \<times> (cursor \<times> u32) list \<times> cursor list" where
  "ledger_step L (Lease_some high fl now mx) = hand_out L high fl now mx"
| "ledger_step L (Settle c) =
     (L\<lparr>settled := insert c (settled L), held := (held L)(c := None), tries := (tries L)(c := 0)\<rparr>, [], [])"
| "ledger_step L (Release c) =
     (L\<lparr>held := (held L)(c := map_option (\<lambda>_. 0) (held L c))\<rparr>, [], [])"
| "ledger_step L (Set_terms p) = (L\<lparr>terms := p\<rparr>, [], [])"

section \<open>The code's registry\<close>

fun registry_step ::
  "string \<Rightarrow> sub_registry \<Rightarrow> delivery_request \<Rightarrow> sub_registry \<times> (cursor \<times> u32) list \<times> cursor list" where
  "registry_step n r (Lease_some high fl now mx) =
     (case plan_lease r n high fl now mx of
        Some (Some (x, out)) \<Rightarrow> (apply_sub r x, leased out, dead_lettered out)
      | _ \<Rightarrow> (r, [], []))"
| "registry_step n r (Settle c) = (apply_sub r (Ack n c), [], [])"
| "registry_step n r (Release c) = (apply_sub r (Nack n c), [], [])"
| "registry_step n r (Set_terms p) = (apply_sub r (Create n p), [], [])"

fun run_requests :: "('s \<Rightarrow> 'q \<Rightarrow> 's \<times> 'o) \<Rightarrow> 's \<Rightarrow> 'q list \<Rightarrow> 's \<times> 'o list" where
  "run_requests act s [] = (s, [])"
| "run_requests act s (q # qs) =
     (let (s1, out) = act s q; (s2, outs) = run_requests act s1 qs in (s2, out # outs))"

text \<open>Every lease is planned with a floor up to the highest cursor, below the largest word, and not every
  cursor is settled.\<close>

fun requests_ok :: "ledger \<Rightarrow> delivery_request list \<Rightarrow> bool" where
  "requests_ok L [] = True"
| "requests_ok L (q # qs) =
     ((case q of Lease_some high fl now mx \<Rightarrow> fl \<le> high \<and> high \<noteq> top_word \<and> settled L \<noteq> UNIV | _ \<Rightarrow> True) \<and>
      requests_ok (fst (ledger_step L q)) qs)"

section \<open>The abstraction\<close>

definition ledger_of :: "subscription_state \<Rightarrow> ledger" where
  "ledger_of s = \<lparr>settled = handled s, held = \<lambda>c. map_option expires_at (fmlookup (leases s) c),
     tries = attempt_count s, terms = policy s\<rparr>"

lemma tried_out_ledger: "tried_out (ledger_of s) = exhausted s"
  by (simp add: fun_eq_iff tried_out_def exhausted_def ledger_of_def next_attempt_def)

lemma hold_until_ledger: "hold_until (ledger_of s) now = lease_expiry s now"
  by (simp add: hold_until_def lease_expiry_def ledger_of_def)

lemma due_ledger:
  assumes "max (acked s) fl \<noteq> top_word"
  shows "due (ledger_of s) high fl now = deliverable s high fl now"
proof -
  have fl: "fl \<noteq> top_word" using assms by (auto simp: max_def split: if_splits dest: word_order.extremum_uniqueI)
  have "c \<notin> handled s \<Longrightarrow> (case map_option expires_at (fmlookup (leases s) c) of Some e \<Rightarrow> e \<le> now | None \<Rightarrow> True) \<longleftrightarrow>
      \<not> withheld s now c" for c
    by (auto simp: withheld_def handled_iff not_less split: option.split)
  then have "set (due (ledger_of s) high fl now) = set (deliverable s high fl now)"
    unfolding set_deliverable[OF assms] by (auto simp: due_def ledger_of_def inc_le_iff[OF fl])
  moreover have "sorted_wrt (<) (due (ledger_of s) high fl now)"
    by (simp add: due_def sorted_cursors_upto sorted_wrt_filter)
  ultimately show ?thesis
    using sorted_deliverable[of s high fl now] by (metis strict_sorted_equal)
qed

lemma apply_lease_ledger:
  assumes "distinct ls" "set ls \<inter> set dd = {}"
  shows "ledger_of (apply_lease s (map (\<lambda>c. (c, e)) ls) dd na) =
    (ledger_of s)\<lparr>settled := handled s \<union> set dd \<union> {c. c \<le> na},
      held := \<lambda>c. if c \<in> set ls then Some e else if c \<in> set dd then None else held (ledger_of s) c,
      tries := \<lambda>c. if c \<in> set ls then attempt_count s c + 1 else if c \<in> set dd then 0 else attempt_count s c\<rparr>"
proof -
  let ?u = "foldl mark_dead s dd" and ?ls = "map (\<lambda>c. (c, e)) ls"
  have pt: "fmlookup (leases (foldl add_lease ?u ?ls)) c =
      (if c \<in> set ls then Some \<lparr>lease_cursor = c, expires_at = e, lease_attempts = attempt_count s c + 1\<rparr>
       else if c \<in> set dd then None else fmlookup (leases s) c) \<and>
    attempt_count (foldl add_lease ?u ?ls) c =
      (if c \<in> set ls then attempt_count s c + 1 else if c \<in> set dd then 0 else attempt_count s c)" for c
  proof (cases "c \<in> set ls")
    case True
    moreover have "attempt_count ?u c = attempt_count s c"
      using True assms(2) by (auto simp: attempt_count_def mark_dead_fold)
    ultimately show ?thesis
      using add_lease_fold_leased[of c e ?ls ?u] assms(1) by (auto simp: comp_def attempt_count_def)
  next
    case False
    then show ?thesis
      using add_lease_fold_other[of c ?ls ?u] by (auto simp: image_image attempt_count_def mark_dead_fold)
  qed
  have "leases (apply_lease s ?ls dd na) = leases (foldl add_lease ?u ?ls)"
    "attempt_count (apply_lease s ?ls dd na) = attempt_count (foldl add_lease ?u ?ls)"
    by (simp_all add: apply_lease_def attempt_count_def fun_eq_iff)
  then show ?thesis
    using pt by (simp add: ledger_of_def handled_apply_lease apply_lease_fields(2) fun_eq_iff)
qed

section \<open>The simulation\<close>

lemma lease_step_ledger:
  assumes req: "lease_request F r n s high fl"
  shows "\<exists>s'. reg_get (fst (registry_step n r (Lease_some high fl now mx))) n = Some s' \<and> sub_inv s' \<and>
    hand_out (ledger_of s) high fl now mx = (ledger_of s', snd (registry_step n r (Lease_some high fl now mx)))"
proof -
  from req have s: "reg_get r n = Some s" "sub_inv s" "high \<noteq> top_word"
    by (simp_all add: lease_request_def)
  note top = lease_request_top[OF req]
  obtain ls dd where p: "lease_picked s high fl now mx = (ls, dd)" by fastforce
  then have picked: "pick (tried_out (ledger_of s)) (unat (min mx MAX_LEASE_BATCH)) (due (ledger_of s) high fl now) = (ls, dd)"
    by (simp add: lease_picked_def tried_out_ledger due_ledger[OF top])
  show ?thesis
  proof (cases "plan_lease r n high fl now mx")
    case None
    have False
      by (rule plan_lease_cases[OF s(1) sub_invD(1)[OF s(2)] s(3) top, of now mx]) (simp_all add: None)
    then show ?thesis ..
  next
    case (Some plan)
    show ?thesis
    proof (cases plan)
      case None
      then have "lease_picked s high fl now mx = ([], [])"
        using plan_lease_none[OF req, of now mx] Some by (simp add: lease_picked_def pick_empty_iff lease_room_0)
      with p have "ls = [] \<and> dd = []" by simp
      then show ?thesis using s Some None picked by (simp add: hand_out_def)
    next
      fix xo assume "plan = Some xo"
      then obtain x out where plan: "plan_lease r n high fl now mx = Some (Some (x, out))" using Some by (cases xo) simp
      obtain na where out: "out = \<lparr>leased = map (\<lambda>c. (c, next_attempt s c)) ls, dead_lettered = dd\<rparr>"
        and get: "reg_get (apply_sub r x) n = Some (apply_lease s (map (\<lambda>c. (c, lease_expiry s now)) ls) dd na)"
        and lsdd: "set ls \<inter> set dd = {}" "sorted_wrt (<) ls" and na: "max (acked s) fl \<le> na"
        and new: "\<And>e. e \<le> na \<Longrightarrow> e \<in> handled s \<or> e \<le> fl \<or> e \<in> set dd"
        by (rule planned_leaseE[OF req plan]) (use p in force)
      have "{c. c \<le> fl} \<subseteq> {c. c \<le> na}" using na by (auto intro: order_trans)
      then have settled: "handled s \<union> set dd \<union> {c. c \<le> na} = handled s \<union> set dd \<union> {c. c \<le> fl}" using new by blast
      have "lease_picked s high fl now mx \<noteq> ([], [])"
        using plan_lease_none[OF req, of now mx] plan by (simp add: lease_picked_def pick_empty_iff lease_room_0)
      with p have ne: "\<not> (ls = [] \<and> dd = [])" by simp
      have "distinct ls" using lsdd(2) by (simp add: strict_sorted_iff)
      from apply_lease_ledger[OF this lsdd(1), of s "lease_expiry s now" na] planned_lease_inv(1)[OF req plan get]
      show ?thesis unfolding settled
        by (simp add: plan get hand_out_def picked ne out hold_until_ledger next_attempt_def cong: if_cong)
          (simp add: ledger_of_def cong: if_cong)
    qed
  qed
qed

lemma step_ledger:
  assumes s: "reg_get r n = Some s" "sub_inv s"
    and ok: "case q of Lease_some high fl now mx \<Rightarrow> fl \<le> high \<and> high \<noteq> top_word \<and> handled s \<noteq> UNIV | _ \<Rightarrow> True"
  shows "\<exists>s'. reg_get (fst (registry_step n r q)) n = Some s' \<and> sub_inv s' \<and>
    ledger_step (ledger_of s) q = (ledger_of s', snd (registry_step n r q))"
proof (cases q)
  case (Lease_some high fl now mx)
  have "acked s \<noteq> top_word" using ok by (auto simp: Lease_some handled_def)
  then have "lease_request fl r n s high fl" using s ok by (simp add: Lease_some lease_request_def)
  from lease_step_ledger[OF this] show ?thesis by (simp add: Lease_some)
next
  case (Settle c)
  then show ?thesis using s sub_inv_ack[OF s(2), of c] handled_ack[OF sub_invD(1)[OF s(2)], of c]
    by (auto simp: reg_get_apply ledger_of_def ack_leases attempt_count_def fun_eq_iff)
next
  case (Release c)
  then show ?thesis using s sub_inv_nack[OF s(2), of c]
    by (auto simp: reg_get_apply ledger_of_def attempt_count_def fun_eq_iff handled_def apply_nack_def
        split: option.split)
next
  case (Set_terms p)
  then show ?thesis using s
    by (auto simp: reg_get_apply ledger_of_def attempt_count_def sub_inv_policy fun_eq_iff)
qed

section \<open>Property\<close>

text \<open>C4: The registry refines the ledger: for every sequence of leases, acks, nacks and changes of policy on a
  subscription, the code answers exactly what the ledger answers, and its state after it stands for
  the ledger's.\<close>

theorem subscription_refines_ledger:
  assumes "reg_inv r" "reg_get r n = Some s" "requests_ok (ledger_of s) qs"
  shows "\<exists>s'. reg_get (fst (run_requests (registry_step n) r qs)) n = Some s' \<and>
    run_requests ledger_step (ledger_of s) qs = (ledger_of s', snd (run_requests (registry_step n) r qs))"
proof -
  have "sub_inv s" by (rule reg_invD[OF assms(1,2)])
  with assms(2,3) show ?thesis
  proof (induction qs arbitrary: r s)
    case (Cons q qs)
    obtain r1 out where r1: "registry_step n r q = (r1, out)" by (metis surj_pair)
    have "case q of Lease_some high fl now mx \<Rightarrow> fl \<le> high \<and> high \<noteq> top_word \<and> handled s \<noteq> UNIV | _ \<Rightarrow> True"
      using Cons.prems(2) by (cases q) (simp_all add: ledger_of_def)
    from step_ledger[OF Cons.prems(1,3) this] obtain s1 where s1: "reg_get r1 n = Some s1" "sub_inv s1"
      and L: "ledger_step (ledger_of s) q = (ledger_of s1, out)"
      by (auto simp: r1)
    have "requests_ok (ledger_of s1) qs" using Cons.prems(2) L by simp
    from Cons.IH[OF s1(1) this s1(2)] show ?case by (auto simp: r1 L split: prod.split)
  qed simp
qed

lemma subscription_refines_ledger_witness:
  "snd (run_requests ledger_step (ledger_of default_state) [Lease_some 3 0 100 2, Settle 2, Release 1]) =
     [([(1, 1), (2, 1)], []), ([], []), ([], [])]"
proof -
  let ?qs = "[Lease_some 3 0 100 2, Settle 2, Release 1]"
  have "1 \<notin> settled (ledger_of default_state)" by (simp add: ledger_of_def handled_iff default_state_def)
  then have "requests_ok (ledger_of default_state) ?qs" by auto
  from subscription_refines_ledger[OF sample_inv _ this, of "''s''"]
  have "snd (run_requests ledger_step (ledger_of default_state) ?qs) =
      snd (run_requests (registry_step ''s'') sample_registry ?qs)" by auto
  then show ?thesis using sample_plan by simp
qed

end
