(* ===== verification/Walkthrough.thy ===== *)
theory Walkthrough
  imports Delivery Display Topic_Log
begin

text \<open>
  The walkthrough of \<open>src/examples/end_to_end.rs\<close> on the model: it appends to a log, replays and prunes
  it, and takes a subscription through lease, ack, redelivery and dead-lettering.  Its assertions are
  part of the model; that none of them fails shows the model in step with the repository's own account
  of what the two machines do.
\<close>

section \<open>The program\<close>

text \<open>A printed line, without its wording, and how the program ends.\<close>

datatype walk_line =
    Appended string cursor
  | Replaying nat
  | Replayed cursor string
  | After_prune nat u64 cursor
  | Leased_pairs "(cursor \<times> u32) list"
  | Acked_floor cursor
  | Redelivered "(cursor \<times> u32) list"
  | Dead_lettered "cursor list"
  | Final_floor cursor
  | All_behaved

datatype walk_end = Walk_done | Walk_panicked

text \<open>The loop over the four bodies; the second component of an item is what the clock says at that turn.\<close>

fun walk_append :: "hex_codec \<Rightarrow> (string \<times> u64) list \<Rightarrow> topic_log \<Rightarrow> topic_log \<times> walk_line list" where
  "walk_append hx [] log = (log, [])"
| "walk_append hx ((body, now) # bodies) log =
     (let cursor = next_cursor log;
          log1 = apply_log log (Append (new_message hx cursor ''owner'' (map of_char body) now));
          (log2, ls) = walk_append hx bodies log1 in
      (log2, Appended body cursor # ls))"

definition walk_log :: "hex_codec \<Rightarrow> (nat \<Rightarrow> u64) \<Rightarrow> topic_log \<times> walk_line list \<times> walk_end" where
  "walk_log hx clock =
     (let (log, ls) = walk_append hx
            [(''order-1'', clock 0), (''order-2'', clock 1), (''order-3'', clock 2), (''order-4'', clock 3)] empty_log;
          tail = log_since log 2;
          ls1 = ls @ Replaying (length tail) # map (\<lambda>m. Replayed (msg_cursor m) (message_text hx m)) tail;
          log1 = apply_log log (PruneTo 2);
          ls2 = ls1 @ [After_prune (log_len log1) (log_floor log1) (high_cursor log1)] in
      (log1, ls2,
       if map msg_cursor (take 1 (log_all log1)) = [3] then Walk_done else Walk_panicked))"

text \<open>The loop that lets the lease time out until the message is dead-lettered.\<close>

partial_function (option) walk_dead ::
  "sub_registry \<Rightarrow> cursor \<Rightarrow> cursor \<Rightarrow> u64 \<Rightarrow> (sub_registry \<times> walk_line list) option" where
  "walk_dead r high fl t =
     (let t1 = t + 31 in
      Option.bind (plan_lease r ''workers'' high fl t1 10) (\<lambda>plan.
      case plan of
        None \<Rightarrow> Some (r, [])
      | Some (x, out) \<Rightarrow>
          (let r1 = apply_sub r x in
           if dead_lettered out \<noteq> [] then Some (r1, [Dead_lettered (dead_lettered out)])
           else walk_dead r1 high fl t1)))"

definition walk_end_check :: "sub_registry \<Rightarrow> cursor \<Rightarrow> walk_line list \<times> walk_end" where
  "walk_end_check r high =
     (case reg_get r ''workers'' of
        None \<Rightarrow> ([], Walk_panicked)
      | Some st \<Rightarrow>
          if acked st = high then ([Final_floor (acked st), All_behaved], Walk_done)
          else ([Final_floor (acked st)], Walk_panicked))"

text \<open>The second half, from a lease at time 1000; \<open>None\<close> is not returning.\<close>

definition walk_subs :: "cursor \<Rightarrow> cursor \<Rightarrow> (walk_line list \<times> walk_end) option" where
  "walk_subs high fl =
     (let r = apply_sub empty_registry
            (Create ''workers'' \<lparr>ack_deadline_secs = 30, max_delivery_attempts = 3\<rparr>); t0 = 1000 in
      Option.bind (plan_lease r ''workers'' high fl t0 10) (\<lambda>plan.
      case plan of
        None \<Rightarrow> Some ([], Walk_panicked)
      | Some (x, out) \<Rightarrow>
          (let r1 = apply_sub r x; ls1 = [Leased_pairs (leased out)] in
           if leased out \<noteq> [(3, 1), (4, 1)] then Some (ls1, Walk_panicked)
           else
             (let r2 = apply_sub r1 (Ack ''workers'' 3) in
              case reg_get r2 ''workers'' of
                None \<Rightarrow> Some (ls1, Walk_panicked)
              | Some st \<Rightarrow>
                  (let ls2 = ls1 @ [Acked_floor (acked st)]; t1 = t0 + 31 in
                   Option.bind (plan_lease r2 ''workers'' high fl t1 10) (\<lambda>plan.
                   case (case plan of
                           None \<Rightarrow> (r2, ls2, True)
                         | Some (x, out) \<Rightarrow>
                             (apply_sub r2 x, ls2 @ [Redelivered (leased out)], leased out = [(4, 2)])) of
                     (r3, ls3, fine) \<Rightarrow>
                       if \<not> fine then Some (ls3, Walk_panicked)
                       else
                         Option.bind (walk_dead r3 high fl t1) (\<lambda>(r4, ls4).
                           let (ls5, e) = walk_end_check r4 high in Some (ls3 @ ls4 @ ls5, e))))))))"

definition walkthrough :: "hex_codec \<Rightarrow> (nat \<Rightarrow> u64) \<Rightarrow> (walk_line list \<times> walk_end) option" where
  "walkthrough hx clock =
     (case walk_log hx clock of
        (log, ls, Walk_panicked) \<Rightarrow> Some (ls, Walk_panicked)
      | (log, ls, Walk_done) \<Rightarrow>
          map_option (\<lambda>(ls1, e). (ls @ ls1, e)) (walk_subs (high_cursor log) (log_floor log)))"

section \<open>The run\<close>

text \<open>The subscription with cursor 4 leased up to \<open>e\<close>, delivered \<open>k\<close> times, and everything below acked.\<close>

definition walk_state :: "u64 \<Rightarrow> u32 \<Rightarrow> subscription_state" where
  "walk_state e k = \<lparr>acked = 3, leases = fmupd 4 \<lparr>lease_cursor = 4, expires_at = e, lease_attempts = k\<rparr> fmempty,
     attempts = fmupd 4 k fmempty, dead = fmempty, acked_set = fmempty,
     policy = \<lparr>ack_deadline_secs = 30, max_delivery_attempts = 3\<rparr>\<rparr>"

lemma new_message_cursor:
  "msg_cursor (new_message hx c pub payload at) = c"
  "(new_message hx c pub payload at)\<lparr>msg_cursor := d\<rparr> = new_message hx d pub payload at"
  by (simp_all add: new_message_def)

lemma walk_log_result:
  assumes "hex_contract hx"
  shows "\<exists>log. walk_log hx clock =
    (log, [Appended ''order-1'' 1, Appended ''order-2'' 2, Appended ''order-3'' 3, Appended ''order-4'' 4,
       Replaying 2, Replayed 3 ''order-3'', Replayed 4 ''order-4'', After_prune 2 2 4], Walk_done) \<and>
    high_cursor log = 4 \<and> log_floor log = 2"
proof -
  have "message_text hx (new_message hx 3 ''owner'' (map of_char ''order-3'') at) = ''order-3''"
    "message_text hx (new_message hx 4 ''owner'' (map of_char ''order-4'') at) = ''order-4''" for at
    by (rule ascii_text[OF assms]; simp)+
  then show ?thesis
    by (simp add: walk_log_def Let_def next_cursor_def high_cursor_def empty_log_def log_since_def log_all_def
        log_len_def apply_log.simps new_message_cursor word_less_nat_alt)
qed

lemmas walk_simps = plan_lease_def scan_lease.simps bridge_floor.simps withheld_def exhausted_def next_attempt_def
  attempt_count_def lease_expiry_def sat_add_def empty_scan_def MAX_LEASE_BATCH_def MAX_ACK_DEADLINE_SECS_def
  min_def max_def word_le_nat_alt Let_def

lemma walk_first_lease:
  "plan_lease (apply_sub empty_registry (Create ''workers'' \<lparr>ack_deadline_secs = 30, max_delivery_attempts = 3\<rparr>))
     ''workers'' 4 2 1000 10 =
   Some (Some (ApplyLease ''workers'' [(3, 1030), (4, 1030)] [] 2, \<lparr>leased = [(3, 1), (4, 1)], dead_lettered = []\<rparr>))"
  by (simp add: walk_simps reg_get_apply default_state_def)

lemma walk_first_ack:
  "apply_ack (apply_lease (default_state\<lparr>policy := \<lparr>ack_deadline_secs = 30, max_delivery_attempts = 3\<rparr>\<rparr>)
     [(3, 1030), (4, 1030)] [] 2) 3 = walk_state 1030 1"
  by (simp add: walk_state_def default_state_def apply_lease_def add_lease_def raise_floor_def apply_ack_def
      advance_acked.simps attempt_count_def Let_def fmdrop_fmupd cong del: fmfilter_cong)

lemma walk_next_lease:
  assumes "reg_get r ''workers'' = Some (walk_state e k)" "(e, k, now) \<in> {(1030, 1, 1031), (1061, 2, 1062)}"
  shows "plan_lease r ''workers'' 4 2 now 10 =
    Some (Some (ApplyLease ''workers'' [(4, now + 30)] [] 3, \<lparr>leased = [(4, k + 1)], dead_lettered = []\<rparr>))"
  using assms by (auto simp: walk_simps walk_state_def)

lemma walk_next_state: "apply_lease (walk_state e k) [(4, e')] [] 3 = walk_state e' (k + 1)"
  by (simp add: walk_state_def apply_lease_def add_lease_def raise_floor_def attempt_count_def Let_def
      cong del: fmfilter_cong)

lemma walk_last_lease:
  assumes "reg_get r ''workers'' = Some (walk_state 1092 3)"
  shows "plan_lease r ''workers'' 4 2 1093 10 =
    Some (Some (ApplyLease ''workers'' [] [4] 4, \<lparr>leased = [], dead_lettered = [4]\<rparr>))"
  using assms by (simp add: walk_simps walk_state_def)

lemma walk_dead_result:
  assumes "reg_get r ''workers'' = Some (walk_state 1061 2)"
  shows "\<exists>r'. walk_dead r 4 2 1031 = Some (r', [Dead_lettered [4]]) \<and> walk_end_check r' 4 = ([Final_floor 4, All_behaved], Walk_done)"
proof -
  define r1 where "r1 = apply_sub r (ApplyLease ''workers'' [(4, 1092)] [] 3)"
  define r2 where "r2 = apply_sub r1 (ApplyLease ''workers'' [] [4] 4)"
  have r1: "reg_get r1 ''workers'' = Some (walk_state 1092 3)"
    using assms by (simp add: r1_def reg_get_apply walk_next_state)
  have "walk_dead r 4 2 1031 = walk_dead r1 4 2 1062"
    using walk_next_lease[OF assms, of 1062] by (subst walk_dead.simps) (simp add: Let_def r1_def)
  also have "\<dots> = Some (r2, [Dead_lettered [4]])"
    using walk_last_lease[OF r1] by (subst walk_dead.simps) (simp add: Let_def r2_def)
  finally have "walk_dead r 4 2 1031 = Some (r2, [Dead_lettered [4]])" .
  moreover have "walk_end_check r2 4 = ([Final_floor 4, All_behaved], Walk_done)"
    using r1 by (simp add: walk_end_check_def r2_def reg_get_apply apply_lease_fields) (simp add: walk_state_def)
  ultimately show ?thesis by blast
qed

lemma walk_subs_result:
  "walk_subs 4 2 = Some ([Leased_pairs [(3, 1), (4, 1)], Acked_floor 3, Redelivered [(4, 2)], Dead_lettered [4],
     Final_floor 4, All_behaved], Walk_done)"
proof -
  define r where "r = apply_sub empty_registry (Create ''workers'' \<lparr>ack_deadline_secs = 30, max_delivery_attempts = 3\<rparr>)"
  define r2 where "r2 = apply_sub (apply_sub r (ApplyLease ''workers'' [(3, 1030), (4, 1030)] [] 2)) (Ack ''workers'' 3)"
  define r3 where "r3 = apply_sub r2 (ApplyLease ''workers'' [(4, 1061)] [] 3)"
  have r2: "reg_get r2 ''workers'' = Some (walk_state 1030 1)"
    by (simp add: r2_def r_def reg_get_apply walk_first_ack)
  have r3: "reg_get r3 ''workers'' = Some (walk_state 1061 2)"
    by (simp add: r3_def reg_get_apply r2 walk_next_state)
  obtain r4 where "walk_dead r3 4 2 1031 = Some (r4, [Dead_lettered [4]])"
    "walk_end_check r4 4 = ([Final_floor 4, All_behaved], Walk_done)"
    using walk_dead_result[OF r3] by blast
  moreover have "acked (walk_state 1030 1) = 3" by (simp add: walk_state_def)
  ultimately show ?thesis
    using walk_first_lease[folded r_def] walk_next_lease[OF r2, of 1031]
    by (simp add: walk_subs_def Let_def r_def[symmetric] r2_def[symmetric] r2 r3_def[symmetric])
qed

text \<open>The walkthrough runs to its end, whatever the clock says: no assertion fails, the dead-letter loop
  ends, and what it prints is what the comments of the example announce.\<close>

theorem walkthrough_succeeds:
  assumes "hex_contract hx"
  shows "walkthrough hx clock = Some
    ([Appended ''order-1'' 1, Appended ''order-2'' 2, Appended ''order-3'' 3, Appended ''order-4'' 4, Replaying 2,
      Replayed 3 ''order-3'', Replayed 4 ''order-4'', After_prune 2 2 4, Leased_pairs [(3, 1), (4, 1)], Acked_floor 3,
      Redelivered [(4, 2)], Dead_lettered [4], Final_floor 4, All_behaved], Walk_done)"
  using walk_log_result[OF assms, of clock] walk_subs_result by (auto simp: walkthrough_def)

lemma walkthrough_succeeds_witness: "map_option snd (walkthrough letter_hex (\<lambda>i. of_nat i)) = Some Walk_done"
  using walkthrough_succeeds[OF letter_hex_contract] by simp

end
