(* ===== verification/Library_Tests.thy ===== *)
theory Library_Tests
  imports Display Owner Reader
begin

text \<open>
  The unit tests at the end of \<open>src/src/dedup.rs\<close>, \<open>message.rs\<close>, \<open>protocol.rs\<close>, \<open>caps.rs\<close> and \<open>lib.rs\<close>, as
  programs on the model: each definition is the body of the test of its name and is true when the test
  ends with every assertion met.  The tests whose point is the JSON codec or the capability library,
  parameters of the model, are in \<open>Wire_Tests\<close>, \<open>Link_Tests\<close> and \<open>Edge_Tests\<close>.
\<close>

section \<open>The caches\<close>

definition token_set_dedups_within_ttl :: bool where
  "token_set_dedups_within_ttl =
     (let (s1, a) = token_seen 1 10 (new_token_set 8 100); (s2, b) = token_seen 1 20 s1; (s3, c) = token_seen 1 200 s2 in
      \<not> a \<and> b \<and> \<not> c)"

definition token_set_evicts_oldest_at_capacity :: bool where
  "token_set_evicts_oldest_at_capacity =
     (let (s1, _) = token_seen 1 0 (new_token_set 2 0); (s2, _) = token_seen 2 0 s1; (s3, _) = token_seen 3 0 s2;
          (s4, a) = token_seen 1 0 s3; (s5, b) = token_seen 3 0 s4 in
      \<not> a \<and> b)"

definition insert_and_get :: bool where
  "insert_and_get =
     (let (c1, a) = cache_get ''a'' 0 (new_cache 4 100); c2 = cache_insert ''a'' (Seen_cursor 7) 0 c1;
          (c3, b) = cache_get ''a'' 0 c2; c4 = cache_insert ''b'' Seen_handled 0 c3; (c5, d) = cache_get ''b'' 0 c4 in
      a = None \<and> b = Some (Seen_cursor 7) \<and> d = Some Seen_handled)"

definition fifo_eviction_keeps_recent_drops_oldest :: bool where
  "fifo_eviction_keeps_recent_drops_oldest =
     (let c = foldl (\<lambda>c k. cache_insert k (Seen_cursor 1) 0 c) (new_cache 3 0) [''a'', ''b'', ''c''];
          c1 = cache_insert ''d'' (Seen_cursor 1) 0 c; (c2, a) = cache_get ''a'' 0 c1; (c3, b) = cache_get ''b'' 0 c2;
          (c4, d) = cache_get ''c'' 0 c3; (c5, e) = cache_get ''d'' 0 c4 in
      cache_len c = 3 \<and> cache_len c1 = 3 \<and> a = None \<and> b \<noteq> None \<and> d \<noteq> None \<and> e \<noteq> None)"

definition retry_within_window_is_deduped_not_lost :: bool where
  "retry_within_window_is_deduped_not_lost =
     (let c = cache_insert ''filler1'' (Seen_cursor 1) 11 (cache_insert ''recent'' (Seen_cursor 42) 10 (new_cache 2 1000)) in
      snd (cache_get ''recent'' 12 c) = Some (Seen_cursor 42))"

definition ttl_expiry_drops_stale :: bool where
  "ttl_expiry_drops_stale =
     (let (c1, a) = cache_get ''a'' 104 (cache_insert ''a'' (Seen_cursor 1) 100 (new_cache 10 5)) in
      a = Some (Seen_cursor 1) \<and> snd (cache_get ''a'' 200 c1) = None)"

definition reinsert_updates_in_place :: bool where
  "reinsert_updates_in_place =
     (let c = cache_insert ''a'' (Seen_cursor 2) 0 (cache_insert ''a'' (Seen_cursor 1) 0 (new_cache 2 0));
          (c1, a) = cache_get ''a'' 0 c in
      a = Some (Seen_cursor 2) \<and> cache_len c1 = 1)"

definition zero_ttl_never_expires :: bool where
  "zero_ttl_never_expires =
     (snd (cache_get ''a'' top_word (cache_insert ''a'' (Seen_cursor 1) 0 (new_cache 10 0))) = Some (Seen_cursor 1))"

lemmas cache_test_simps = token_seen_def new_token_set_def cache_get_def cache_insert_def new_cache_def cache_len_def
  map_len_upd map_len_drop fmdrop_fmupd sat_sub_def word_le_nat_alt word_less_nat_alt Let_def

theorem dedup_tests_pass:
  "token_set_dedups_within_ttl \<and> token_set_evicts_oldest_at_capacity \<and> insert_and_get \<and>
   fifo_eviction_keeps_recent_drops_oldest \<and> retry_within_window_is_deduped_not_lost \<and> ttl_expiry_drops_stale \<and>
   reinsert_updates_in_place \<and> zero_ttl_never_expires"
proof (intro conjI)
  show token_set_dedups_within_ttl by (simp add: token_set_dedups_within_ttl_def cache_test_simps)
  show token_set_evicts_oldest_at_capacity by (simp add: token_set_evicts_oldest_at_capacity_def cache_test_simps)
  show insert_and_get by (simp add: insert_and_get_def cache_test_simps)
  show fifo_eviction_keeps_recent_drops_oldest by (simp add: fifo_eviction_keeps_recent_drops_oldest_def cache_test_simps)
  show retry_within_window_is_deduped_not_lost by (simp add: retry_within_window_is_deduped_not_lost_def cache_test_simps)
  show ttl_expiry_drops_stale by (simp add: ttl_expiry_drops_stale_def cache_test_simps)
  show reinsert_updates_in_place by (simp add: reinsert_updates_in_place_def cache_test_simps)
  show zero_ttl_never_expires by (simp add: zero_ttl_never_expires_def cache_test_simps)
qed

section \<open>Messages, names and options\<close>

definition message_roundtrips_payload :: "hex_codec \<Rightarrow> bool" where
  "message_roundtrips_payload hx =
     (let m = new_message hx 7 ''abc'' (map of_char ''hello world'') 1700000000 in
      msg_cursor m = 7 \<and> publisher m = ''abc'' \<and> unwrap_ok (message_data hx m) (\<lambda>bs. bs = map of_char ''hello world'') \<and>
      message_text hx m = ''hello world'')"

definition validate_topic_accepts_reasonable_names :: bool where
  "validate_topic_accepts_reasonable_names =
     list_all (\<lambda>t. is_ok (validate_topic t)) [''orders'', ''orders.eu'', ''a-b_c:d'', ''T0pic'', ''x'']"

definition validate_topic_rejects_bad_names :: bool where
  "validate_topic_rejects_bad_names =
     list_all (\<lambda>t. \<not> is_ok (validate_topic t)) ['''', ''has space'', ''slash/here'', replicate 201 (CHR ''x'')]"

definition mesh_names_are_namespaced_and_distinct :: bool where
  "mesh_names_are_namespaced_and_distinct =
     (let names = [log_name ''t'', live_topic ''t'', ingest_topic ''t'', control_topic ''t'', subs_log_name ''t''] in
      list_all (\<lambda>n. starts_with n ''ce-pubsub.'') names \<and> distinct names)"

definition dead_letter_name :: bool where
  "dead_letter_name \<longleftrightarrow> dead_letter_topic ''orders'' = ''orders.dlq''"

definition payload_size_limit_enforced :: bool where
  "payload_size_limit_enforced \<longleftrightarrow> is_ok (validate_payload (replicate 100 0)) \<and>
     is_ok (validate_payload (replicate MAX_PAYLOAD_BYTES 0)) \<and>
     \<not> is_ok (validate_payload (replicate (MAX_PAYLOAD_BYTES + 1) 0))"

definition attribute_bounds_enforced :: bool where
  "attribute_bounds_enforced \<longleftrightarrow>
     is_ok (validate_attributes (fmupd ''k'' ''v'' fmempty)) \<and> \<not> is_ok (validate_attributes (fmupd [] ''v'' fmempty)) \<and>
     \<not> is_ok (validate_attributes (fmupd ''k'' (replicate (MAX_ATTRIBUTE_LEN + 1) (CHR ''x'')) fmempty)) \<and>
     \<not> is_ok (validate_attributes (fmap_of_list (map (\<lambda>i. (''k'' @ decimal i, ''v'')) [0..<Suc MAX_ATTRIBUTES])))"

definition publish_options_builder_and_validate :: bool where
  "publish_options_builder_and_validate =
     (let opts = options_attribute (options_attribute (options_ordering_key new_options ''region-eu'')
            ''kind'' ''order'') ''priority'' ''high'';
          bad = options_ordering_key new_options (replicate (MAX_ATTRIBUTE_LEN + 1) (CHR ''x'')) in
      opt_ordering_key opts = Some ''region-eu'' \<and> map_len (opt_attributes opts) = 2 \<and>
      is_ok (options_validate opts) \<and> \<not> is_ok (options_validate bad))"

definition message_builders_set_fields :: "hex_codec \<Rightarrow> bool" where
  "message_builders_set_fields hx =
     (let attrs = fmupd ''kind'' ''order'' fmempty;
          m = authenticated (with_attributes (with_ordering_key (new_message hx 1 ''n'' (map of_char ''hi'') 1) ''k1'') attrs) True in
      ordering_key m = Some ''k1'' \<and> attributes m = attrs \<and> publisher_authenticated m)"

text \<open>The test-only helper that adds one attribute.\<close>

definition attribute_for_test :: "message \<Rightarrow> string \<Rightarrow> string \<Rightarrow> message" where
  "attribute_for_test m k v = m\<lparr>attributes := fmupd k v (attributes m)\<rparr>"

definition attribute_filter_matches_exact :: "hex_codec \<Rightarrow> bool" where
  "attribute_filter_matches_exact hx =
     (let m = attribute_for_test (new_message hx 1 ''n'' (map of_char ''x'') 1) ''kind'' ''order'';
          m2 = attribute_for_test m ''priority'' ''high''; req = filter_require in
      filter_matches filter_any m \<and> filter_matches (req filter_any ''kind'' ''order'') m \<and>
      \<not> filter_matches (req filter_any ''kind'' ''payment'') m \<and> \<not> filter_matches (req filter_any ''missing'' ''x'') m \<and>
      filter_matches (req (req filter_any ''kind'' ''order'') ''priority'' ''high'') m2 \<and>
      \<not> filter_matches (req (req filter_any ''kind'' ''order'') ''priority'' ''low'') m2)"

definition quoted :: "string \<Rightarrow> string" where
  "quoted s = CHR 0x22 # s @ [CHR 0x22]"

definition attribute_filter_parse :: "hex_codec \<Rightarrow> bool" where
  "attribute_filter_parse hx =
     (let m = attribute_for_test (attribute_for_test (new_message hx 1 ''n'' (map of_char ''x'') 1) ''kind'' ''order'')
            ''priority'' ''high'' in
      unwrap_ok (filter_parse (''kind='' @ quoted ''order'' @ '' priority='' @ quoted ''high'')) (\<lambda>f. filter_matches f m) \<and>
      unwrap_ok (filter_parse (''attributes.kind == '' @ quoted ''order'')) (\<lambda>f. filter_matches f m) \<and>
      unwrap_ok (filter_parse ''   '') filter_is_empty \<and>
      \<not> is_ok (filter_parse ''kind=order'') \<and> \<not> is_ok (filter_parse (''kind='' @ CHR 0x22 # ''order'')) \<and>
      \<not> is_ok (filter_parse (''='' @ quoted ''v'')))"

lemma message_tests:
  assumes "hex_contract hx"
  shows "message_roundtrips_payload hx" and "message_builders_set_fields hx" and "attribute_filter_matches_exact hx"
proof -
  have "message_text hx (new_message hx 7 ''abc'' (map of_char ''hello world'') 1700000000) = ''hello world''"
    by (rule ascii_text[OF assms]) simp
  moreover have "message_data hx (new_message hx c p payload at) = Inr payload" for c p payload at
    using hex_contractD(1)[OF assms, of payload] by (simp add: message_data_def new_message_def)
  ultimately show "message_roundtrips_payload hx"
    by (simp add: message_roundtrips_payload_def Let_def) (simp add: new_message_def)
  show "message_builders_set_fields hx"
    by (simp add: message_builders_set_fields_def authenticated_def with_attributes_def with_ordering_key_def Let_def)
  show "attribute_filter_matches_exact hx"
    by (simp add: attribute_filter_matches_exact_def filter_matches_require attribute_for_test_def new_message_def Let_def)
qed

lemma name_tests:
  shows validate_topic_accepts_reasonable_names and validate_topic_rejects_bad_names
    and mesh_names_are_namespaced_and_distinct and dead_letter_name and payload_size_limit_enforced
proof -
  show validate_topic_accepts_reasonable_names
    by (simp add: validate_topic_accepts_reasonable_names_def is_ok_iff topic_char_def is_ascii_alphanumeric_def)
  show validate_topic_rejects_bad_names
    by (simp add: validate_topic_rejects_bad_names_def is_ok_iff topic_char_def is_ascii_alphanumeric_def)
  show mesh_names_are_namespaced_and_distinct
    by (simp add: mesh_names_are_namespaced_and_distinct_def starts_with_def log_name_def live_topic_def ingest_topic_def
        control_topic_def subs_log_name_def NS_def Let_def)
  show dead_letter_name by (simp add: dead_letter_name_def dead_letter_topic_def)
  show payload_size_limit_enforced
    by (simp add: payload_size_limit_enforced_def is_ok_iff validate_payload_def MAX_PAYLOAD_BYTES_def)
qed

lemma too_many_attributes: "map_len (fmap_of_list (map (\<lambda>i. (''k'' @ decimal i, v)) [0..<n])) = n"
proof -
  let ?m = "fmap_of_list (map (\<lambda>i. (''k'' @ decimal i, v)) [0..<n])"
  have "fmdom' ?m = (\<lambda>i. ''k'' @ decimal i) ` {0..<n}"
    by (simp add: fmdom'_alt_def fset_of_list.rep_eq image_image)
  moreover have "inj_on (\<lambda>i. ''k'' @ decimal i) {0..<n}" by (rule inj_onI) (simp add: decimal_inject)
  ultimately have "card (fmdom' ?m) = n" by (simp add: card_image)
  then show ?thesis by (simp add: map_len_def fcard.rep_eq fmdom'_alt_def)
qed

lemma attribute_tests:
  shows attribute_bounds_enforced and publish_options_builder_and_validate
proof -
  show attribute_bounds_enforced
    using too_many_attributes[of "''v''" "Suc MAX_ATTRIBUTES"]
    by (simp add: attribute_bounds_enforced_def is_ok_iff attributes_ok_def MAX_ATTRIBUTE_LEN_def map_len_upd MAX_ATTRIBUTES_def del: upt_Suc)
  show publish_options_builder_and_validate
    by (simp add: publish_options_builder_and_validate_def is_ok_iff options_validate_iff ordering_key_ok_def attributes_ok_def
        options_attribute_def options_ordering_key_def new_options_def MAX_ATTRIBUTE_LEN_def MAX_ATTRIBUTES_def map_len_upd Let_def)
      auto
qed

lemma parsed_filters:
  "filter_parse (''kind='' @ quoted ''order'' @ '' priority='' @ quoted ''high'') =
     Inr \<lparr>clauses = [(''kind'', ''order''), (''priority'', ''high'')]\<rparr>"
  "filter_parse (''attributes.kind == '' @ quoted ''order'') = Inr \<lparr>clauses = [(''kind'', ''order'')]\<rparr>"
  "filter_parse ''   '' = Inr \<lparr>clauses = []\<rparr>"
  "is_ok (filter_parse ''kind=order'') = False" "is_ok (filter_parse (''kind='' @ CHR 0x22 # ''order'')) = False"
  "is_ok (filter_parse (''='' @ quoted ''v'')) = False"
  by code_simp+

lemma filter_parse_test: "attribute_filter_parse hx"
  unfolding attribute_filter_parse_def parsed_filters
  by (simp add: attribute_for_test_def new_message_def filter_matches_def filter_is_empty_def Let_def)

theorem message_tests_pass:
  assumes "hex_contract hx"
  shows "message_roundtrips_payload hx \<and> validate_topic_accepts_reasonable_names \<and> validate_topic_rejects_bad_names \<and>
    mesh_names_are_namespaced_and_distinct \<and> dead_letter_name \<and> payload_size_limit_enforced \<and>
    attribute_bounds_enforced \<and> publish_options_builder_and_validate \<and> message_builders_set_fields hx \<and>
    attribute_filter_matches_exact hx \<and> attribute_filter_parse hx"
  using message_tests[OF assms] name_tests attribute_tests filter_parse_test by blast

lemma message_tests_pass_witness: "attribute_filter_parse letter_hex \<and> message_roundtrips_payload letter_hex"
  using message_tests_pass[OF letter_hex_contract] by blast

section \<open>Requests, links and pages\<close>

definition control_request_rejects_oversize_body :: "json_codec \<Rightarrow> bool" where
  "control_request_rejects_oversize_body js \<longleftrightarrow>
     \<not> is_ok (control_decode js (replicate (MAX_CONTROL_BODY_BYTES + 1) (of_char (CHR ''x''))))"

definition grant_accessor_covers_every_variant :: bool where
  "grant_accessor_covers_every_variant \<longleftrightarrow>
     request_grant (AckCursor ''s'' 1 (Some ''g'')) = Some ''g'' \<and> request_grant (HighCursor None) = None"

definition topic_allows_prefix :: bool where
  "topic_allows_prefix \<longleftrightarrow> topic_allows ''orders'' ''orders'' \<and> topic_allows ''orders'' ''orders.eu'' \<and>
     topic_allows '''' ''anything'' \<and> \<not> topic_allows ''orders'' ''payments''"

text \<open>The helper \<open>replay\<close>; its \<open>unwrap_or(0)\<close> is for a page without messages.\<close>

definition test_replay :: "message list \<Rightarrow> cursor \<Rightarrow> replay_page" where
  "test_replay messages high =
     \<lparr>rp_messages = messages, rp_high = high, rp_next = (if messages = [] then 0 else msg_cursor (last messages)),
      rp_target = Some high, rp_converged = True, rp_truncated = False, rp_floor = 0, rp_missing = 0\<rparr>"

definition replay_exposes_messages_and_pagination :: "hex_codec \<Rightarrow> bool" where
  "replay_exposes_messages_and_pagination hx =
     (let r = test_replay [new_message hx 2 ''n'' (map of_char ''a'') 1, new_message hx 3 ''n'' (map of_char ''b'') 2] 3 in
      replay_len r = 2 \<and> rp_high r = 3 \<and> rp_next r = 3 \<and> \<not> replay_is_empty r \<and> rp_converged r \<and>
      \<not> rp_truncated r \<and> rp_missing r = 0 \<and> msg_cursor (rp_messages r ! 0) = 2)"

definition replay_reports_incomplete_when_not_converged :: "hex_codec \<Rightarrow> bool" where
  "replay_reports_incomplete_when_not_converged hx =
     (let r = \<lparr>rp_messages = [new_message hx 1 ''n'' (map of_char ''a'') 1], rp_high = 1, rp_next = 1, rp_target = Some 5,
            rp_converged = False, rp_truncated = False, rp_floor = 0, rp_missing = 4\<rparr> in
      \<not> rp_converged r \<and> rp_missing r = 4 \<and> rp_target r = Some 5)"

theorem protocol_tests_pass:
  "control_request_rejects_oversize_body js \<and> grant_accessor_covers_every_variant \<and> topic_allows_prefix \<and>
   replay_exposes_messages_and_pagination hx \<and> replay_reports_incomplete_when_not_converged hx"
  by (simp add: control_request_rejects_oversize_body_def control_decode_def grant_accessor_covers_every_variant_def
      topic_allows_prefix_def topic_allows_def starts_with_def replay_exposes_messages_and_pagination_def test_replay_def
      replay_len_def replay_is_empty_def replay_reports_incomplete_when_not_converged_def new_message_def)

end
