(* ===== verification/Wire_Tests.thy ===== *)
theory Wire_Tests
  imports Library_Tests Remote
begin

text \<open>
  The unit tests of \<open>src/src/protocol.rs\<close> and \<open>lib.rs\<close> whose subject is the wire: what is encoded is decoded
  again, and what is too large is refused.  The codecs are parameters of the model, so each test is a
  program over a codec; it passes with every codec that gives back the values the test encodes.
\<close>

section \<open>What is relied on of the codecs\<close>

text \<open>The value is encoded, in at most \<open>n\<close> bytes, and decoding gives it back.\<close>

definition writes :: "('a \<Rightarrow> error + bytes) \<Rightarrow> (bytes \<Rightarrow> error + 'a) \<Rightarrow> nat \<Rightarrow> 'a \<Rightarrow> bool" where
  "writes enc dec n x \<longleftrightarrow> (\<exists>bs. enc x = Inr bs \<and> length bs \<le> n \<and> dec bs = Inr x)"

text \<open>The crate \<open>hex\<close> reads pairs of hexadecimal digits of either case, and nothing else.\<close>

definition hex_digit :: "char \<Rightarrow> bool" where
  "hex_digit c \<longleftrightarrow> (CHR ''0'' \<le> c \<and> c \<le> CHR ''9'') \<or> (CHR ''a'' \<le> c \<and> c \<le> CHR ''f'') \<or> (CHR ''A'' \<le> c \<and> c \<le> CHR ''F'')"

definition reads_digits :: "hex_codec \<Rightarrow> bool" where
  "reads_digits hx \<longleftrightarrow> (\<forall>s. is_ok (hex_decode hx s) = (even (length s) \<and> list_all hex_digit s))"

section \<open>The tests of the protocol\<close>

definition hi_request :: "hex_codec \<Rightarrow> ingest_request" where
  "hi_request hx = \<lparr>req_payload_hex = hex_encode hx (map of_char ''hi''), req_grant = Some ''tok'',
     req_idempotency_key = Some ''key-1'', req_ordering_key = Some ''ord'', req_attributes = fmupd ''k'' ''v'' fmempty\<rparr>"

definition ingest_request_roundtrips :: "hex_codec \<Rightarrow> json_codec \<Rightarrow> bool" where
  "ingest_request_roundtrips hx js =
     (let req = hi_request hx in
      unwrap_ok (ingest_encode js req) (\<lambda>bs. unwrap_ok (ingest_decode js bs) (\<lambda>back. req = back)))"

definition body_request :: "hex_codec \<Rightarrow> ingest_request" where
  "body_request hx = \<lparr>req_payload_hex = hex_encode hx (map of_char ''body''), req_grant = None,
     req_idempotency_key = None, req_ordering_key = None, req_attributes = fmempty\<rparr>"

definition ingest_request_decode_hex_roundtrips_and_bounds :: "hex_codec \<Rightarrow> json_codec \<Rightarrow> bool" where
  "ingest_request_decode_hex_roundtrips_and_bounds hx js =
     (let req = body_request hx in
      unwrap_ok (ingest_encode js req) (\<lambda>body.
        unwrap_ok (ingest_decode_hex hx js (hex_encode hx body)) (\<lambda>back. back = req) \<and>
        \<not> is_ok (ingest_decode_hex hx js (replicate (MAX_INGEST_HEX_BYTES + 2) (CHR ''a''))) \<and>
        \<not> is_ok (ingest_decode_hex hx js ''zz not hex'')))"

definition huge_request :: ingest_request where
  "huge_request = \<lparr>req_payload_hex = replicate (MAX_INGEST_HEX_BYTES + 1) (CHR ''a''), req_grant = None,
     req_idempotency_key = None, req_ordering_key = None, req_attributes = fmempty\<rparr>"

definition ingest_request_rejects_oversize_hex :: "json_codec \<Rightarrow> bool" where
  "ingest_request_rejects_oversize_hex js =
     unwrap_ok (ingest_encode js huge_request) (\<lambda>bytes. \<not> is_ok (ingest_decode js bytes))"

definition long_key_request :: "hex_codec \<Rightarrow> ingest_request" where
  "long_key_request hx = \<lparr>req_payload_hex = hex_encode hx (map of_char ''x''), req_grant = None,
     req_idempotency_key = Some (replicate (MAX_IDEMPOTENCY_KEY_LEN + 1) (CHR ''k'')), req_ordering_key = None,
     req_attributes = fmempty\<rparr>"

definition ingest_request_rejects_long_idempotency_key :: "hex_codec \<Rightarrow> json_codec \<Rightarrow> bool" where
  "ingest_request_rejects_long_idempotency_key hx js =
     unwrap_ok (ingest_encode js (long_key_request hx)) (\<lambda>bytes. \<not> is_ok (ingest_decode js bytes))"

definition ingest_reply_samples :: "ingest_reply list" where
  "ingest_reply_samples = [Accepted 9, Ingest_rejected (External ''no'')]"

definition ingest_reply_roundtrips :: "json_codec \<Rightarrow> bool" where
  "ingest_reply_roundtrips js =
     list_all (\<lambda>r. unwrap_ok (ingest_reply_encode js r) (\<lambda>b. unwrap_ok (ingest_reply_decode js b) (\<lambda>back. back = r)))
       ingest_reply_samples"

definition control_request_samples :: "control_request list" where
  "control_request_samples = [CreateSubscription ''s'' default_policy None, DeleteSubscription ''s'' (Some ''g''),
     ListSubscriptions None, HighCursor None, Pull ''s'' 10 None, AckCursor ''s'' 5 None, NackCursor ''s'' 5 None]"

definition control_request_roundtrips_all_variants :: "json_codec \<Rightarrow> bool" where
  "control_request_roundtrips_all_variants js =
     list_all (\<lambda>req. unwrap_ok (control_encode js req) (\<lambda>b. unwrap_ok (control_decode js b) (\<lambda>back. back = req)))
       control_request_samples"

definition control_reply_samples :: "hex_codec \<Rightarrow> control_reply list" where
  "control_reply_samples hx = [Control_ok, High 42, Subscriptions [''a'', ''b''],
     Pulled [\<lparr>leased_msg = new_message hx 1 ''n'' (map of_char ''x'') 1, delivery_attempt = 2\<rparr>],
     Control_rejected (External ''why'')]"

definition control_reply_roundtrips :: "hex_codec \<Rightarrow> json_codec \<Rightarrow> bool" where
  "control_reply_roundtrips hx js =
     list_all (\<lambda>r. unwrap_ok (control_reply_encode js r) (\<lambda>b. unwrap_ok (control_reply_decode js b) (\<lambda>back. back = r)))
       (control_reply_samples hx)"

section \<open>The tests of the library\<close>

definition lib_reply_samples :: "ingest_reply list" where
  "lib_reply_samples = [Accepted 7, Ingest_rejected (External ''nope'')]"

definition lib_ingest_reply_roundtrips :: "json_codec \<Rightarrow> bool" where
  "lib_ingest_reply_roundtrips js =
     list_all (\<lambda>reply. unwrap_ok (ingest_reply_encode js reply) (\<lambda>bytes.
       unwrap_ok (ingest_reply_decode js bytes) (\<lambda>back. reply = back))) lib_reply_samples"

definition lib_request :: "hex_codec \<Rightarrow> ingest_request" where
  "lib_request hx = \<lparr>req_payload_hex = hex_encode hx (map of_char ''hi''), req_grant = Some ''deadbeef'',
     req_idempotency_key = Some ''k'', req_ordering_key = None, req_attributes = fmempty\<rparr>"

definition lib_ingest_request_roundtrips :: "hex_codec \<Rightarrow> json_codec \<Rightarrow> bool" where
  "lib_ingest_request_roundtrips hx js =
     (let req = lib_request hx in
      unwrap_ok (ingest_encode js req) (\<lambda>bytes. unwrap_ok (ingest_decode js bytes) (\<lambda>back. req = back)))"

definition parse_node_id_validates_length :: "hex_codec \<Rightarrow> bool" where
  "parse_node_id_validates_length hx \<longleftrightarrow>
     is_ok (parse_node_id hx (concat (replicate 32 ''ab''))) \<and> \<not> is_ok (parse_node_id hx ''xyz'') \<and>
     \<not> is_ok (parse_node_id hx (concat (replicate 10 ''ab'')))"

section \<open>They pass\<close>

lemma ingest_written:
  assumes "writes (ingest_to_json js) (ingest_from_json js) MAX_INGEST_HEX_BYTES req"
    and "length (req_payload_hex req) \<le> MAX_INGEST_HEX_BYTES"
    and "\<forall>k. req_idempotency_key req = Some k \<longrightarrow> length k \<le> MAX_IDEMPOTENCY_KEY_LEN"
  shows "\<exists>bs. ingest_encode js req = Inr bs \<and> ingest_decode js bs = Inr req"
  using assms by (auto simp: writes_def ingest_encode_def ingest_decode_Inr)

lemma ingest_refused:
  assumes "writes (ingest_to_json js) (ingest_from_json js) n req"
    and "MAX_INGEST_HEX_BYTES < length (req_payload_hex req) \<or>
      (\<exists>k. req_idempotency_key req = Some k \<and> MAX_IDEMPOTENCY_KEY_LEN < length k)"
  shows "unwrap_ok (ingest_encode js req) (\<lambda>bytes. \<not> is_ok (ingest_decode js bytes))"
proof -
  obtain bs where "ingest_to_json js req = Inr bs" "ingest_from_json js bs = Inr req"
    using assms(1) by (auto simp: writes_def)
  with assms(2) show ?thesis by (auto simp: ingest_encode_def is_ok_iff ingest_decode_Inr)
qed

lemma small_texts:
  assumes "hex_contract hx" "length bs \<le> 100"
  shows "length (hex_encode hx bs) \<le> MAX_INGEST_HEX_BYTES"
  using assms by (simp add: hex_contractD(3) MAX_INGEST_HEX_BYTES_def MAX_PAYLOAD_BYTES_def)

theorem ingest_wire_tests_pass:
  assumes hx: "hex_contract hx" "reads_digits hx"
    and js: "list_all (writes (ingest_to_json js) (ingest_from_json js) 10000) [hi_request hx, body_request hx, lib_request hx]"
      "list_all (writes (ingest_to_json js) (ingest_from_json js) n) [huge_request, long_key_request hx]"
  shows "ingest_request_roundtrips hx js \<and> ingest_request_decode_hex_roundtrips_and_bounds hx js \<and>
    ingest_request_rejects_oversize_hex js \<and> ingest_request_rejects_long_idempotency_key hx js \<and>
    lib_ingest_request_roundtrips hx js"
proof (intro conjI)
  have grow: "writes e d 10000 x \<Longrightarrow> writes e d MAX_INGEST_HEX_BYTES x" for e d and x :: ingest_request
    by (auto simp: writes_def MAX_INGEST_HEX_BYTES_def MAX_PAYLOAD_BYTES_def)
  note small = small_texts[OF hx(1)]
  show "ingest_request_roundtrips hx js"
    using ingest_written[OF grow, of js "hi_request hx"] js(1) small
    by (auto simp: ingest_request_roundtrips_def hi_request_def MAX_IDEMPOTENCY_KEY_LEN_def)
  show "lib_ingest_request_roundtrips hx js"
    using ingest_written[OF grow, of js "lib_request hx"] js(1) small
    by (auto simp: lib_ingest_request_roundtrips_def lib_request_def MAX_IDEMPOTENCY_KEY_LEN_def)
  show "ingest_request_rejects_oversize_hex js"
    unfolding ingest_request_rejects_oversize_hex_def
    by (rule ingest_refused[where n = n]) (use js(2) in \<open>simp_all add: huge_request_def\<close>)
  show "ingest_request_rejects_long_idempotency_key hx js"
    unfolding ingest_request_rejects_long_idempotency_key_def
    by (rule ingest_refused[where n = n]) (use js(2) in \<open>simp_all add: long_key_request_def\<close>)
  obtain body where body: "ingest_encode js (body_request hx) = Inr body" "length body \<le> 10000"
      "ingest_from_json js body = Inr (body_request hx)"
    using js(1) by (auto simp: writes_def ingest_encode_def)
  then have "ingest_decode_hex hx js (hex_encode hx body) = Inr (body_request hx)"
    using hx(1) small[of "map of_char ''body''"]
    by (auto simp: ingest_decode_hex_Inr ingest_decode_Inr hex_contractD body_request_def MAX_INGEST_HEX_BYTES_def
        MAX_PAYLOAD_BYTES_def)
  moreover have "\<not> is_ok (hex_decode hx ''zz not hex'')"
    using hx(2) by (simp add: reads_digits_def hex_digit_def)
  then have "\<not> is_ok (ingest_decode_hex hx js ''zz not hex'')" by (auto simp: is_ok_iff ingest_decode_hex_Inr)
  moreover have "\<not> is_ok (ingest_decode_hex hx js (replicate (MAX_INGEST_HEX_BYTES + 2) (CHR ''a'')))"
    by (simp add: is_ok_iff ingest_decode_hex_Inr)
  ultimately show "ingest_request_decode_hex_roundtrips_and_bounds hx js"
    using body(1) by (simp add: ingest_request_decode_hex_roundtrips_and_bounds_def)
qed

theorem control_wire_tests_pass:
  assumes "list_all (writes (control_to_json js) (control_from_json js) 10000) control_request_samples"
    and "list_all (writes (control_reply_to_json js) (control_reply_from_json js) 10000) (control_reply_samples hx)"
    and "list_all (writes (ingest_reply_to_json js) (ingest_reply_from_json js) n) (ingest_reply_samples @ lib_reply_samples)"
  shows "control_request_roundtrips_all_variants js \<and> control_reply_roundtrips hx js \<and> ingest_reply_roundtrips js \<and>
    lib_ingest_reply_roundtrips js"
proof (intro conjI)
  show "control_request_roundtrips_all_variants js"
    unfolding control_request_roundtrips_all_variants_def
    by (rule list.pred_mono_strong[OF assms(1)])
      (auto simp: writes_def control_encode_def control_decode_def MAX_CONTROL_BODY_BYTES_def)
  show "control_reply_roundtrips hx js"
    unfolding control_reply_roundtrips_def
    by (rule list.pred_mono_strong[OF assms(2)])
      (auto simp: writes_def control_reply_encode_def control_reply_decode_def MAX_INGEST_HEX_BYTES_def MAX_PAYLOAD_BYTES_def)
  have reply: "unwrap_ok (ingest_reply_encode js r) (\<lambda>b. unwrap_ok (ingest_reply_decode js b) (\<lambda>back. back = r))"
    if "writes (ingest_reply_to_json js) (ingest_reply_from_json js) n r" for r
    using that by (auto simp: writes_def ingest_reply_encode_def ingest_reply_decode_def)
  then show "ingest_reply_roundtrips js" "lib_ingest_reply_roundtrips js"
    using assms(3) unfolding ingest_reply_roundtrips_def lib_ingest_reply_roundtrips_def
    by (auto simp: list_all_iff eq_commute)
qed

theorem node_id_test_passes:
  assumes "hex_contract hx" "reads_digits hx"
  shows "parse_node_id_validates_length hx"
proof -
  have trim: "trim (concat (replicate n ''ab'')) = concat (replicate n ''ab'')" for n
    by (rule trim_clean) (auto simp: white_space_def)
  have len: "length (concat (replicate n ''ab'')) = 2 * n" for n by (induction n) simp_all
  have "\<exists>bs. hex_decode hx (concat (replicate n ''ab'')) = Inr bs \<and> length bs = n" for n
  proof -
    have "list_all hex_digit (concat (replicate n ''ab''))" by (induction n) (simp_all add: hex_digit_def)
    then have "is_ok (hex_decode hx (concat (replicate n ''ab'')))"
      using assms(2) by (simp add: reads_digits_def len)
    then show ?thesis using hex_contractD(2)[OF assms(1)] len[of n] by (fastforce simp: is_ok_iff)
  qed
  from this[of 32] this[of 10] have "is_ok (parse_node_id hx (concat (replicate 32 ''ab'')))"
    "\<not> is_ok (parse_node_id hx (concat (replicate 10 ''ab'')))"
    by (auto simp: parse_node_id_def trim)
  moreover have "\<not> is_ok (parse_node_id hx ''xyz'')"
  proof -
    have "trim ''xyz'' = ''xyz''" by (rule trim_clean) (auto simp: white_space_def)
    then show ?thesis
      using hex_contractD(2)[OF assms(1), of "''xyz''"]
      by (auto simp: parse_node_id_def is_ok_iff result_simps dest!: arg_cong[of "Suc _" _ even])
  qed
  ultimately show ?thesis by (simp add: parse_node_id_validates_length_def)
qed

section \<open>Such codecs exist\<close>

text \<open>Hexadecimal with lower-case digits, and a codec that writes a value as its place in a list.\<close>

definition digit_value :: "char \<Rightarrow> nat" where
  "digit_value c = (if c \<le> CHR ''9'' then of_char c - 48 else if c \<le> CHR ''F'' then of_char c - 55 else of_char c - 87)"

definition digit_of :: "nat \<Rightarrow> char" where
  "digit_of n = char_of (if n < 10 then 48 + n else 87 + n)"

fun unhex :: "string \<Rightarrow> error + bytes" where
  "unhex [] = Inr []"
| "unhex [c] = Inl (External ''odd length'')"
| "unhex (c # d # rest) =
     (if hex_digit c \<and> hex_digit d
      then and_then (unhex rest) (\<lambda>bs. Inr (of_nat (16 * digit_value c + digit_value d) # bs))
      else Inl (External ''invalid digit''))"

definition lower_hex :: hex_codec where
  "lower_hex = \<lparr>hex_encode = \<lambda>bs. concat (map (\<lambda>b. [digit_of (unat b div 16), digit_of (unat b mod 16)]) bs),
     hex_decode = unhex\<rparr>"

lemma digit_of_simps: "n < 16 \<Longrightarrow> hex_digit (digit_of n)" "n < 16 \<Longrightarrow> digit_value (digit_of n) = n"
  by (auto simp: hex_digit_def digit_value_def digit_of_def less_eq_char_def)

lemma unhex_encode: "unhex (hex_encode lower_hex bs) = Inr bs"
proof (induction bs)
  case (Cons b bs)
  have "unat b div 16 < 16" using unsigned_less[of b, where ?'a = nat] by simp
  then show ?case using Cons by (simp add: lower_hex_def digit_of_simps)
qed (simp add: lower_hex_def)

lemma unhex_length: "unhex s = Inr bs \<Longrightarrow> length s = 2 * length bs"
  by (induction s arbitrary: bs rule: unhex.induct) (auto simp: result_simps split: if_splits)

lemma lower_hex_contract: "hex_contract lower_hex"
  using unhex_encode unhex_length by (simp add: hex_contract_def) (simp add: lower_hex_def)

lemma lower_hex_digits: "reads_digits lower_hex"
proof -
  have "is_ok (unhex s) = (even (length s) \<and> list_all hex_digit s)" for s
    by (induction s rule: unhex.induct) (auto simp: is_ok_iff result_simps)
  then show ?thesis by (simp add: reads_digits_def lower_hex_def)
qed

fun place :: "'a \<Rightarrow> 'a list \<Rightarrow> nat" where
  "place x [] = 0"
| "place x (y # ys) = (if x = y then 0 else Suc (place x ys))"

lemma place_nth: "x \<in> set xs \<Longrightarrow> place x xs < length xs \<and> xs ! place x xs = x"
  by (induction xs) auto

definition write_place :: "'a list \<Rightarrow> 'a \<Rightarrow> error + bytes" where
  "write_place xs x = Inr [of_nat (place x xs)]"

definition read_place :: "'a list \<Rightarrow> bytes \<Rightarrow> error + 'a" where
  "read_place xs bs =
     (case bs of b # _ \<Rightarrow> if unat b < length xs then Inr (xs ! unat b) else Inl (External ''unknown'') | [] \<Rightarrow> Inl (External ''empty''))"

lemma writes_place: "length xs \<le> 256 \<Longrightarrow> list_all (writes (write_place xs) (read_place xs) (Suc n)) xs"
  using place_nth[of _ xs]
  by (fastforce simp: list_all_iff writes_def write_place_def read_place_def unat_of_nat_small)

definition sample_codec :: json_codec where
  "sample_codec =
     (let reqs = [hi_request lower_hex, body_request lower_hex, lib_request lower_hex, huge_request, long_key_request lower_hex];
          replies = ingest_reply_samples @ lib_reply_samples in
      \<lparr>ingest_to_json = write_place reqs, ingest_from_json = read_place reqs,
       ingest_reply_to_json = write_place replies, ingest_reply_from_json = read_place replies,
       control_to_json = write_place control_request_samples, control_from_json = read_place control_request_samples,
       control_reply_to_json = write_place (control_reply_samples lower_hex),
       control_reply_from_json = read_place (control_reply_samples lower_hex)\<rparr>)"

lemma wire_tests_pass_witness:
  "ingest_request_decode_hex_roundtrips_and_bounds lower_hex sample_codec \<and>
   control_request_roundtrips_all_variants sample_codec \<and> parse_node_id_validates_length lower_hex"
proof (intro conjI)
  let ?reqs = "[hi_request lower_hex, body_request lower_hex, lib_request lower_hex, huge_request, long_key_request lower_hex]"
  have "list_all (writes (write_place ?reqs) (read_place ?reqs) (Suc 9999)) ?reqs"
    by (rule writes_place) simp
  then have "list_all (writes (ingest_to_json sample_codec) (ingest_from_json sample_codec) 10000)
      [hi_request lower_hex, body_request lower_hex, lib_request lower_hex]"
    "list_all (writes (ingest_to_json sample_codec) (ingest_from_json sample_codec) 10000)
      [huge_request, long_key_request lower_hex]"
    by (simp_all add: sample_codec_def Let_def)
  from ingest_wire_tests_pass[OF lower_hex_contract lower_hex_digits this]
  show "ingest_request_decode_hex_roundtrips_and_bounds lower_hex sample_codec" by blast
  have small: "length control_request_samples \<le> 256" "length (control_reply_samples lower_hex) \<le> 256"
    "length (ingest_reply_samples @ lib_reply_samples) \<le> 256"
    by (simp_all add: control_request_samples_def control_reply_samples_def ingest_reply_samples_def lib_reply_samples_def)
  show "control_request_roundtrips_all_variants sample_codec"
    by (rule control_wire_tests_pass[of sample_codec lower_hex 10000, THEN conjunct1])
      (use writes_place[OF small(1), of 9999] writes_place[OF small(2), of 9999] writes_place[OF small(3), of 9999]
        in \<open>simp_all add: sample_codec_def Let_def\<close>)
  show "parse_node_id_validates_length lower_hex" by (rule node_id_test_passes[OF lower_hex_contract lower_hex_digits])
qed

end
