(* ===== verification/Link_Tests.thy ===== *)
theory Link_Tests
  imports Wire_Tests Single_Link
begin

text \<open>
  The unit tests of \<open>src/src/caps.rs\<close> and the cases of \<open>tests/edge_cases.rs\<close>, as programs on the model.  The
  tests of links are about the check of chains in \<open>ce-iam-core\<close>, a parameter: what it does with a single
  self-issued capability is the contract of \<open>Single_Link\<close>.
  The cases that delegate a link over two hops are left out: how \<open>ce-iam-core\<close> compares the scopes along
  a chain cannot be read here.
\<close>

section \<open>The tests of links\<close>

definition never_revoked :: "node_id \<Rightarrow> u64 \<Rightarrow> bool" where
  "never_revoked i nonce = False"

text \<open>Each test makes an identity of its own, \<open>owner\<close>.\<close>

definition mint_and_verify_publish_link :: "('i, 'c) iam \<Rightarrow> 'i \<Rightarrow> bool" where
  "mint_and_verify_publish_link lib owner =
     (let node = identity_node_id lib owner in
      unwrap_ok (mint_link lib owner node ABILITY_PUBLISH ''orders'' 0 1) (\<lambda>token.
        is_ok (verify_link lib node [] [] 1000 node ABILITY_PUBLISH ''orders'' token never_revoked)))"

definition link_rejects_out_of_scope_topic :: "('i, 'c) iam \<Rightarrow> 'i \<Rightarrow> bool" where
  "link_rejects_out_of_scope_topic lib owner =
     (let node = identity_node_id lib owner in
      unwrap_ok (mint_link lib owner node ABILITY_SUBSCRIBE ''orders'' 0 2) (\<lambda>token.
        \<not> is_ok (verify_link lib node [] [] 1000 node ABILITY_SUBSCRIBE ''payments'' token never_revoked)))"

definition link_rejects_wrong_ability :: "('i, 'c) iam \<Rightarrow> 'i \<Rightarrow> bool" where
  "link_rejects_wrong_ability lib owner =
     (let node = identity_node_id lib owner in
      unwrap_ok (mint_link lib owner node ABILITY_SUBSCRIBE ''t'' 0 3) (\<lambda>token.
        \<not> is_ok (verify_link lib node [] [] 1000 node ABILITY_PUBLISH ''t'' token never_revoked)))"

definition link_rejects_expired :: "('i, 'c) iam \<Rightarrow> 'i \<Rightarrow> bool" where
  "link_rejects_expired lib owner =
     (let node = identity_node_id lib owner in
      unwrap_ok (mint_link lib owner node ABILITY_PUBLISH ''t'' 500 4) (\<lambda>token.
        \<not> is_ok (verify_link lib node [] [] 1000 node ABILITY_PUBLISH ''t'' token never_revoked)))"

definition inspect_reports_scope_and_abilities :: "('i, 'c) iam \<Rightarrow> 'i \<Rightarrow> bool" where
  "inspect_reports_scope_and_abilities lib owner =
     unwrap_ok (mint_link lib owner (identity_node_id lib owner) ABILITY_PUBLISH ''logs'' 0 5) (\<lambda>token.
       unwrap_ok (inspect_link lib token) (\<lambda>(abilities, scope). abilities = [ABILITY_PUBLISH] \<and> scope = ''logs''))"

text \<open>The text of an error of the capability library is passed on as it is.\<close>

definition revocation_kills_link :: "('i, 'c) iam \<Rightarrow> 'i \<Rightarrow> bool" where
  "revocation_kills_link lib owner =
     (let node = identity_node_id lib owner; revoke_99 = \<lambda>_ nonce. nonce = 99 in
      unwrap_ok (mint_link lib owner node ABILITY_PUBLISH ''t'' 0 99) (\<lambda>token.
        case verify_link lib node [] [] 1000 node ABILITY_PUBLISH ''t'' token revoke_99 of
          Inl (External why) \<Rightarrow> contains_text why ''revoked''
        | _ \<Rightarrow> False))"

definition empty_scope_link_covers_any_topic :: "('i, 'c) iam \<Rightarrow> 'i \<Rightarrow> bool" where
  "empty_scope_link_covers_any_topic lib owner =
     (let node = identity_node_id lib owner in
      unwrap_ok (mint_link lib owner node ABILITY_PUBLISH [] 0 1) (\<lambda>token.
        list_all (\<lambda>topic. is_ok (verify_link lib node [] [] 1000 node ABILITY_PUBLISH topic token never_revoked))
          [''a'', ''orders'', ''anything.at.all'']))"

definition inspect_garbage_tokens_error_not_panic :: "('i, 'c) iam \<Rightarrow> bool" where
  "inspect_garbage_tokens_error_not_panic lib \<longleftrightarrow>
     \<not> is_ok (inspect_link lib []) \<and> \<not> is_ok (inspect_link lib ''not hex @@'') \<and> \<not> is_ok (inspect_link lib ''deadbeef'')"

definition verify_garbage_token_errors :: "('i, 'c) iam \<Rightarrow> 'i \<Rightarrow> bool" where
  "verify_garbage_token_errors lib owner \<longleftrightarrow>
     \<not> is_ok (verify_link lib (identity_node_id lib owner) [] [] 1000 (identity_node_id lib owner) ABILITY_PUBLISH ''t''
       ''not a token'' never_revoked)"

section \<open>They pass\<close>

theorem link_tests_pass:
  assumes lib: "single_link_contract lib"
  shows "mint_and_verify_publish_link lib owner \<and> link_rejects_out_of_scope_topic lib owner \<and>
    link_rejects_wrong_ability lib owner \<and> link_rejects_expired lib owner \<and>
    inspect_reports_scope_and_abilities lib owner \<and> revocation_kills_link lib owner \<and>
    empty_scope_link_covers_any_topic lib owner"
proof (intro conjI)
  have minted: "\<exists>token. mint_link lib owner aud ab scope expiry nonce = Inr token" for aud ab scope expiry nonce
    by (simp add: mint_link_def)
  have scope: "topic_allows ''orders'' ''orders'' \<and> \<not> topic_allows ''orders'' ''payments'' \<and> (\<forall>t. topic_allows [] t)"
    by (simp add: topic_allows_def starts_with_def)
  note works = minted_link_works[OF lib] and abilities = ABILITY_PUBLISH_def ABILITY_SUBSCRIBE_def
  let ?node = "identity_node_id lib owner"
  show "mint_and_verify_publish_link lib owner"
    using minted[of ?node ABILITY_PUBLISH "''orders''" 0 1] scope
    by (auto simp: mint_and_verify_publish_link_def works never_revoked_def Let_def)
  show "link_rejects_out_of_scope_topic lib owner"
    using minted[of ?node ABILITY_SUBSCRIBE "''orders''" 0 2] scope
    by (auto simp: link_rejects_out_of_scope_topic_def works Let_def)
  show "link_rejects_wrong_ability lib owner"
    using minted[of ?node ABILITY_SUBSCRIBE "''t''" 0 3]
    by (auto simp: link_rejects_wrong_ability_def works abilities Let_def)
  show "link_rejects_expired lib owner"
    using minted[of ?node ABILITY_PUBLISH "''t''" 500 4]
    by (auto simp: link_rejects_expired_def works word_le_nat_alt Let_def)
  show "inspect_reports_scope_and_abilities lib owner"
    using minted_link[OF single_link_contractD(1)[OF lib], of owner ?node ABILITY_PUBLISH "''logs''" 0 5]
      minted[of ?node ABILITY_PUBLISH "''logs''" 0 5]
    by (auto simp: inspect_reports_scope_and_abilities_def)
  show "empty_scope_link_covers_any_topic lib owner"
    using minted[of ?node ABILITY_PUBLISH "[]" 0 1] scope
    by (auto simp: empty_scope_link_covers_any_topic_def works never_revoked_def Let_def)
  let ?cv = "\<lparr>not_after = 0, path_prefix = Some ''t''\<rparr>" and ?revoked = "\<lambda>_ nonce. nonce = (99 :: u64)"
  obtain token where token: "mint_link lib owner ?node ABILITY_PUBLISH ''t'' 0 99 = Inr token" using minted by blast
  obtain why where "authorize_chain lib ?node [] [] 1000 ?node ABILITY_PUBLISH
      [single_link lib owner ?node ABILITY_PUBLISH ?cv 99] ?revoked = Inl (External why)"
    and "contains_text why ''revoked''"
    using single_link_contractD(3)[OF lib, of ?cv 1000 ?revoked owner 99 "[]" "[]" ?node ABILITY_PUBLISH]
    by (auto simp: in_time_def)
  then show "revocation_kills_link lib owner"
    using token minted_single(1)[OF lib token] by (simp add: revocation_kills_link_def verify_link_def Let_def)
qed

theorem garbage_tests_pass:
  assumes "\<And>s. s \<in> {[], ''not hex @@'', ''deadbeef'', ''not a token''} \<Longrightarrow> \<not> is_ok (decode_chain lib s)"
  shows "inspect_garbage_tokens_error_not_panic lib \<and> verify_garbage_token_errors lib owner"
  using assms[of "[]"] assms[of "''not hex @@''"] assms[of "''deadbeef''"] assms[of "''not a token''"]
  by (auto simp: inspect_garbage_tokens_error_not_panic_def verify_garbage_token_errors_def is_ok_iff inspect_link_def
      verify_link_def result_simps)

lemma link_tests_pass_witness: "revocation_kills_link dated_iam [1] \<and> link_rejects_expired dated_iam [1]"
  using link_tests_pass[OF dated_iam_contract] by blast

end
