(* ===== verification/Property_Tests.thy ===== *)
theory Property_Tests
  imports Delivery Topic_Log "HOL-Library.Multiset"
begin

text \<open>
  The randomized tests of \<open>src/tests/prop_subscription.rs\<close>, and the one of \<open>src/tests/prop_pubsub.rs\<close> on the
  cursors of the topic log, as programs on the model.  A test takes its
  random inputs as arguments and returns whether it ends with every assertion met.  Where the test runner
  samples inputs, the theorems hold for every input, also beyond the ranges that the tests draw from.
\<close>

unbundle bit_operations_syntax

section \<open>The helpers of the tests\<close>

definition reg :: "u64 \<Rightarrow> u32 \<Rightarrow> sub_registry" where
  "reg deadline max_attempts = apply_sub empty_registry
     (Create ''s'' \<lparr>ack_deadline_secs = deadline, max_delivery_attempts = max_attempts\<rparr>)"

definition lease_apply ::
  "sub_registry \<Rightarrow> cursor \<Rightarrow> cursor \<Rightarrow> u64 \<Rightarrow> usize \<Rightarrow> (sub_registry \<times> (cursor \<times> u32) list) option" where
  "lease_apply r high fl now mx =
     map_option (\<lambda>plan. case plan of Some (x, out) \<Rightarrow> (apply_sub r x, leased out) | None \<Rightarrow> (r, []))
       (plan_lease r ''s'' high fl now mx)"

section \<open>A random script\<close>

text \<open>One step of the script; \<open>None\<close> when an assertion fails, the subscription is gone or planning does not return.\<close>

definition script_step ::
  "cursor \<Rightarrow> nat \<times> u64 \<times> usize \<Rightarrow> sub_registry \<times> u64 \<times> cursor list \<Rightarrow> (sub_registry \<times> cursor list) option" where
  "script_step high step = (\<lambda>(r, now, ever_acked). let (kind, dt, mx) = step in
     if kind = 0 then
       Option.bind (lease_apply r high 0 now mx) (\<lambda>(r1, ls).
       Option.bind (reg_get r1 ''s'') (\<lambda>s.
         if list_all (\<lambda>(c, attempt). acked s < c \<and> c \<notin> set ever_acked \<and> 1 \<le> attempt) ls \<and>
            length ls \<le> unat MAX_LEASE_BATCH
         then Some (r1, ever_acked) else None))
     else
       Option.bind (reg_get r ''s'') (\<lambda>s. let nxt = acked s + 1 in
         Some (if high < nxt then (r, ever_acked)
           else if kind = 1 then (apply_sub r (Ack ''s'' nxt), nxt # ever_acked)
           else (apply_sub r (Nack ''s'' nxt), ever_acked))))"

fun run_script ::
  "cursor \<Rightarrow> (nat \<times> u64 \<times> usize) list \<Rightarrow> sub_registry \<Rightarrow> u64 \<Rightarrow> cursor \<Rightarrow> cursor list \<Rightarrow> bool" where
  "run_script high [] r now last_acked ever_acked = True"
| "run_script high (step # steps) r now last_acked ever_acked =
     (let now1 = now + fst (snd step) in
      case script_step high step (r, now1, ever_acked) of
        None \<Rightarrow> False
      | Some (r1, ever) \<Rightarrow>
          (case reg_get r1 ''s'' of
             None \<Rightarrow> False
           | Some s \<Rightarrow> last_acked \<le> acked s \<and> acked s \<le> high \<and> run_script high steps r1 now1 (acked s) ever))"

definition lease_ack_invariants_hold :: "cursor \<Rightarrow> u64 \<Rightarrow> (nat \<times> u64 \<times> usize) list \<Rightarrow> bool" where
  "lease_ack_invariants_hold high deadline steps = run_script high steps (reg deadline 0) 100 0 []"

text \<open>What each step keeps: nothing above \<open>high\<close> is handled, what was acked is, nothing dead-letters, and
  no cursor was delivered more often than there were steps.\<close>

definition script_inv :: "cursor \<Rightarrow> nat \<Rightarrow> cursor list \<Rightarrow> subscription_state \<Rightarrow> bool" where
  "script_inv high k ever s \<longleftrightarrow> sub_inv s \<and> max_delivery_attempts (policy s) = 0 \<and>
     handled s \<subseteq> {c. c \<le> high} \<and> set ever \<subseteq> handled s \<and> (\<forall>c. unat (attempt_count s c) \<le> k)"

lemma script_inv_acked: "script_inv high k ever s \<Longrightarrow> acked s \<le> high"
  by (auto simp: script_inv_def handled_iff)

lemma le_not_top: "c \<le> d \<Longrightarrow> d \<noteq> top_word \<Longrightarrow> (c :: cursor) \<noteq> top_word"
  by (metis less_not_top order_le_less)

lemma script_request:
  assumes "script_inv high k ever s" "high \<noteq> top_word" "reg_get r ''s'' = Some s"
  shows "lease_request 0 r ''s'' s high 0"
proof -
  have "acked s \<noteq> top_word" by (rule le_not_top[OF script_inv_acked[OF assms(1)] assms(2)])
  then show ?thesis using assms by (simp add: script_inv_def lease_request_def)
qed

lemma script_lease:
  assumes inv: "script_inv high k ever s" and high: "high \<noteq> top_word" and s: "reg_get r ''s'' = Some s" and k: "Suc k < 2 ^ 32"
  obtains r1 ls s1 where "lease_apply r high 0 now mx = Some (r1, ls)" "reg_get r1 ''s'' = Some s1"
    and "script_inv high (Suc k) ever s1" "acked s \<le> acked s1" "length ls \<le> unat MAX_LEASE_BATCH"
    and "list_all (\<lambda>(c, attempt). acked s1 < c \<and> c \<notin> set ever \<and> 1 \<le> attempt) ls"
    and "handled s1 = handled s" "fmdom' (leases s1) \<subseteq> fmdom' (leases s) \<union> {c. 0 < c \<and> c \<le> high}"
proof -
  note req = script_request[OF inv high s]
  have s': "sub_inv s" "max_delivery_attempts (policy s) = 0" "handled s \<subseteq> {c. c \<le> high}" "set ever \<subseteq> handled s"
    "unat (attempt_count s c) \<le> k" for c
    using inv by (simp_all add: script_inv_def)
  have next1: "unat (next_attempt s c) = unat (attempt_count s c) + 1" for c
    using s'(5)[of c] k by (simp add: next_attempt_def unat_word_ariths)
  consider "plan_lease r ''s'' high 0 now mx = Some None"
    | x out where "plan_lease r ''s'' high 0 now mx = Some (Some (x, out))"
    by (rule plan_lease_cases[OF s sub_invD(1)[OF s'(1)] high lease_request_top[OF req], of now mx]) auto
  then show thesis
  proof cases
    case 1
    have "unat (attempt_count s c) \<le> Suc k" for c using s'(5)[of c] by simp
    with 1 s inv show thesis by (intro that[of r "[]" s]) (auto simp: lease_apply_def script_inv_def)
  next
    case (2 x out)
    obtain ls dd na where out: "out = \<lparr>leased = map (\<lambda>c. (c, next_attempt s c)) ls, dead_lettered = dd\<rparr>"
      and get: "reg_get (apply_sub r x) ''s'' = Some (apply_lease s (map (\<lambda>c. (c, lease_expiry s now)) ls) dd na)"
      and ls: "set ls \<subseteq> {c. 0 < c \<and> c \<le> high \<and> c \<notin> handled s \<and> \<not> withheld s now c \<and> \<not> exhausted s c}"
      and dd: "set dd \<subseteq> {c. 0 < c \<and> c \<le> high \<and> c \<notin> handled s \<and> \<not> withheld s now c \<and> exhausted s c}"
      and sorted: "sorted_wrt (<) ls" and len: "length ls \<le> unat (min mx MAX_LEASE_BATCH)"
      and na: "max (acked s) 0 \<le> na" "\<And>d. d \<le> na \<Longrightarrow> d \<in> handled s \<or> d \<le> 0 \<or> d \<in> set dd"
      by (rule planned_leaseE[OF req 2]) (rule that)
    define t where "t = apply_lease s (map (\<lambda>c. (c, lease_expiry s now)) ls) dd na"
    have none: "dd = []" using dd s'(2) by (cases dd) (auto simp: exhausted_def)
    have zero: "0 \<in> handled s" by (simp add: handled_iff)
    then have handled: "handled t = handled s"
      using na(2) by (auto simp: t_def handled_apply_lease none)
    define m :: u32 where "m = of_nat (Suc k)"
    have m: "unat m = Suc k" unfolding m_def by (rule unat_of_nat_small) (use k in simp)
    have "attempt_count t c \<le> m" for c unfolding t_def
      by (rule attempt_count_apply_lease) (use s'(5)[of c] next1[of c] sorted in
        \<open>auto simp: word_le_nat_alt m none strict_sorted_iff comp_def\<close>)
    then have count: "unat (attempt_count t c) \<le> Suc k" for c by (simp add: word_le_nat_alt m)
    have t: "sub_inv t" "policy t = policy s"
      using planned_lease_inv(1,3)[OF req 2, of t] get by (simp_all add: t_def)
    have "1 \<le> next_attempt s c" for c using next1[of c] by (simp add: word_le_nat_alt)
    moreover have "acked t < c" if "c \<in> set ls" for c
    proof -
      have "c \<notin> handled t" using that ls handled by blast
      then show ?thesis by (simp add: handled_iff not_le)
    qed
    moreover have "acked t = max (acked s) na" by (simp add: t_def apply_lease_fields)
    moreover have "script_inv high (Suc k) ever t"
      using s' t count by (simp add: script_inv_def handled)
    moreover have "length ls \<le> unat MAX_LEASE_BATCH"
      using len by (auto simp: min_def word_le_nat_alt split: if_splits)
    moreover have "c \<notin> set ever" if "c \<in> set ls" for c using that ls s'(4) by blast
    moreover have "fmdom' (leases t) \<subseteq> fmdom' (leases s) \<union> {c. 0 < c \<and> c \<le> high}"
      using ls by (auto simp: t_def apply_lease_fields)
    ultimately show thesis using handled
      by (intro that[of "apply_sub r x" "leased out" t])
        (auto simp: lease_apply_def 2 get t_def[symmetric] out list_all_iff)
  qed
qed

lemma script_ack:
  assumes inv: "script_inv high k ever s" and nxt: "acked s + 1 \<le> high" and high: "high \<noteq> top_word"
  shows "script_inv high (Suc k) ((acked s + 1) # ever) (apply_ack s (acked s + 1))" "acked s \<le> acked (apply_ack s (acked s + 1))"
    "script_inv high (Suc k) ever (apply_nack s (acked s + 1))" "acked (apply_nack s (acked s + 1)) = acked s"
proof -
  have s: "sub_inv s" "zero_free s" using inv by (simp_all add: script_inv_def sub_invD(1))
  have "unat (attempt_count (apply_ack s c) e) \<le> Suc k" "unat (attempt_count (apply_nack s c) e) \<le> Suc k" for c e
    using inv by (auto simp: script_inv_def attempt_count_def ack_leases apply_nack_def le_Suc_eq split: option.splits)
  then show "script_inv high (Suc k) ((acked s + 1) # ever) (apply_ack s (acked s + 1))"
    "script_inv high (Suc k) ever (apply_nack s (acked s + 1))"
    using inv nxt s by (auto simp: script_inv_def sub_inv_ack sub_inv_nack handled_ack ack_leases)
      (simp_all add: apply_nack_def split: option.splits)
  show "acked s \<le> acked (apply_ack s (acked s + 1))" by (rule acked_ack_mono[OF s(2)])
  show "acked (apply_nack s (acked s + 1)) = acked s" by (simp add: apply_nack_def split: option.split)
qed

lemma script_step_passes:
  assumes inv: "script_inv high k ever s" and high: "high \<noteq> top_word" and s: "reg_get r ''s'' = Some s" and k: "Suc k < 2 ^ 32"
  obtains r1 ever1 s1 where "script_step high step (r, now, ever) = Some (r1, ever1)" "reg_get r1 ''s'' = Some s1"
    and "script_inv high (Suc k) ever1 s1" "acked s \<le> acked s1"
proof -
  obtain kind dt mx where step: "step = (kind, dt, mx)" by (cases step)
  show thesis
  proof (cases "kind = 0")
    case True
    obtain r1 ls s1 where "lease_apply r high 0 now mx = Some (r1, ls)" "reg_get r1 ''s'' = Some s1"
      "script_inv high (Suc k) ever s1" "acked s \<le> acked s1" "length ls \<le> unat MAX_LEASE_BATCH"
      "list_all (\<lambda>(c, attempt). acked s1 < c \<and> c \<notin> set ever \<and> 1 \<le> attempt) ls"
      by (rule script_lease[OF inv high s k])
    then show thesis by (intro that[of r1 ever s1]) (simp_all add: step True script_step_def)
  next
    case False
    show thesis
    proof (cases "high < acked s + 1")
      case True
      have "script_inv high (Suc k) ever s" using inv by (auto simp: script_inv_def le_Suc_eq)
      with True False s show thesis by (intro that[of r ever s]) (simp_all add: step script_step_def Let_def)
    next
      case nxt: False
      then have le: "acked s + 1 \<le> high" by (simp add: not_less)
      note facts = script_ack[OF inv le high]
      show thesis
      proof (cases "kind = 1")
        case True
        with facts nxt s show thesis
          by (intro that[of "apply_sub r (Ack ''s'' (acked s + 1))" "(acked s + 1) # ever" "apply_ack s (acked s + 1)"])
            (simp_all add: step script_step_def Let_def reg_get_apply)
      next
        case k1: False
        with \<open>kind \<noteq> 0\<close> facts nxt s show thesis
          by (intro that[of "apply_sub r (Nack ''s'' (acked s + 1))" ever "apply_nack s (acked s + 1)"])
            (simp_all add: step script_step_def Let_def reg_get_apply)
      qed
    qed
  qed
qed

lemma run_script_passes:
  assumes "script_inv high k ever s" "high \<noteq> top_word" "reg_get r ''s'' = Some s" "k + length steps < 2 ^ 32" "low \<le> acked s"
  shows "run_script high steps r now low ever"
  using assms
proof (induction steps arbitrary: k ever s r now low)
  case (Cons step steps)
  have "Suc k < 2 ^ 32" using Cons.prems(4) by simp
  then obtain r1 ever1 s1 where 1: "script_step high step (r, now + fst (snd step), ever) = Some (r1, ever1)"
    "reg_get r1 ''s'' = Some s1" "script_inv high (Suc k) ever1 s1" "acked s \<le> acked s1"
    by (rule script_step_passes[OF Cons.prems(1-3)])
  have "run_script high steps r1 (now + fst (snd step)) (acked s1) ever1"
    by (rule Cons.IH[OF 1(3) Cons.prems(2) 1(2)]) (use Cons.prems(4) in simp_all)
  with 1 Cons.prems(5) script_inv_acked[OF 1(3)] show ?case by (auto simp: Let_def)
qed simp

lemma reg_state:
  "reg_get (reg deadline m) ''s'' = Some (default_state\<lparr>policy := \<lparr>ack_deadline_secs = deadline, max_delivery_attempts = m\<rparr>\<rparr>)"
  by (simp add: reg_def reg_get_apply)

text \<open>C24: The first randomized test passes on every input: any highest cursor, any deadline, any script of leases,
  acks, nacks and time steps.\<close>

theorem lease_ack_invariants_hold_passes:
  assumes "high \<noteq> top_word" "length steps < 2 ^ 32"
  shows "lease_ack_invariants_hold high deadline steps"
  unfolding lease_ack_invariants_hold_def
proof (rule run_script_passes[of high 0 "[]"])
  let ?s = "default_state\<lparr>policy := \<lparr>ack_deadline_secs = deadline, max_delivery_attempts = 0\<rparr>\<rparr>"
  show "script_inv high 0 [] ?s"
    using sub_inv_default by (auto simp: script_inv_def handled_iff default_state_def attempt_count_def sub_inv_def
        zero_free_def floor_maximal_def leases_counted_def)
qed (use assms reg_state in simp_all)

lemma lease_ack_invariants_hold_passes_witness:
  "lease_ack_invariants_hold 3 1 [(0, 1, 2), (1, 0, 1), (2, 5, 1), (0, 9, 4)]"
  by (rule lease_ack_invariants_hold_passes) simp_all

section \<open>Acking everything\<close>

text \<open>Both tests lease once from a fresh subscription, of which this is what they rely on.\<close>

lemma fresh_lease:
  assumes "high \<noteq> top_word"
  obtains r ls s where "lease_apply (reg deadline 0) high 0 now mx = Some (r, ls)" "reg_get r ''s'' = Some s"
    and "sub_inv s" "handled s = {0}" "fmdom' (leases s) \<subseteq> {c. 0 < c \<and> c \<le> high}"
proof -
  let ?s = "default_state\<lparr>policy := \<lparr>ack_deadline_secs = deadline, max_delivery_attempts = 0\<rparr>\<rparr>"
  have s: "script_inv high 0 [] ?s"
    using sub_inv_default by (auto simp: script_inv_def handled_iff default_state_def attempt_count_def sub_inv_def
        zero_free_def floor_maximal_def leases_counted_def)
  have fresh: "handled ?s = {0}" "leases ?s = fmempty" by (auto simp: handled_iff default_state_def)
  obtain r ls s1 where "lease_apply (reg deadline 0) high 0 now mx = Some (r, ls)" "reg_get r ''s'' = Some s1"
    "script_inv high (Suc 0) [] s1" "handled s1 = handled ?s" "fmdom' (leases s1) \<subseteq> fmdom' (leases ?s) \<union> {c. 0 < c \<and> c \<le> high}"
    by (rule script_lease[OF s assms reg_state[of deadline], where now = now and mx = mx]) simp
  with fresh show thesis by (intro that[of r ls s1]) (simp_all add: script_inv_def)
qed

definition acking_all_in_order_reaches_high :: "cursor \<Rightarrow> bool" where
  "acking_all_in_order_reaches_high high =
     (case lease_apply (reg 30 0) high 0 100 MAX_LEASE_BATCH of
        None \<Rightarrow> False
      | Some (r, _) \<Rightarrow>
          (case reg_get (foldl (\<lambda>r c. apply_sub r (Ack ''s'' c)) r (cursors_upto 1 high)) ''s'' of
             None \<Rightarrow> False
           | Some s \<Rightarrow> acked s = high \<and> outstanding s = 0))"

text \<open>The multiplier and shift of the test's shuffle, and its loop from the last index down to 1.\<close>

fun shuffle :: "u64 \<Rightarrow> nat \<Rightarrow> cursor list \<Rightarrow> cursor list" where
  "shuffle s 0 order = order"
| "shuffle s (Suc i) order =
     (let s1 = s * 6364136223846793005 + 1; j = unat (drop_bit 33 s1) mod (Suc i + 1) in
      shuffle s1 i (order[Suc i := order ! j, j := order ! Suc i]))"

text \<open>After each ack the floor must be the end of the contiguous prefix; the loop that looks for that end has
  the body of the one in \<open>plan_lease\<close>.\<close>

fun ack_each :: "sub_registry \<Rightarrow> cursor list \<Rightarrow> cursor list \<Rightarrow> sub_registry option" where
  "ack_each r acks [] = Some r"
| "ack_each r acks (c # order) =
     (let r1 = apply_sub r (Ack ''s'' c); acks1 = c # acks in
      case (bridge_floor (fset_of_list acks1) 0, reg_get r1 ''s'') of
        (Some expected, Some s) \<Rightarrow> if acked s = expected then ack_each r1 acks1 order else None
      | _ \<Rightarrow> None)"

definition out_of_order_acks_track_contiguous_prefix :: "cursor \<Rightarrow> u64 \<Rightarrow> bool" where
  "out_of_order_acks_track_contiguous_prefix high seed =
     (case lease_apply (reg 30 0) high 0 100 MAX_LEASE_BATCH of
        None \<Rightarrow> False
      | Some (r, _) \<Rightarrow>
          (let order = cursors_upto 1 high in
           case ack_each r [] (shuffle (seed OR 1) (length order - 1) order) of
             None \<Rightarrow> False
           | Some r1 \<Rightarrow> (case reg_get r1 ''s'' of None \<Rightarrow> False | Some s \<Rightarrow> acked s = high)))"

lemma mset_shuffle: "i < length order \<Longrightarrow> mset (shuffle s i order) = mset order"
proof (induction s i order rule: shuffle.induct)
  case (2 s i order)
  have "unat (drop_bit 33 (s * 6364136223846793005 + 1)) mod (Suc i + 1) < length order"
    using 2(2) by (intro less_le_trans[OF mod_less_divisor]) simp_all
  then show ?case using 2 by (simp add: Let_def mset_swap)
qed simp

lemma set_shuffle: "set (shuffle s (length order - 1) order) = set order"
  by (cases "order = []") (auto intro!: mset_eq_setD mset_shuffle)

lemma floor_end:
  assumes "sub_inv s" "handled s = insert 0 C" "0 \<notin> C" "m + 1 \<notin> C" "\<forall>d. 0 < d \<longrightarrow> d \<le> m \<longrightarrow> d \<in> C" "m \<noteq> top_word"
  shows "acked s = m"
proof (rule order_antisym)
  have all: "c \<le> acked s \<longleftrightarrow> (\<forall>d \<le> c. d = 0 \<or> d \<in> C)" for c
    using floor_iff[OF assms(1), of c] assms(2) by simp
  show "m \<le> acked s" using all[of m] assms(5) by (auto simp: word_neq_0_conv)
  have "\<not> m + 1 \<le> acked s" using all[of "m + 1"] assms(4,6) by (auto simp: inc_neq_0)
  then show "acked s \<le> m" using assms(6) by (simp add: inc_le_iff not_less)
qed

lemma ack_each_passes:
  assumes "reg_get r ''s'' = Some s" "sub_inv s" "handled s = insert 0 (set acks)"
    and "set acks \<union> set order \<subseteq> {c. 0 < c \<and> c \<noteq> top_word}"
  shows "\<exists>r1 s1. ack_each r acks order = Some r1 \<and> reg_get r1 ''s'' = Some s1 \<and> sub_inv s1 \<and>
    handled s1 = insert 0 (set acks \<union> set order)"
  using assms
proof (induction order arbitrary: r s acks)
  case (Cons c order)
  let ?s = "apply_ack s c"
  have s1: "reg_get (apply_sub r (Ack ''s'' c)) ''s'' = Some ?s" "sub_inv ?s" "handled ?s = insert 0 (set (c # acks))"
    using Cons.prems by (auto simp: reg_get_apply sub_inv_ack handled_ack sub_invD(1))
  have "0 |\<notin>| fset_of_list (c # acks)" using Cons.prems(4) by (auto simp: fset_of_list_elem)
  then obtain m where m: "bridge_floor (fset_of_list (c # acks)) 0 = Some m" "m + 1 \<notin> set (c # acks)"
    "\<forall>d. 0 < d \<longrightarrow> d \<le> m \<longrightarrow> d \<in> set (c # acks)"
    using bridge_floor_spec[of "fset_of_list (c # acks)" 0] by (auto simp: fset_of_list_elem)
  have "m \<noteq> top_word"
  proof
    assume "m = top_word"
    moreover have "0 < (top_word :: cursor)" by (simp add: word_gt_0)
    ultimately have "top_word \<in> set (c # acks)" using m(3) by blast
    with Cons.prems(4) show False by auto
  qed
  then have "acked ?s = m"
    using Cons.prems(4) by (intro floor_end[OF s1(2,3) _ m(2,3)]) auto
  then have "ack_each r acks (c # order) = ack_each (apply_sub r (Ack ''s'' c)) (c # acks) order"
    using m(1) s1(1) by (simp add: Let_def)
  with Cons.IH[OF s1] Cons.prems(4) show ?case by simp
qed auto

text \<open>Both tests pass for every highest cursor, the second for every seed of its shuffle.\<close>

theorem acking_all_in_order_passes:
  assumes "high \<noteq> top_word"
  shows "acking_all_in_order_reaches_high high"
proof -
  let ?cs = "cursors_upto 1 high"
  have cs: "set ?cs = {c. 0 < c \<and> c \<le> high}" by (auto simp: word_le_nat_alt word_less_nat_alt)
  obtain r ls s where lease: "lease_apply (reg 30 0) high 0 100 MAX_LEASE_BATCH = Some (r, ls)" "reg_get r ''s'' = Some s"
    and s: "sub_inv s" "handled s = {0}" "fmdom' (leases s) \<subseteq> {c. 0 < c \<and> c \<le> high}"
    by (rule fresh_lease[OF assms])
  have fold: "foldl (\<lambda>r c. apply_sub r (Ack ''s'' c)) r ?cs = replay apply_sub r (map (Ack ''s'') ?cs)"
    by (simp add: replay_def foldl_map)
  let ?t = "foldl apply_ack s ?cs"
  have t: "reg_get (foldl (\<lambda>r c. apply_sub r (Ack ''s'' c)) r ?cs) ''s'' = Some ?t"
    unfolding fold by (rule acks_state[OF lease(2)])
  have "acked ?t = high"
  proof (rule floor_end)
    show "handled ?t = insert 0 {c. 0 < c \<and> c \<le> high}" using acks_inv(2)[OF s(1), of ?cs] by (simp only: s(2) cs) auto
    show "high + 1 \<notin> {c. 0 < c \<and> c \<le> high}" using assms by (simp add: inc_le_iff)
  qed (use acks_inv(1)[OF s(1)] assms in auto)
  moreover have "fmlookup (leases ?t) c = None" for c
  proof (cases "c \<in> set ?cs")
    case False
    then have "c \<notin> fmdom' (leases s)" using s(3) unfolding cs by blast
    then show ?thesis by (simp add: acks_drop fmdom'_notD)
  qed (simp add: acks_drop del: set_cursors_upto)
  then have "leases ?t = fmempty" by (intro fmap_ext) simp
  ultimately show ?thesis
    by (simp add: acking_all_in_order_reaches_high_def lease t outstanding_def)
qed

lemma acking_all_in_order_passes_witness: "acking_all_in_order_reaches_high 59"
  by (rule acking_all_in_order_passes) simp

theorem out_of_order_acks_pass:
  assumes "high \<noteq> top_word"
  shows "out_of_order_acks_track_contiguous_prefix high seed"
proof -
  let ?cs = "cursors_upto 1 high" and ?order = "shuffle (seed OR 1) (length (cursors_upto 1 high) - 1) (cursors_upto 1 high)"
  have cs: "set ?order = {c. 0 < c \<and> c \<le> high}"
    unfolding set_shuffle by (auto simp: word_le_nat_alt word_less_nat_alt)
  obtain r ls s where lease: "lease_apply (reg 30 0) high 0 100 MAX_LEASE_BATCH = Some (r, ls)" "reg_get r ''s'' = Some s"
    and s: "sub_inv s" "handled s = {0}"
    by (rule fresh_lease[OF assms])
  have "set [] \<union> set ?order \<subseteq> {c. 0 < c \<and> c \<noteq> top_word}"
    unfolding cs using assms le_not_top by auto
  then obtain r1 s1 where each: "ack_each r [] ?order = Some r1" "reg_get r1 ''s'' = Some s1" "sub_inv s1"
    "handled s1 = insert 0 {c. 0 < c \<and> c \<le> high}"
    using ack_each_passes[OF lease(2) s(1), of "[]" ?order] s(2) cs by auto
  have "acked s1 = high"
    by (rule floor_end[OF each(3,4)]) (use assms in \<open>auto simp: inc_le_iff\<close>)
  then show ?thesis
    using each(1)
    by (simp only: out_of_order_acks_track_contiguous_prefix_def lease each(2) Let_def prod.case option.case)
qed

lemma out_of_order_acks_pass_witness: "out_of_order_acks_track_contiguous_prefix 24 12345"
  by (rule out_of_order_acks_pass) simp

section \<open>A poison message\<close>

text \<open>The rounds of \<open>dead_letter_fires_once_at_threshold\<close>, with what was delivered and dead-lettered so far; the
  numbers 3 and 10 of the test are parameters.\<close>

fun poison_rounds :: "nat \<Rightarrow> sub_registry \<Rightarrow> u64 \<Rightarrow> nat \<Rightarrow> nat \<Rightarrow> (sub_registry \<times> nat \<times> nat) option" where
  "poison_rounds 0 r now delivered dead_total = Some (r, delivered, dead_total)"
| "poison_rounds (Suc n) r now delivered dead_total =
     Option.bind (plan_lease r ''s'' 1 0 now 10) (\<lambda>plan.
       case plan of
         None \<Rightarrow> poison_rounds n r (now + 5) delivered dead_total
       | Some (x, out) \<Rightarrow> poison_rounds n (apply_sub r x) (now + 5)
           (delivered + length (leased out)) (dead_total + length (dead_lettered out)))"

definition dead_letter_fires_once :: "u32 \<Rightarrow> nat \<Rightarrow> bool" where
  "dead_letter_fires_once max_attempts rounds =
     (case poison_rounds rounds (reg 1 max_attempts) 100 0 0 of
        None \<Rightarrow> False
      | Some (r, delivered, dead_total) \<Rightarrow>
          delivered = unat max_attempts \<and> dead_total = 1 \<and>
          (case reg_get r ''s'' of None \<Rightarrow> False | Some s \<Rightarrow> acked s = 1))"

definition poisoned :: "u32 \<Rightarrow> u32 \<Rightarrow> u64 \<Rightarrow> subscription_state \<Rightarrow> bool" where
  "poisoned m k now s \<longleftrightarrow> acked s = 0 \<and> dead s = fmempty \<and> acked_set s = fmempty \<and>
     policy s = \<lparr>ack_deadline_secs = 1, max_delivery_attempts = m\<rparr> \<and> attempt_count s 1 = k \<and>
     (\<forall>l. fmlookup (leases s) 1 = Some l \<longrightarrow> expires_at l \<le> now)"

lemmas poison_simps = plan_lease_def scan_lease.simps bridge_floor.simps poisoned_def exhausted_def next_attempt_def
  empty_scan_def MAX_LEASE_BATCH_def Let_def min_def word_le_nat_alt

lemma poison_lease:
  assumes "reg_get r ''s'' = Some s" "poisoned m k now s" "k < m"
  shows "plan_lease r ''s'' 1 0 now 10 =
    Some (Some (ApplyLease ''s'' [(1, lease_expiry s now)] [] 0, \<lparr>leased = [(1, k + 1)], dead_lettered = []\<rparr>))"
proof -
  have "\<not> m < k + 1" using assms(3) by (simp add: not_less inc_le_iff less_not_top)
  moreover have "\<not> withheld s now 1" using assms(2) by (auto simp: poisoned_def withheld_def not_less split: option.splits)
  ultimately show ?thesis
    using assms by (simp add: poison_simps)
qed

lemma poison_dead:
  assumes "reg_get r ''s'' = Some s" "poisoned m m now s" "m \<noteq> 0" "m \<noteq> top_word"
  shows "plan_lease r ''s'' 1 0 now 10 = Some (Some (ApplyLease ''s'' [] [1] 1, \<lparr>leased = [], dead_lettered = [1]\<rparr>))"
proof -
  have "m < m + 1" by (rule less_inc_self[OF assms(4)])
  moreover have "\<not> withheld s now 1" using assms(2) by (auto simp: poisoned_def withheld_def not_less split: option.splits)
  ultimately show ?thesis
    using assms by (simp add: poison_simps)
qed

lemma poison_idle:
  assumes "reg_get r ''s'' = Some s" "acked s = 1" "zero_free s"
  shows "poison_rounds n r now delivered dead_total = Some (r, delivered, dead_total)"
proof -
  have "deliverable s 1 0 now = []" for now by (simp add: deliverable_def assms(2) cursors_upto_Nil)
  then have picked: "lease_picked s 1 0 now 10 = ([], [])" for now
    by (cases "unat (min 10 MAX_LEASE_BATCH)") (simp_all add: lease_picked_def)
  have "plan_lease r ''s'' 1 0 now 10 = Some None" for now
    by (rule plan_lease_cases[OF assms(1,3), of 1 0 now 10]) (use picked in \<open>simp_all add: assms(2)\<close>)
  then show ?thesis by (induction n arbitrary: now) simp_all
qed

lemma poison_next:
  assumes "poisoned m k now s" "unat now + 5 < 2 ^ 64"
  shows "poisoned m (k + 1) (now + 5) (apply_lease s [(1, lease_expiry s now)] [] 0)"
proof -
  have "lease_expiry s now \<le> now + 5"
    using assms by (simp add: lease_expiry_def poisoned_def sat_add_def MAX_ACK_DEADLINE_SECS_def word_le_nat_alt
        unat_word_ariths min_def max_def)
  then show ?thesis
    using assms(1) by (auto simp: poisoned_def apply_lease_def add_lease_def raise_floor_def attempt_count_def Let_def
        cong del: fmfilter_cong)
qed

lemma poison_end:
  assumes "poisoned m k now s"
  shows "acked (apply_lease s [] [1] 1) = 1 \<and> zero_free (apply_lease s [] [1] 1)"
proof -
  have "0 \<notin> fmdom' (acked_set s) \<union> ({1} \<union> fmdom' (dead s))" using assms by (simp add: poisoned_def)
  then show ?thesis
    using assms by (auto simp: zero_free_def poisoned_def apply_lease_fields apply_lease_sets)
qed

lemma poison_run:
  assumes "reg_get r ''s'' = Some s" "poisoned m k now s" "k \<le> m" "m \<noteq> 0" "m \<noteq> top_word"
    and "unat m - unat k < n" "unat now + 5 * n < 2 ^ 64"
  shows "\<exists>r1 s1. poison_rounds n r now delivered dead_total = Some (r1, delivered + (unat m - unat k), dead_total + 1) \<and>
    reg_get r1 ''s'' = Some s1 \<and> acked s1 = 1"
  using assms
proof (induction n arbitrary: r s k now delivered)
  case (Suc n)
  have now: "unat now + 5 < 2 ^ 64" "unat (now + 5) + 5 * n < 2 ^ 64" if "0 < n"
    using that Suc.prems(7) by (simp_all add: unat_word_ariths)
  show ?case
  proof (cases "k = m")
    case True
    let ?r = "apply_sub r (ApplyLease ''s'' [] [1] 1)"
    have r: "reg_get ?r ''s'' = Some (apply_lease s [] [1] 1)" using Suc.prems(1) by (simp add: reg_get_apply)
    have "poison_rounds (Suc n) r now delivered dead_total = Some (?r, delivered, dead_total + 1)"
      using poison_dead[OF Suc.prems(1) _ Suc.prems(4,5)] Suc.prems(2) poison_idle[OF r] poison_end[OF Suc.prems(2)]
      by (simp add: True)
    then show ?thesis using r poison_end[OF Suc.prems(2)] True by auto
  next
    case False
    with Suc.prems(3) have k: "k < m" by simp
    then have next_k: "unat (k + 1) = Suc (unat k)" "k + 1 \<le> m" by (simp_all add: unat_inc inc_le_iff less_not_top)
    have n: "0 < n" "unat m - unat (k + 1) < n" using Suc.prems(6) k next_k(1) by (simp_all add: word_less_nat_alt)
    let ?s = "apply_lease s [(1, lease_expiry s now)] [] 0"
    let ?r = "apply_sub r (ApplyLease ''s'' [(1, lease_expiry s now)] [] 0)"
    have r: "reg_get ?r ''s'' = Some ?s" using Suc.prems(1) by (simp add: reg_get_apply)
    obtain r1 s1 where "poison_rounds n ?r (now + 5) (delivered + 1) dead_total =
        Some (r1, delivered + 1 + (unat m - unat (k + 1)), dead_total + 1)" "reg_get r1 ''s'' = Some s1" "acked s1 = 1"
      using Suc.IH[OF r poison_next[OF Suc.prems(2) now(1)[OF n(1)]] next_k(2) Suc.prems(4,5) n(2) now(2)[OF n(1)]] by blast
    moreover have "delivered + 1 + (unat m - unat (k + 1)) = delivered + (unat m - unat k)"
      using k next_k(1) by (simp add: word_less_nat_alt)
    ultimately show ?thesis using poison_lease[OF Suc.prems(1,2) k] by simp
  qed
qed simp

text \<open>The test on a poison message passes for every limit and every number of rounds above it: the message is
  delivered exactly as often as the limit says, dead-lettered exactly once, and the floor moves past it.\<close>

theorem dead_letter_fires_once_passes:
  assumes "m \<noteq> 0" "unat m < rounds" "100 + 5 * rounds < 2 ^ 64" "m \<noteq> top_word"
  shows "dead_letter_fires_once m rounds"
proof -
  let ?s = "default_state\<lparr>policy := \<lparr>ack_deadline_secs = 1, max_delivery_attempts = m\<rparr>\<rparr>"
  have "poisoned m 0 100 ?s" by (simp add: poisoned_def default_state_def attempt_count_def)
  from poison_run[OF reg_state this _ assms(1,4), of rounds 0 0] assms(2,3) obtain r1 s1 where
    "poison_rounds rounds (reg 1 m) 100 0 0 = Some (r1, unat m, 1)" "reg_get r1 ''s'' = Some s1" "acked s1 = 1"
    by auto
  then show ?thesis by (simp add: dead_letter_fires_once_def)
qed

lemma dead_letter_fires_once_passes_witness: "dead_letter_fires_once 3 10"
  by (rule dead_letter_fires_once_passes) simp_all

section \<open>The cursors of the log\<close>

text \<open>\<open>log_cursor_algebra_holds\<close>: append, perhaps prune, and look at the cursors.  What the bodies of the
  messages are plays no role, so they are an argument.\<close>

fun append_next :: "hex_codec \<Rightarrow> (cursor \<Rightarrow> bytes) \<Rightarrow> nat \<Rightarrow> topic_log \<Rightarrow> topic_log" where
  "append_next hx body 0 log = log"
| "append_next hx body (Suc n) log =
     (let c = next_cursor log in
      append_next hx body n (apply_log log (Append (new_message hx c ''w'' (body c) (1000 + c)))))"

definition log_cursor_algebra_holds :: "hex_codec \<Rightarrow> (cursor \<Rightarrow> bytes) \<Rightarrow> u64 \<Rightarrow> u64 \<Rightarrow> bool \<Rightarrow> bool" where
  "log_cursor_algebra_holds hx body appends prune_at do_prune =
     (let log = append_next hx body (unat appends) empty_log in
      high_cursor log = appends \<and> next_cursor log = appends + 1 \<and> log_len log = unat appends \<and>
      (if do_prune \<and> 0 < appends then
         let up_to = prune_at mod (appends + 1); log1 = apply_log log (PruneTo up_to); all = log_all log1 in
         log_floor log1 = up_to \<and> high_cursor log1 = appends \<and>
         successively (\<lambda>a b. msg_cursor a < msg_cursor b) all \<and> list_all (\<lambda>m. up_to < msg_cursor m) all \<and>
         length (log_since log1 up_to) = length all \<and> length (log_since log1 appends) = 0
       else True))"

lemma append_next_state:
  assumes "log_inv log" "log_floor log = 0" "length (log_messages log) + n < 2 ^ 64"
  shows "log_inv (append_next hx body n log) \<and> log_floor (append_next hx body n log) = 0 \<and>
    length (log_messages (append_next hx body n log)) = length (log_messages log) + n"
  using assms
proof (induction n arbitrary: log)
  case (Suc n)
  have "high_cursor log \<noteq> top_word"
  proof
    assume "high_cursor log = top_word"
    then have "unat (top_word :: cursor) = length (log_messages log)" using unat_high_cursor[OF Suc.prems(1)] Suc.prems(2) by simp
    then show False using Suc.prems(3) by (simp add: unat_top)
  qed
  then have "log_inv (apply_log log (Append m))" for m
    by (intro apply_log_inv[OF Suc.prems(1)]) (simp add: log_admissible_def)
  then show ?case using Suc.IH Suc.prems(2,3) by (simp add: Let_def)
qed simp

lemma numbered_successively: "numbered f a xs \<Longrightarrow> successively (\<lambda>x y. f x < f y) xs"
  by (auto simp: successively_conv_nth numbered_def)

text \<open>The test passes for every number of messages and every cursor to prune to.\<close>

theorem log_cursor_algebra_passes:
  assumes "appends \<noteq> top_word"
  shows "log_cursor_algebra_holds hx body appends prune_at do_prune"
proof -
  define log where "log = append_next hx body (unat appends) empty_log"
  have len: "unat appends < 2 ^ 64" by (rule unat_u64_less)
  have empty: "log_floor empty_log = 0" "length (log_messages empty_log) = 0" by (simp_all add: empty_log_def)
  have log: "log_inv log" "log_floor log = 0" "length (log_messages log) = unat appends"
    using append_next_state[OF log_inv_empty empty(1), of "unat appends" hx body] len unfolding log_def empty(2) by simp_all
  then have high: "high_cursor log = appends" by (simp add: high_cursor_def)
  define u where "u = prune_at mod (appends + 1)"
  have "unat (appends + 1) = Suc (unat appends)" by (rule unat_inc[OF assms])
  then have u: "unat u \<le> unat appends"
    by (simp add: u_def unat_mod less_Suc_eq_le[symmetric])
  let ?log = "apply_log log (PruneTo u)"
  have inv: "log_inv ?log" by (rule apply_log_inv[OF log(1)]) (simp add: log_admissible_def)
  have floor: "log_floor ?log = u"
    using unat_floor_prune[OF log(1), of u] u by (intro unsigned_word_eqI) (simp add: log)
  have high1: "high_cursor ?log = appends" by (simp add: high_cursor_prune[OF log(1)] high)
  have num: "numbered cursor_nat (unat u) (log_messages ?log)" using inv floor by (simp add: log_inv_def)
  then have "list_all (\<lambda>m. u < msg_cursor m) (log_messages ?log)"
    by (auto simp: list_all_length numbered_def word_less_nat_alt)
  moreover have "length (log_since ?log u) = length (log_messages ?log)"
    by (simp add: log_since_drop[OF inv] floor)
  moreover have "length (log_since ?log appends) = 0"
    using unat_high_cursor[OF inv] by (simp add: log_since_drop[OF inv] floor high1)
  ultimately show ?thesis
    using numbered_successively[OF num] log(3) high floor high1
    by (simp add: log_cursor_algebra_holds_def Let_def log_def[symmetric] u_def[symmetric] next_cursor_def log_len_def
        log_all_def word_less_nat_alt)
qed

lemma log_cursor_algebra_passes_witness: "log_cursor_algebra_holds letter_hex (\<lambda>c. []) 39 25 True"
  by (rule log_cursor_algebra_passes) simp

end
