(* ===== verification/Registry_Tests.thy ===== *)
theory Registry_Tests
  imports Display Owner Property_Tests
begin

text \<open>
  The unit tests at the end of \<open>src/src/log.rs\<close> and \<open>src/src/subscription.rs\<close>, as programs on the model: each
  definition is the body of the test of its name and is true when the test ends with every assertion met.
  The two theorems say that the model passes them.
\<close>

section \<open>Snapshots\<close>

text \<open>Saving and loading a snapshot is code that a macro of \<open>ce-coord\<close> generates, so both are parameters, and
  so is the type of a snapshot; the tests rely on the round trip.\<close>

definition snapshot_contract :: "('s \<Rightarrow> error + 'b) \<Rightarrow> ('b \<Rightarrow> error + 's) \<Rightarrow> bool" where
  "snapshot_contract save load \<longleftrightarrow> (\<forall>s. \<exists>bs. save s = Inr bs \<and> load bs = Inr s)"

lemma snapshot_roundtrips: "snapshot_contract save load \<Longrightarrow> unwrap_ok (save s) (\<lambda>bs. unwrap_ok (load bs) P) = P s"
  unfolding snapshot_contract_def by (metis unwrap_simps(3))

section \<open>The topic log\<close>

definition log_msg :: "hex_codec \<Rightarrow> cursor \<Rightarrow> string \<Rightarrow> message" where
  "log_msg hx cursor body = new_message hx cursor ''writer'' (map of_char body) (1000 + cursor)"

definition m_ops :: "hex_codec \<Rightarrow> cursor list \<Rightarrow> log_op list" where
  "m_ops hx cs = map (\<lambda>i. Append (log_msg hx i (''m'' @ decimal (unat i)))) cs"

definition append_assigns_monotonic_cursors :: "hex_codec \<Rightarrow> bool" where
  "append_assigns_monotonic_cursors hx \<longleftrightarrow>
     next_cursor empty_log = 1 \<and>
     (let log = apply_log (apply_log empty_log (Append (log_msg hx 1 ''a''))) (Append (log_msg hx 2 ''b'')) in
      high_cursor log = 2 \<and> next_cursor log = 3 \<and> log_len log = 2)"

definition since_returns_strict_tail :: "hex_codec \<Rightarrow> bool" where
  "since_returns_strict_tail hx \<longleftrightarrow>
     (let log = replay apply_log empty_log
            [Append (log_msg hx 1 ''a''), Append (log_msg hx 2 ''b''), Append (log_msg hx 3 ''c'')];
          tail = log_since log 1 in
      length tail = 2 \<and> msg_cursor (tail ! 0) = 2 \<and> msg_cursor (tail ! 1) = 3 \<and>
      length (log_since log 0) = 3 \<and> length (log_since log 3) = 0)"

definition prune_advances_floor_and_keeps_cursors_absolute :: "hex_codec \<Rightarrow> bool" where
  "prune_advances_floor_and_keeps_cursors_absolute hx \<longleftrightarrow>
     (let log = apply_log (replay apply_log empty_log (m_ops hx [1, 2, 3, 4, 5])) (PruneTo 2); all = log_all log in
      log_floor log = 2 \<and> log_len log = 3 \<and> msg_cursor (all ! 0) = 3 \<and> msg_cursor (all ! 2) = 5 \<and>
      high_cursor log = 5 \<and> next_cursor log = 6 \<and> length (log_since log 0) = 3)"

definition shows_text :: "hex_codec \<Rightarrow> topic_log \<Rightarrow> cursor \<Rightarrow> string \<Rightarrow> bool" where
  "shows_text hx log c body = unwrap (log_get log c) (\<lambda>m. message_text hx m = body)"

definition get_indexes_by_absolute_cursor_after_prune :: "hex_codec \<Rightarrow> bool" where
  "get_indexes_by_absolute_cursor_after_prune hx \<longleftrightarrow>
     (let log = replay apply_log empty_log (m_ops hx [1, 2, 3, 4, 5]); log1 = apply_log log (PruneTo 2) in
      shows_text hx log 1 ''m1'' \<and> shows_text hx log 5 ''m5'' \<and> log_get log 0 = None \<and> log_get log 6 = None \<and>
      log_get log1 1 = None \<and> log_get log1 2 = None \<and> shows_text hx log1 3 ''m3'' \<and> shows_text hx log1 5 ''m5'' \<and>
      log_get log1 6 = None)"

definition append_restamps_cursor_to_preserve_invariant :: "hex_codec \<Rightarrow> bool" where
  "append_restamps_cursor_to_preserve_invariant hx \<longleftrightarrow>
     (let log = apply_log empty_log (Append (log_msg hx 999 ''out-of-band cursor''));
          log1 = apply_log log (Append (log_msg hx 0 ''another'')) in
      high_cursor log = 1 \<and> msg_cursor (log_all log ! 0) = 1 \<and> msg_cursor (log_all log1 ! 1) = 2 \<and>
      log_get log1 999 = None \<and> shows_text hx log1 1 ''out-of-band cursor'')"

definition snapshot_ops :: "hex_codec \<Rightarrow> log_op list" where
  "snapshot_ops hx = concat (map (\<lambda>i. Append (log_msg hx (of_nat i) (''m'' @ decimal i)) #
     (if i mod 7 = 0 then [PruneTo (of_nat i - 3)] else [])) [1..<21])"

definition snapshot_plus_tail_equals_full_replay ::
  "(topic_log \<Rightarrow> error + 'b) \<Rightarrow> ('b \<Rightarrow> error + topic_log) \<Rightarrow> hex_codec \<Rightarrow> bool" where
  "snapshot_plus_tail_equals_full_replay save load hx \<longleftrightarrow>
     (let ops = snapshot_ops hx; reference = replay apply_log empty_log ops in
      list_all (\<lambda>cut. unwrap_ok (save (replay apply_log empty_log (take cut ops))) (\<lambda>bs.
        unwrap_ok (load bs) (\<lambda>reader. replay apply_log reader (drop cut ops) = reference)))
        [0..<Suc (length ops)])"

lemmas log_test_simps = m_ops_def next_cursor_def high_cursor_def empty_log_def
  apply_log.simps log_len_def log_since_def log_all_def log_get_def word_less_nat_alt word_le_nat_alt Let_def

lemma appended_text:
  assumes "hex_contract hx" "list_all (\<lambda>c. of_char c < (128 :: nat)) body"
  shows "message_text hx ((log_msg hx c body)\<lparr>msg_cursor := d\<rparr>) = body"
  using ascii_text[OF assms, of d] by (simp add: log_msg_def new_message_def)

lemma m_bodies: "''m'' @ decimal 1 = ''m1''" "''m'' @ decimal 2 = ''m2''" "''m'' @ decimal 3 = ''m3''"
  "''m'' @ decimal 4 = ''m4''" "''m'' @ decimal 5 = ''m5''"
  by code_simp+

theorem log_tests_pass:
  assumes "hex_contract hx" "snapshot_contract save load"
  shows "append_assigns_monotonic_cursors hx \<and> since_returns_strict_tail hx \<and>
    prune_advances_floor_and_keeps_cursors_absolute hx \<and> get_indexes_by_absolute_cursor_after_prune hx \<and>
    append_restamps_cursor_to_preserve_invariant hx \<and> snapshot_plus_tail_equals_full_replay save load hx"
proof (intro conjI)
  show "append_assigns_monotonic_cursors hx" "since_returns_strict_tail hx"
    by (simp_all add: append_assigns_monotonic_cursors_def since_returns_strict_tail_def log_test_simps)
  show "prune_advances_floor_and_keeps_cursors_absolute hx"
    by (simp add: prune_advances_floor_and_keeps_cursors_absolute_def log_test_simps)
  show "get_indexes_by_absolute_cursor_after_prune hx"
    by (simp add: get_indexes_by_absolute_cursor_after_prune_def shows_text_def log_test_simps m_bodies[simplified]
        appended_text[OF assms(1)])
  show "append_restamps_cursor_to_preserve_invariant hx"
    by (simp add: append_restamps_cursor_to_preserve_invariant_def shows_text_def log_test_simps appended_text[OF assms(1)])
  show "snapshot_plus_tail_equals_full_replay save load hx"
    by (simp add: snapshot_plus_tail_equals_full_replay_def snapshot_roundtrips[OF assms(2)] Let_def list_all_iff replay_def
        flip: foldl_append)
qed

lemma snapshot_contract_copy: "snapshot_contract Inr Inr"
  by (simp add: snapshot_contract_def)

lemma log_tests_pass_witness:
  "append_restamps_cursor_to_preserve_invariant letter_hex \<and> snapshot_plus_tail_equals_full_replay Inr Inr letter_hex"
  using log_tests_pass[OF letter_hex_contract snapshot_contract_copy] by blast

section \<open>The subscription registry\<close>

definition reg_with :: "string \<Rightarrow> subscription_policy \<Rightarrow> sub_registry" where
  "reg_with name p = apply_sub empty_registry (Create name p)"

text \<open>The helper \<open>lease\<close>, and what a test sees of the subscription it works on.\<close>

definition lease_out ::
  "sub_registry \<Rightarrow> string \<Rightarrow> cursor \<Rightarrow> u64 \<Rightarrow> usize \<Rightarrow> (sub_registry \<times> lease_outcome) option" where
  "lease_out r name high now mx =
     map_option (\<lambda>plan. case plan of Some (x, out) \<Rightarrow> (apply_sub r x, out)
       | None \<Rightarrow> (r, \<lparr>leased = [], dead_lettered = []\<rparr>)) (plan_lease r name high 0 now mx)"

definition test_policy :: "u64 \<Rightarrow> u32 \<Rightarrow> subscription_policy" where
  "test_policy deadline mx = \<lparr>ack_deadline_secs = deadline, max_delivery_attempts = mx\<rparr>"

definition floor_is :: "sub_registry \<Rightarrow> cursor \<Rightarrow> bool" where
  "floor_is r c = unwrap (reg_get r ''s'') (\<lambda>s. acked s = c)"

definition create_is_idempotent_and_preserves_progress :: bool where
  "create_is_idempotent_and_preserves_progress =
     unwrap (lease_out (reg_with ''s'' default_policy) ''s'' 3 100 10) (\<lambda>(r, _).
       let r1 = apply_sub r (Ack ''s'' 1); r2 = apply_sub r1 (Create ''s'' (test_policy 60 3)) in
       floor_is r1 1 \<and> floor_is r2 1 \<and> unwrap (reg_get r2 ''s'') (\<lambda>s. ack_deadline_secs (policy s) = 60))"

definition lease_then_ack_advances_floor :: bool where
  "lease_then_ack_advances_floor =
     unwrap (lease_out (reg_with ''s'' default_policy) ''s'' 5 100 10) (\<lambda>(r, out).
       map fst (leased out) = [1, 2, 3, 4, 5] \<and> dead_lettered out = [] \<and>
       unwrap (lease_out r ''s'' 5 100 10) (\<lambda>(r1, again).
         leased again = [] \<and>
         (let r2 = foldl (\<lambda>r c. apply_sub r (Ack ''s'' c)) r1 [1, 2, 3, 4, 5] in
          floor_is r2 5 \<and> unwrap (reg_get r2 ''s'') (\<lambda>s. outstanding s = 0))))"

definition expired_lease_is_redelivered_with_incremented_attempt :: bool where
  "expired_lease_is_redelivered_with_incremented_attempt =
     unwrap (lease_out (reg_with ''s'' (test_policy 30 5)) ''s'' 2 100 10) (\<lambda>(r, first).
       leased first = [(1, 1), (2, 1)] \<and>
       unwrap (lease_out r ''s'' 2 120 10) (\<lambda>(r1, early). leased early = [] \<and>
       unwrap (lease_out r1 ''s'' 2 200 10) (\<lambda>(_, second). leased second = [(1, 2), (2, 2)])))"

definition nack_makes_redeliverable_immediately :: bool where
  "nack_makes_redeliverable_immediately =
     unwrap (lease_out (reg_with ''s'' default_policy) ''s'' 1 100 10) (\<lambda>(r, _).
     unwrap (lease_out (apply_sub r (Nack ''s'' 1)) ''s'' 1 100 10) (\<lambda>(_, out). leased out = [(1, 2)]))"

text \<open>The loops that lease and let 10 seconds pass, checking each outcome.\<close>

fun lease_rounds :: "nat \<Rightarrow> (lease_outcome \<Rightarrow> bool) \<Rightarrow> sub_registry \<Rightarrow> u64 \<Rightarrow> (sub_registry \<times> u64) option" where
  "lease_rounds 0 ok r now = Some (r, now)"
| "lease_rounds (Suc n) ok r now =
     Option.bind (lease_out r ''s'' 1 now 10) (\<lambda>(r1, out).
       if ok out then lease_rounds n ok r1 (now + 10) else None)"

definition poison_message_is_dead_lettered_and_floor_advances :: bool where
  "poison_message_is_dead_lettered_and_floor_advances =
     unwrap (lease_rounds 3 (\<lambda>out. length (leased out) = 1 \<and> dead_lettered out = [])
         (reg_with ''s'' (test_policy 1 3)) 100) (\<lambda>(r, now).
     unwrap (lease_out r ''s'' 1 now 10) (\<lambda>(r1, dl).
       leased dl = [] \<and> dead_lettered dl = [1] \<and> floor_is r1 1 \<and>
       unwrap (reg_get r1 ''s'') (\<lambda>s. dead_cursors s = [])))"

definition dead_letter_does_not_stall_following_messages :: bool where
  "dead_letter_does_not_stall_following_messages =
     unwrap (lease_out (reg_with ''s'' (test_policy 1 1)) ''s'' 3 100 10) (\<lambda>(r, first).
       length (leased first) = 3 \<and>
       unwrap (lease_out r ''s'' 3 110 10) (\<lambda>(r1, dl).
         dead_lettered dl = [1, 2, 3] \<and> floor_is r1 3 \<and>
         unwrap (lease_out r1 ''s'' 4 110 10) (\<lambda>(_, nxt). leased nxt = [(4, 1)])))"

definition max_lease_batch_caps_response :: bool where
  "max_lease_batch_caps_response =
     unwrap (lease_out (reg_with ''s'' default_policy) ''s'' 5000 100 100) (\<lambda>(r, out).
       length (leased out) = 100 \<and>
       unwrap (lease_out r ''s'' 999999 100 top_word) (\<lambda>(_, out2). length (leased out2) \<le> unat MAX_LEASE_BATCH))"

definition floor_skips_pruned_cursors :: bool where
  "floor_skips_pruned_cursors =
     unwrap (plan_lease (reg_with ''s'' default_policy) ''s'' 10 4 100 100) (\<lambda>plan.
     unwrap plan (\<lambda>(x, out). map fst (take 1 (leased out)) = [5] \<and> length (leased out) = 6))"

definition floor_bridges_retention_so_subscription_does_not_stall :: bool where
  "floor_bridges_retention_so_subscription_does_not_stall =
     (let r = reg_with ''s'' default_policy in
      unwrap (plan_lease r ''s'' 5 3 100 10) (\<lambda>plan.
      unwrap plan (\<lambda>(x, out). let r1 = apply_sub r x in
        leased out = [(4, 1), (5, 1)] \<and> floor_is r1 3 \<and>
        floor_is (apply_sub (apply_sub r1 (Ack ''s'' 4)) (Ack ''s'' 5)) 5)))"

definition delete_removes_subscription :: bool where
  "delete_removes_subscription =
     (let r = reg_with ''s'' default_policy; r1 = apply_sub r (Delete ''s'') in
      reg_len r = 1 \<and> reg_is_empty r1 \<and> reg_get r1 ''s'' = None)"

definition capacity_guard :: bool where
  "capacity_guard =
     (let r = foldl (\<lambda>r i. apply_sub r (Create (''s'' @ decimal i) default_policy)) empty_registry [0..<MAX_SUBSCRIPTIONS] in
      \<not> at_capacity empty_registry ''new'' \<and> at_capacity r ''brand-new'' \<and> \<not> at_capacity r ''s0'')"

definition snapshot_roundtrip :: "(sub_registry \<Rightarrow> error + 'b) \<Rightarrow> ('b \<Rightarrow> error + sub_registry) \<Rightarrow> bool" where
  "snapshot_roundtrip save load =
     unwrap (lease_out (reg_with ''s'' default_policy) ''s'' 3 100 10) (\<lambda>(r, _).
       let r1 = apply_sub r (Ack ''s'' 1) in
       unwrap_ok (save r1) (\<lambda>bs. unwrap_ok (load bs) (\<lambda>back. r1 = back)))"

definition policy_validation :: bool where
  "policy_validation \<longleftrightarrow> is_ok (policy_validate default_policy) \<and> \<not> is_ok (policy_validate (test_policy 0 1)) \<and>
     \<not> is_ok (policy_validate (test_policy (MAX_ACK_DEADLINE_SECS + 1) 1))"

definition pending_is :: "sub_registry \<Rightarrow> cursor list \<Rightarrow> bool" where
  "pending_is r cs = unwrap (reg_get r ''s'') (\<lambda>s. pending_acks s = cs)"

definition out_of_order_ack_advances_floor_only_when_contiguous :: bool where
  "out_of_order_ack_advances_floor_only_when_contiguous =
     unwrap (lease_out (reg_with ''s'' default_policy) ''s'' 5 100 10) (\<lambda>(r, _).
       let r1 = apply_sub r (Ack ''s'' 3); r2 = apply_sub r1 (Ack ''s'' 1); r3 = apply_sub r2 (Ack ''s'' 2) in
       floor_is r1 0 \<and> pending_is r1 [3] \<and> floor_is r2 1 \<and> floor_is r3 3 \<and> pending_is r3 [])"

definition out_of_order_acked_cursor_is_not_redelivered :: bool where
  "out_of_order_acked_cursor_is_not_redelivered =
     unwrap (lease_out (reg_with ''s'' (test_policy 1 0)) ''s'' 3 100 10) (\<lambda>(r, _).
     unwrap (lease_out (apply_sub r (Ack ''s'' 2)) ''s'' 3 200 10) (\<lambda>(_, out). map fst (leased out) = [1, 3]))"

definition ack_is_idempotent :: bool where
  "ack_is_idempotent =
     unwrap (lease_out (reg_with ''s'' default_policy) ''s'' 2 100 10) (\<lambda>(r, _).
       let r1 = apply_sub (apply_sub r (Ack ''s'' 1)) (Ack ''s'' 1) in
       floor_is r1 1 \<and> floor_is (apply_sub r1 (Ack ''s'' 1)) 1)"

definition zero_max_attempts_never_dead_letters :: bool where
  "zero_max_attempts_never_dead_letters \<longleftrightarrow>
     lease_rounds 20 (\<lambda>out. dead_lettered out = []) (reg_with ''s'' (test_policy 1 0)) 100 \<noteq> None"

subsection \<open>The model passes\<close>

lemmas sub_test_simps = plan_lease_def scan_lease.simps bridge_floor.simps withheld_def exhausted_def next_attempt_def
  attempt_count_def lease_expiry_def sat_add_def empty_scan_def MAX_LEASE_BATCH_def MAX_ACK_DEADLINE_SECS_def
  min_def max_def word_le_nat_alt Let_def default_state_def reg_get_apply apply_lease_def add_lease_def
  raise_floor_def apply_ack_def apply_nack_def advance_acked.simps default_policy_def DEFAULT_MAX_DELIVERY_ATTEMPTS_def
  DEFAULT_ACK_DEADLINE_SECS_def fmdrop_fmupd outstanding_def map_len_drop lease_out_def reg_with_def floor_is_def
  pending_is_def test_policy_def mark_dead_def

lemma redelivery_tests:
  shows "create_is_idempotent_and_preserves_progress"
    and "lease_then_ack_advances_floor"
    and "expired_lease_is_redelivered_with_incremented_attempt"
    and "nack_makes_redeliverable_immediately"
proof -
  show "create_is_idempotent_and_preserves_progress"
    by (simp add: create_is_idempotent_and_preserves_progress_def sub_test_simps cong del: fmfilter_cong)
  show "lease_then_ack_advances_floor"
    by (simp add: lease_then_ack_advances_floor_def sub_test_simps cong del: fmfilter_cong)
  show "expired_lease_is_redelivered_with_incremented_attempt"
    by (simp add: expired_lease_is_redelivered_with_incremented_attempt_def sub_test_simps cong del: fmfilter_cong)
  show "nack_makes_redeliverable_immediately"
    by (simp add: nack_makes_redeliverable_immediately_def sub_test_simps cong del: fmfilter_cong)
qed

lemma floor_tests:
  shows "floor_skips_pruned_cursors"
    and "floor_bridges_retention_so_subscription_does_not_stall"
    and "out_of_order_acked_cursor_is_not_redelivered"
    and "ack_is_idempotent"
proof -
  show "floor_skips_pruned_cursors"
    by (simp add: floor_skips_pruned_cursors_def sub_test_simps cong del: fmfilter_cong)
  show "floor_bridges_retention_so_subscription_does_not_stall"
    by (simp add: floor_bridges_retention_so_subscription_does_not_stall_def sub_test_simps cong del: fmfilter_cong)
  show "out_of_order_acked_cursor_is_not_redelivered"
    by (simp add: out_of_order_acked_cursor_is_not_redelivered_def sub_test_simps cong del: fmfilter_cong)
  show "ack_is_idempotent"
    by (simp add: ack_is_idempotent_def sub_test_simps cong del: fmfilter_cong)
qed

lemma dead_letter_tests:
  shows "dead_letter_does_not_stall_following_messages"
proof -
  show "dead_letter_does_not_stall_following_messages"
    by (simp add: dead_letter_does_not_stall_following_messages_def sub_test_simps cong del: fmfilter_cong)
qed

lemma keys_simps: "keys fmempty = []" "keys (fmupd k v fmempty) = [k]"
  by (simp_all add: keys_def sorted_list_of_fset.rep_eq)

lemma lease_rounds_numeral:
  "lease_rounds (numeral n) ok r now = Option.bind (lease_out r ''s'' 1 now 10) (\<lambda>(r1, out).
     if ok out then lease_rounds (pred_numeral n) ok r1 (now + 10) else None)"
  by (simp add: numeral_eq_Suc)

lemma registry_state_tests:
  shows "out_of_order_ack_advances_floor_only_when_contiguous" and "delete_removes_subscription" and "policy_validation"
proof -
  show "out_of_order_ack_advances_floor_only_when_contiguous"
    by (simp add: out_of_order_ack_advances_floor_only_when_contiguous_def sub_test_simps pending_acks_def keys_simps
        cong del: fmfilter_cong)
  show "delete_removes_subscription"
    by (simp add: delete_removes_subscription_def sub_test_simps reg_len_def reg_is_empty_def apply_sub.simps
        empty_registry_def map_len_upd reg_get_def)
  show "policy_validation"
    by (simp add: policy_validation_def is_ok_iff sub_test_simps policy_validate_def)
qed

lemma poison_test: poison_message_is_dead_lettered_and_floor_advances
  by (simp add: poison_message_is_dead_lettered_and_floor_advances_def lease_rounds_numeral sub_test_simps
      dead_cursors_def keys_simps cong del: fmfilter_cong)

lemma zero_max_test: zero_max_attempts_never_dead_letters
  by (simp add: zero_max_attempts_never_dead_letters_def lease_rounds_numeral sub_test_simps cong del: fmfilter_cong)

lemma lease_out_returns:
  assumes "lease_request 0 r n s high 0"
  obtains r1 out t where "lease_out r n high now mx = Some (r1, out)" "map fst (leased out) = fst (lease_picked s high 0 now mx)"
    and "reg_get r1 n = Some t" "sub_inv t" "handled t \<subseteq> handled s \<union> {c. c \<le> 0} \<union> {c. exhausted s c}"
proof -
  have s: "reg_get r n = Some s" "sub_inv s" "high \<noteq> top_word" using assms by (simp_all add: lease_request_def)
  show thesis
  proof (rule plan_lease_cases[OF s(1) sub_invD(1)[OF s(2)] s(3) lease_request_top[OF assms], of now mx])
    assume "lease_picked s high 0 now mx = ([], [])" "plan_lease r n high 0 now mx = Some None"
    then show thesis using s by (intro that[of r "\<lparr>leased = [], dead_lettered = []\<rparr>" s]) (auto simp: lease_out_def)
  next
    fix ls dd na
    assume p: "lease_picked s high 0 now mx = (ls, dd)"
      and plan: "plan_lease r n high 0 now mx = Some (Some (ApplyLease n (map (\<lambda>c. (c, lease_expiry s now)) ls) dd na,
        \<lparr>leased = map (\<lambda>c. (c, next_attempt s c)) ls, dead_lettered = dd\<rparr>))"
    let ?x = "ApplyLease n (map (\<lambda>c. (c, lease_expiry s now)) ls) dd na"
    obtain t where t: "reg_get (apply_sub r ?x) n = Some t" by (simp add: reg_get_apply s(1))
    show thesis
      using planned_lease_inv(1,4)[OF assms plan t] t
      by (intro that[of "apply_sub r ?x" "\<lparr>leased = map (\<lambda>c. (c, next_attempt s c)) ls, dead_lettered = dd\<rparr>" t])
        (simp_all add: lease_out_def plan p comp_def)
  qed
qed

lemma batch_test: "max_lease_batch_caps_response"
proof -
  have s: "reg_get (reg_with ''s'' default_policy) ''s'' = Some default_state"
    by (simp add: reg_with_def reg_get_apply default_state_def)
  then have req: "lease_request 0 (reg_with ''s'' default_policy) ''s'' default_state 5000 0"
    by (simp add: lease_request_def sub_inv_default) (simp add: default_state_def)
  obtain r1 out t where first: "lease_out (reg_with ''s'' default_policy) ''s'' 5000 100 100 = Some (r1, out)"
    "map fst (leased out) = fst (lease_picked default_state 5000 0 100 100)"
    and t: "reg_get r1 ''s'' = Some t" "sub_inv t" "handled t \<subseteq> handled default_state \<union> {c. c \<le> 0} \<union> {c. exhausted default_state c}"
    by (rule lease_out_returns[OF req])
  have fresh: "\<not> exhausted default_state c" "\<not> withheld default_state 100 c" for c
    by (simp_all add: sub_test_simps)
  have "deliverable default_state 5000 0 100 = cursors_upto 1 5000"
    using fresh by (simp add: deliverable_def) (simp add: default_state_def)
  then have "length (map fst (leased out)) = 100"
    unfolding first(2) lease_picked_def pick_fst using fresh(1)
    by (simp add: cursors_upto_def min_def MAX_LEASE_BATCH_def word_le_nat_alt del: upt_Suc)
  note len = this
  have "acked t \<in> handled t" by (simp add: handled_iff)
  moreover have "handled default_state = {0}" by (auto simp: handled_iff default_state_def)
  ultimately have "acked t = 0" using t(3) fresh(1) by auto
  then have "acked t \<noteq> top_word" by simp
  then have "lease_request 0 r1 ''s'' t 999999 0" using t(1,2) by (simp add: lease_request_def)
  then obtain r2 out2 where second: "lease_out r1 ''s'' 999999 100 top_word = Some (r2, out2)"
    and two: "map fst (leased out2) = fst (lease_picked t 999999 0 100 top_word)"
    by (rule lease_out_returns) blast
  have "length (map fst (leased out2)) \<le> unat (min top_word MAX_LEASE_BATCH)"
    unfolding two by (rule picked_facts(5)) (use \<open>acked t \<noteq> top_word\<close> in simp)
  moreover have "unat (min top_word MAX_LEASE_BATCH) \<le> unat MAX_LEASE_BATCH" by (auto simp: min_def word_le_nat_alt)
  ultimately show ?thesis
    using len second by (simp add: max_lease_batch_caps_response_def first(1))
qed

lemma created_registry:
  assumes "r = foldl (\<lambda>r i. apply_sub r (Create (''s'' @ decimal i) default_policy)) empty_registry [0..<k]"
  shows "reg_len r = k \<and> fmdom' (subs r) = {''s'' @ decimal i |i. i < k}"
  using assms
proof (induction k arbitrary: r)
  case 0
  then show ?case by (simp add: reg_len_def empty_registry_def)
next
  case (Suc k)
  define r0 where "r0 = foldl (\<lambda>r i. apply_sub r (Create (''s'' @ decimal i) default_policy)) empty_registry [0..<k]"
  have r0: "reg_len r0 = k" "fmdom' (subs r0) = {''s'' @ decimal i |i. i < k}" using Suc.IH[OF r0_def] by simp_all
  have r: "r = apply_sub r0 (Create (''s'' @ decimal k) default_policy)" by (simp add: Suc.prems r0_def)
  have "''s'' @ decimal k \<notin> fmdom' (subs r0)" by (auto simp: r0(2) decimal_inject)
  with r0 show ?case by (auto simp: r apply_sub.simps reg_len_def map_len_upd less_Suc_eq)
qed

lemma capacity_test: "capacity_guard"
proof -
  define r where "r = foldl (\<lambda>r i. apply_sub r (Create (''s'' @ decimal i) default_policy)) empty_registry [0..<MAX_SUBSCRIPTIONS]"
  have zero: "decimal 0 = ''0''" by code_simp
  have "''s0'' \<in> fmdom' (subs r)"
    using created_registry[OF r_def] zero by (auto simp: MAX_SUBSCRIPTIONS_def intro!: exI[of _ 0])
  moreover have "\<not> at_capacity empty_registry ''new''" by (simp add: at_capacity_def reg_len_def empty_registry_def MAX_SUBSCRIPTIONS_def)
  moreover have "''brand-new'' \<notin> fmdom' (subs r)" "MAX_SUBSCRIPTIONS \<le> reg_len r"
    using created_registry[OF r_def] by auto
  ultimately show ?thesis
    unfolding capacity_guard_def Let_def r_def[symmetric] by (simp add: at_capacity_def)
qed

theorem registry_tests_pass:
  assumes "snapshot_contract save load"
  shows "create_is_idempotent_and_preserves_progress \<and> lease_then_ack_advances_floor \<and>
    expired_lease_is_redelivered_with_incremented_attempt \<and> nack_makes_redeliverable_immediately \<and>
    poison_message_is_dead_lettered_and_floor_advances \<and> dead_letter_does_not_stall_following_messages \<and>
    max_lease_batch_caps_response \<and> floor_skips_pruned_cursors \<and>
    floor_bridges_retention_so_subscription_does_not_stall \<and> delete_removes_subscription \<and> capacity_guard \<and>
    snapshot_roundtrip save load \<and> policy_validation \<and> out_of_order_ack_advances_floor_only_when_contiguous \<and>
    out_of_order_acked_cursor_is_not_redelivered \<and> ack_is_idempotent \<and> zero_max_attempts_never_dead_letters"
proof -
  have "snapshot_roundtrip save load"
    by (simp add: snapshot_roundtrip_def snapshot_roundtrips[OF assms] Let_def)
      (simp add: sub_test_simps cong del: fmfilter_cong)
  then show ?thesis
    using redelivery_tests floor_tests dead_letter_tests registry_state_tests poison_test zero_max_test batch_test
      capacity_test by blast
qed

lemma registry_tests_pass_witness: "snapshot_roundtrip Inr Inr"
  using registry_tests_pass[OF snapshot_contract_copy] by blast

end
