(* ===== verification/Edge_Tests.thy ===== *)
theory Edge_Tests
  imports Link_Tests Registry_Tests
begin

text \<open>
  The cases of \<open>tests/edge_cases.rs\<close> that are not about links, and the tests of \<open>src/src/message.rs\<close> that
  write a message as JSON, as programs on the model.  How a message is written is a parameter of the test.
\<close>

section \<open>Decoding of messages\<close>

definition message_serde_roundtrips ::
  "(message \<Rightarrow> error + bytes) \<Rightarrow> (bytes \<Rightarrow> error + message) \<Rightarrow> hex_codec \<Rightarrow> bool" where
  "message_serde_roundtrips enc dec hx =
     (let m = new_message hx 1 ''node'' [0, 1, 0xff] 42 in
      unwrap_ok (enc m) (\<lambda>json. unwrap_ok (dec json) (\<lambda>back. m = back)))"

definition attributed_message :: "hex_codec \<Rightarrow> message" where
  "attributed_message hx =
     attribute_for_test (with_ordering_key (new_message hx 3 ''n'' [0, 0xff] 7) ''order-key'') ''a'' ''1''"

definition message_with_attributes_serde_roundtrips ::
  "(message \<Rightarrow> error + bytes) \<Rightarrow> (bytes \<Rightarrow> error + message) \<Rightarrow> hex_codec \<Rightarrow> bool" where
  "message_with_attributes_serde_roundtrips enc dec hx =
     (let m = attributed_message hx in unwrap_ok (enc m) (\<lambda>json. unwrap_ok (dec json) (\<lambda>back. m = back)))"

text \<open>The field is overwritten in the JSON value of the message.\<close>

definition message_with_corrupt_hex_payload_decodes_to_error_not_panic :: "hex_codec \<Rightarrow> bool" where
  "message_with_corrupt_hex_payload_decodes_to_error_not_panic hx =
     (let bad = (new_message hx 1 ''n'' (map of_char ''hi'') 1)\<lparr>payload_hex := ''zz not hex''\<rparr> in
      \<not> is_ok (message_data hx bad) \<and> message_text hx bad = [])"

definition message_empty_payload_roundtrips ::
  "(message \<Rightarrow> error + bytes) \<Rightarrow> (bytes \<Rightarrow> error + message) \<Rightarrow> hex_codec \<Rightarrow> bool" where
  "message_empty_payload_roundtrips enc dec hx =
     (let m = new_message hx 0 ''n'' [] 0 in
      unwrap_ok (message_data hx m) (\<lambda>bs. bs = []) \<and> message_text hx m = [] \<and>
      unwrap_ok (enc m) (\<lambda>json. unwrap_ok (dec json) (\<lambda>back. back = m)))"

definition message_lossy_utf8_text :: "hex_codec \<Rightarrow> bool" where
  "message_lossy_utf8_text hx \<longleftrightarrow> CHR ''A'' \<in> set (message_text hx (new_message hx 1 ''n'' [0xff, 0xfe, 0x41] 1))"

section \<open>Boundaries of names and cursors\<close>

definition topic_length_boundary :: bool where
  "topic_length_boundary \<longleftrightarrow> is_ok (validate_topic (replicate 200 (CHR ''a''))) \<and>
     \<not> is_ok (validate_topic (replicate 201 (CHR ''a''))) \<and> \<not> is_ok (validate_topic [])"

text \<open>The last name ends in U+1F600, four bytes in UTF-8.\<close>

definition topic_charset_boundaries :: bool where
  "topic_charset_boundaries \<longleftrightarrow> is_ok (validate_topic ''a.b-c_d:e'') \<and> \<not> is_ok (validate_topic ''space here'') \<and>
     \<not> is_ok (validate_topic ''slash/here'') \<and>
     \<not> is_ok (validate_topic (''emoji'' @ [CHR 0xF0, CHR 0x9F, CHR 0x98, CHR 0x80]))"

definition mesh_names_are_distinct_and_namespaced :: bool where
  "mesh_names_are_distinct_and_namespaced =
     (let l = log_name ''t''; v = live_topic ''t''; i = ingest_topic ''t'' in
      list_all (\<lambda>n. starts_with n ''ce-pubsub.'') [l, v, i] \<and> l \<noteq> v \<and> v \<noteq> i \<and> l \<noteq> i)"

definition empty_log_cursor_state :: bool where
  "empty_log_cursor_state \<longleftrightarrow> high_cursor empty_log = 0 \<and> next_cursor empty_log = 1 \<and> log_floor empty_log = 0 \<and>
     log_is_empty empty_log \<and> length (log_since empty_log 0) = 0"

definition three_messages :: "hex_codec \<Rightarrow> topic_log" where
  "three_messages hx = foldl (\<lambda>l c. apply_log l (Append (new_message hx c ''w'' (map of_char ''x'') c))) empty_log [1, 2, 3]"

definition prune_to_zero_is_noop :: "hex_codec \<Rightarrow> bool" where
  "prune_to_zero_is_noop hx =
     (let log = apply_log (three_messages hx) (PruneTo 0) in log_len log = 3 \<and> log_floor log = 0)"

definition prune_beyond_high_drops_all :: "hex_codec \<Rightarrow> bool" where
  "prune_beyond_high_drops_all hx =
     (let log = apply_log (three_messages hx) (PruneTo 999) in
      log_is_empty log \<and> log_floor log = 3 \<and> next_cursor log = 4)"

section \<open>Caches at their capacity\<close>

definition idempotency_cache_dedups_recent_after_eviction_pressure :: bool where
  "idempotency_cache_dedups_recent_after_eviction_pressure =
     (let c = cache_insert ''req-recent'' (Seen_cursor 42) 100 (new_cache 4 3600);
          c1 = foldl (\<lambda>c i. cache_insert (''filler-'' @ decimal (unat i)) (Seen_cursor i) (100 + i) c) c [0, 1, 2];
          (c2, a) = cache_get ''req-recent'' 110 c1;
          c3 = cache_insert ''filler-3'' (Seen_cursor 9) 105 c2;
          (c4, b) = cache_get ''req-recent'' 110 c3; (c5, d) = cache_get ''filler-2'' 110 c4;
          (c6, e) = cache_get ''filler-3'' 110 c5 in
      a = Some (Seen_cursor 42) \<and> b = None \<and> d = Some (Seen_cursor 2) \<and> e = Some (Seen_cursor 9))"

definition token_set_dedups_across_capacity_and_ttl :: bool where
  "token_set_dedups_across_capacity_and_ttl =
     (let (s1, r1) = token_seen 1 0 (new_token_set 3 100); (s2, r2) = token_seen 1 50 s1; (s3, r3) = token_seen 2 60 s2;
          (s4, r4) = token_seen 3 61 s3; (s5, r5) = token_seen 4 62 s4; (s6, r6) = token_seen 1 63 s5;
          (s7, r7) = token_seen 4 64 s6; (s8, r8) = token_seen 4 (64 + 101) s7 in
      \<not> r1 \<and> r2 \<and> \<not> r3 \<and> \<not> r4 \<and> \<not> r5 \<and> \<not> r6 \<and> r7 \<and> \<not> r8)"

section \<open>They pass\<close>

theorem decoding_tests_pass:
  assumes hx: "hex_contract hx" "reads_digits hx"
    and json: "list_all (writes enc dec n)
      [new_message hx 1 ''node'' [0, 1, 0xff] 42, attributed_message hx, new_message hx 0 ''n'' [] 0]"
  shows "message_serde_roundtrips enc dec hx \<and> message_with_attributes_serde_roundtrips enc dec hx \<and>
    message_with_corrupt_hex_payload_decodes_to_error_not_panic hx \<and> message_empty_payload_roundtrips enc dec hx \<and>
    message_lossy_utf8_text hx"
proof (intro conjI)
  have read_back: "writes enc dec n m \<Longrightarrow> unwrap_ok (enc m) (\<lambda>json. unwrap_ok (dec json) (\<lambda>back. m = back))" for m
    by (auto simp: writes_def)
  show "message_serde_roundtrips enc dec hx" "message_with_attributes_serde_roundtrips enc dec hx"
    using json read_back by (auto simp: message_serde_roundtrips_def message_with_attributes_serde_roundtrips_def Let_def)
  have "\<not> is_ok (hex_decode hx ''zz not hex'')" using hx(2) by (simp add: reads_digits_def hex_digit_def)
  then show "message_with_corrupt_hex_payload_decodes_to_error_not_panic hx"
    by (auto simp: message_with_corrupt_hex_payload_decodes_to_error_not_panic_def message_data_def message_text_def
        is_ok_iff Let_def split: sum.split)
  have data: "message_data hx (new_message hx c p payload at) = Inr payload" for c p payload at
    using hex_contractD(1)[OF hx(1), of payload] by (simp add: message_data_def new_message_def)
  then have shown: "message_text hx (new_message hx c p payload at) = map (\<lambda>b. char_of (unat b)) (utf8_lossy payload)"
    for c p payload at
    using hex_contractD(1)[OF hx(1), of payload] by (simp add: message_text_def new_message_def)
  show "message_empty_payload_roundtrips enc dec hx"
    using json by (auto simp: message_empty_payload_roundtrips_def data shown Let_def writes_def)
  have "utf8_lossy [0xff, 0xfe, 0x41] = replacement @ replacement @ [0x41]"
    by (simp add: utf8_step_def char_width_def)
  moreover have "char_of (65 :: nat) = CHR ''A''" by code_simp
  ultimately show "message_lossy_utf8_text hx" by (simp add: message_lossy_utf8_text_def shown)
qed

theorem boundary_tests_pass:
  "topic_length_boundary \<and> topic_charset_boundaries \<and> mesh_names_are_distinct_and_namespaced \<and>
   empty_log_cursor_state \<and> prune_to_zero_is_noop hx \<and> prune_beyond_high_drops_all hx"
proof (intro conjI)
  show topic_length_boundary topic_charset_boundaries
    by (simp_all add: topic_length_boundary_def topic_charset_boundaries_def is_ok_iff topic_char_def is_ascii_alphanumeric_def
        list_all_iff)
  show mesh_names_are_distinct_and_namespaced
    by (simp add: mesh_names_are_distinct_and_namespaced_def starts_with_def log_name_def live_topic_def ingest_topic_def
        NS_def Let_def)
  show empty_log_cursor_state by (simp add: empty_log_cursor_state_def log_is_empty_def log_test_simps)
  show "prune_to_zero_is_noop hx" "prune_beyond_high_drops_all hx"
    by (simp_all add: prune_to_zero_is_noop_def prune_beyond_high_drops_all_def three_messages_def log_is_empty_def log_test_simps
        new_message_def)
qed

theorem capacity_tests_pass:
  "idempotency_cache_dedups_recent_after_eviction_pressure \<and> token_set_dedups_across_capacity_and_ttl"
proof
  have "decimal 0 = ''0''" "decimal 1 = ''1''" "decimal 2 = ''2''" by code_simp+
  then show idempotency_cache_dedups_recent_after_eviction_pressure
    by (simp add: idempotency_cache_dedups_recent_after_eviction_pressure_def cache_test_simps)
  show token_set_dedups_across_capacity_and_ttl
    by (simp add: token_set_dedups_across_capacity_and_ttl_def cache_test_simps)
qed

lemma decoding_tests_pass_witness:
  "message_lossy_utf8_text lower_hex \<and> message_with_corrupt_hex_payload_decodes_to_error_not_panic lower_hex"
proof -
  let ?ms = "[new_message lower_hex 1 ''node'' [0, 1, 0xff] 42, attributed_message lower_hex, new_message lower_hex 0 ''n'' [] 0]"
  have "list_all (writes (write_place ?ms) (read_place ?ms) (Suc 0)) ?ms" by (rule writes_place) simp
  from decoding_tests_pass[OF lower_hex_contract lower_hex_digits this] show ?thesis by blast
qed

end
