(* ===== verification/Random_Tests.thy ===== *)
theory Random_Tests
  imports Edge_Tests
begin

text \<open>
  The other randomized tests of \<open>tests/prop_pubsub.rs\<close> and \<open>tests/prop_subscription.rs\<close>: what is random in a
  test is an argument of its definition, and the theorems are over all of them.  The JSON codec, the
  snapshot macro and the capability library are parameters, as in the unit tests.
\<close>

section \<open>Messages and names\<close>

definition message_serde_roundtrips_binary ::
  "(message \<Rightarrow> error + bytes) \<Rightarrow> (bytes \<Rightarrow> error + message) \<Rightarrow> hex_codec \<Rightarrow> cursor \<Rightarrow> string \<Rightarrow> bytes \<Rightarrow> u64 \<Rightarrow> bool" where
  "message_serde_roundtrips_binary enc dec hx cursor pub payload at =
     (let m = new_message hx cursor pub payload at in
      unwrap_ok (message_data hx m) (\<lambda>bs. bs = payload) \<and>
      unwrap_ok (enc m) (\<lambda>json. unwrap_ok (dec json) (\<lambda>back. back = m \<and> msg_cursor back = cursor \<and>
        unwrap_ok (message_data hx back) (\<lambda>bs. bs = payload))))"

definition validate_topic_never_panics_and_is_exact :: "string \<Rightarrow> bool" where
  "validate_topic_never_panics_and_is_exact tp =
     (let expect_ok = (tp \<noteq> [] \<and> length tp \<le> 200 \<and>
            list_all (\<lambda>c. is_ascii_alphanumeric c \<or> c \<in> {CHR ''.'', CHR ''-'', CHR ''_'', CHR '':''}) tp) in
      is_ok (validate_topic tp) = expect_ok)"

theorem random_message_tests_pass:
  assumes "hex_contract hx" "writes enc dec n (new_message hx cursor pub payload at)"
  shows "message_serde_roundtrips_binary enc dec hx cursor pub payload at"
proof -
  have "message_data hx (new_message hx cursor pub payload at) = Inr payload"
    using hex_contractD(1)[OF assms(1), of payload] by (simp add: message_data_def new_message_def)
  with assms(2) show ?thesis
    by (auto simp: message_serde_roundtrips_binary_def writes_def Let_def) (simp add: new_message_def)
qed

theorem random_name_test_passes: "validate_topic_never_panics_and_is_exact tp"
  by (auto simp: validate_topic_never_panics_and_is_exact_def is_ok_iff topic_char_def list_all_iff)

section \<open>Snapshots\<close>

text \<open>Appends with a prune after every few of them.\<close>

definition pruning_ops :: "hex_codec \<Rightarrow> nat \<Rightarrow> nat \<Rightarrow> log_op list" where
  "pruning_ops hx appends prune_every = concat (map (\<lambda>high.
     Append (new_message hx (of_nat high) ''w'' (map of_char (''m'' @ decimal high)) (1000 + of_nat high)) #
     (if high mod prune_every = 0 \<and> 2 < high then [PruneTo (of_nat high - 2)] else [])) [1..<Suc appends])"

definition snapshot_plus_tail_equals_full ::
  "(topic_log \<Rightarrow> error + 'b) \<Rightarrow> ('b \<Rightarrow> error + topic_log) \<Rightarrow> hex_codec \<Rightarrow> nat \<Rightarrow> nat \<Rightarrow> bool" where
  "snapshot_plus_tail_equals_full save load hx appends prune_every =
     (let ops = pruning_ops hx appends prune_every; reference = replay apply_log empty_log ops in
      list_all (\<lambda>cut. unwrap_ok (save (replay apply_log empty_log (take cut ops))) (\<lambda>bs.
        unwrap_ok (load bs) (\<lambda>reader. replay apply_log reader (drop cut ops) = reference)))
        [0..<Suc (length ops)])"

theorem random_snapshot_test_passes:
  assumes "snapshot_contract save load"
  shows "snapshot_plus_tail_equals_full save load hx appends prune_every"
  by (simp add: snapshot_plus_tail_equals_full_def snapshot_roundtrips[OF assms] Let_def list_all_iff replay_def
      flip: foldl_append)

fun lease_turns :: "nat \<Rightarrow> sub_registry \<Rightarrow> cursor \<Rightarrow> u64 \<Rightarrow> u64 \<Rightarrow> sub_registry option" where
  "lease_turns 0 r high now deadline = Some r"
| "lease_turns (Suc n) r high now deadline =
     Option.bind (lease_apply r high 0 now 10) (\<lambda>(r1, _). lease_turns n r1 high (now + (deadline + 1)) deadline)"

definition registry_snapshot_roundtrips ::
  "(sub_registry \<Rightarrow> error + 'b) \<Rightarrow> ('b \<Rightarrow> error + sub_registry) \<Rightarrow> cursor \<Rightarrow> u64 \<Rightarrow> u32 \<Rightarrow> bool" where
  "registry_snapshot_roundtrips save load high deadline max_attempts =
     unwrap (lease_turns 6 (reg deadline max_attempts) high 100 deadline) (\<lambda>r.
       let r1 = apply_sub r (Ack ''s'' 1) in
       unwrap_ok (save r1) (\<lambda>bs. unwrap_ok (load bs) (\<lambda>back. r1 = back)))"

text \<open>Nothing above the highest cursor is ever handled, so planning returns in every round.\<close>

lemma lease_apply_bounded:
  assumes "reg_get r ''s'' = Some s" "sub_inv s" "handled s \<subseteq> {c. c \<le> high}" "high \<noteq> top_word"
  shows "\<exists>r1 ls t. lease_apply r high 0 now mx = Some (r1, ls) \<and> reg_get r1 ''s'' = Some t \<and> sub_inv t \<and>
    handled t \<subseteq> {c. c \<le> high}"
proof -
  have "acked s \<in> handled s" by (simp add: handled_iff)
  with assms(3) have "acked s \<le> high" by auto
  with assms(4) have top: "acked s \<noteq> top_word" using word_order.extremum_uniqueI by metis
  with assms have req: "lease_request 0 r ''s'' s high 0" by (simp add: lease_request_def)
  have "max (acked s) 0 \<noteq> top_word" using top by (simp add: max_def)
  then show ?thesis
  proof (rule plan_lease_cases[OF assms(1) sub_invD(1)[OF assms(2)] assms(4), of 0 now mx])
    assume "plan_lease r ''s'' high 0 now mx = Some None"
    with assms show ?thesis by (auto simp: lease_apply_def)
  next
    fix ls dd n
    let ?x = "ApplyLease ''s'' (map (\<lambda>c. (c, lease_expiry s now)) ls) dd n"
    assume plan: "plan_lease r ''s'' high 0 now mx =
        Some (Some (?x, \<lparr>leased = map (\<lambda>c. (c, next_attempt s c)) ls, dead_lettered = dd\<rparr>))"
      and n: "\<And>d. d \<le> n \<Longrightarrow> d \<in> handled s \<or> d \<le> 0 \<or> d \<in> set dd"
    obtain t where t: "reg_get (apply_sub r ?x) ''s'' = Some t" by (simp add: reg_get_apply assms(1))
    have dd: "set dd \<subseteq> {c. c \<le> high}" by (rule planned_leaseE[OF req plan]) auto
    have "handled t = handled s \<union> set dd \<union> {c. c \<le> n}"
      using t by (auto simp: reg_get_apply assms(1) handled_apply_lease)
    moreover have "{c. c \<le> n} \<subseteq> handled s \<union> {0} \<union> set dd" using n by auto
    ultimately have "handled t \<subseteq> {c. c \<le> high}" using assms(3) dd by auto
    with t planned_lease_inv(1)[OF req plan t] show ?thesis by (auto simp: lease_apply_def plan)
  qed
qed

lemma lease_turns_return:
  assumes "reg_get r ''s'' = Some s" "sub_inv s" "handled s \<subseteq> {c. c \<le> high}" "high \<noteq> top_word"
  shows "\<exists>r1. lease_turns n r high now deadline = Some r1"
  using assms
proof (induction n arbitrary: r s now)
  case (Suc n)
  from lease_apply_bounded[OF Suc.prems, of now 10] obtain r1 ls t where
    "lease_apply r high 0 now 10 = Some (r1, ls)" "reg_get r1 ''s'' = Some t" "sub_inv t" "handled t \<subseteq> {c. c \<le> high}"
    by blast
  with Suc.IH[of r1 t] Suc.prems(4) show ?case by simp
qed simp

theorem random_registry_snapshot_test_passes:
  assumes "snapshot_contract save load" "high \<noteq> top_word"
  shows "registry_snapshot_roundtrips save load high deadline max_attempts"
proof -
  let ?s = "default_state\<lparr>policy := \<lparr>ack_deadline_secs = deadline, max_delivery_attempts = max_attempts\<rparr>\<rparr>"
  have "sub_inv ?s" "handled ?s \<subseteq> {c. c \<le> high}"
    using sub_inv_default
    by (auto simp: sub_inv_def zero_free_def floor_maximal_def leases_counted_def handled_iff default_state_def)
  from lease_turns_return[OF reg_state this assms(2)] obtain r where
    "lease_turns 6 (reg deadline max_attempts) high 100 deadline = Some r" by blast
  then show ?thesis by (simp add: registry_snapshot_roundtrips_def snapshot_roundtrips[OF assms(1)] Let_def)
qed

section \<open>Links\<close>

definition topic_allows_is_prefix_match :: "string \<Rightarrow> string \<Rightarrow> bool" where
  "topic_allows_is_prefix_match scope tp \<longleftrightarrow> topic_allows scope tp = starts_with tp scope"

definition link_verify_is_sound ::
  "('i, 'c) iam \<Rightarrow> 'i \<Rightarrow> string \<Rightarrow> string \<Rightarrow> u64 \<Rightarrow> u64 \<Rightarrow> bool \<Rightarrow> bool \<Rightarrow> bool" where
  "link_verify_is_sound lib owner scope tp expiry now want_publish revoke =
     (let node = identity_node_id lib owner; nonce = 42;
          want_ability = (if want_publish then ABILITY_PUBLISH else ABILITY_SUBSCRIBE);
          is_revoked = \<lambda>_ n. revoke \<and> n = nonce;
          expect_ok = ((expiry = 0 \<or> now \<le> expiry) \<and> want_publish \<and> starts_with tp scope \<and> \<not> revoke) in
      unwrap_ok (mint_link lib owner node ABILITY_PUBLISH scope expiry nonce) (\<lambda>token.
        is_ok (verify_link lib node [] [] now node want_ability tp token is_revoked) = expect_ok))"

text \<open>The test makes three identities.\<close>

definition only_audience_may_use_bound_link :: "('i, 'c) iam \<Rightarrow> 'i \<Rightarrow> 'i \<Rightarrow> 'i \<Rightarrow> bool \<Rightarrow> bool" where
  "only_audience_may_use_bound_link lib owner holder other use_correct =
     (let node = identity_node_id lib owner;
          requester = (if use_correct then identity_node_id lib holder else identity_node_id lib other) in
      unwrap_ok (mint_link lib owner (identity_node_id lib holder) ABILITY_PUBLISH ''t'' 0 1) (\<lambda>token.
        is_ok (verify_link lib node [] [] 1000 requester ABILITY_PUBLISH ''t'' token never_revoked) = use_correct))"

definition inspect_garbage_never_panics :: "('i, 'c) iam \<Rightarrow> bool" where
  "inspect_garbage_never_panics lib \<longleftrightarrow>
     \<not> is_ok (inspect_link lib []) \<and> \<not> is_ok (inspect_link lib ''zzzz not hex'') \<and> \<not> is_ok (inspect_link lib ''deadbeef'')"

theorem random_link_tests_pass:
  assumes "single_link_contract lib"
  shows "topic_allows_is_prefix_match scope tp \<and> link_verify_is_sound lib owner scope tp expiry now want_publish revoke \<and>
    (identity_node_id lib holder \<noteq> identity_node_id lib other \<longrightarrow>
      only_audience_may_use_bound_link lib owner holder other use_correct)"
proof (intro conjI impI)
  show "topic_allows_is_prefix_match scope tp" by (simp add: topic_allows_is_prefix_match_def topic_allows_def)
  have minted: "\<exists>token. mint_link lib owner aud ab scope expiry nonce = Inr token" for aud ab scope expiry nonce
    by (simp add: mint_link_def)
  note works = minted_link_works[OF assms]
  show "link_verify_is_sound lib owner scope tp expiry now want_publish revoke"
    using minted[of "identity_node_id lib owner" ABILITY_PUBLISH scope expiry 42]
    by (auto simp: link_verify_is_sound_def works topic_allows_def ABILITY_PUBLISH_def ABILITY_SUBSCRIBE_def Let_def)
  assume "identity_node_id lib holder \<noteq> identity_node_id lib other"
  then show "only_audience_may_use_bound_link lib owner holder other use_correct"
    using minted[of "identity_node_id lib holder" ABILITY_PUBLISH "''t''" 0 1]
    by (auto simp: only_audience_may_use_bound_link_def works never_revoked_def topic_allows_def starts_with_def Let_def)
qed

theorem random_garbage_test_passes:
  assumes "\<And>s. s \<in> {[], ''zzzz not hex'', ''deadbeef''} \<Longrightarrow> \<not> is_ok (decode_chain lib s)"
  shows "inspect_garbage_never_panics lib"
  using assms[of "[]"] assms[of "''zzzz not hex''"] assms[of "''deadbeef''"]
  by (auto simp: inspect_garbage_never_panics_def is_ok_iff inspect_link_def result_simps)

end
