(* ===== verification/Spec2Isabelle.thy ===== *)
theory Spec2Isabelle
  imports End_To_End Granted Lease_Steps Gate_Steps Delivery_Spec Walkthrough Random_Tests
begin

text \<open>
  A model of \<^bold>\<open>ce-pubsub\<close>, publish/subscribe with durable replay over the CE mesh (Rust, \<open>src/src\<close>).

  \<^bold>\<open>The program.\<close>  A topic belongs to the node that created it.  The owner appends each message to a
  replicated log under the next cursor and broadcasts it on a live stream; it keeps a second replicated
  log with the server-tracked subscriptions.  Two background workers serve requests that arrive over the
  mesh: \<open>serve_ingest\<close> appends for remote publishers, \<open>serve_control\<close> creates and deletes subscriptions,
  leases messages and takes acks and nacks.  Publishers and consumers on other nodes reach the owner
  through the client half of the library; a pull instead reads a replica of the log, and asks the owner
  only how far it should reach.  The command line is a thin layer over the client.

  \<^bold>\<open>Theories and sources.\<close>
    \<^item> \<open>Prelude\<close>: machine integers as words, the maps of the standard library as finite maps, results as
      sums, one datatype for the errors the code builds.
    \<^item> \<open>Message\<close>, \<open>Attr_Filter\<close> (\<open>message.rs\<close>): messages, validation, mesh names; the attribute filter
      with its hand-written parser.  \<open>Display\<close>: \<open>Message::text\<close>, with UTF-8 decoding by replacement.
    \<^item> \<open>State_Machine\<close>: the interface \<open>ce-coord\<close> replays, as two locales.  \<open>Topic_Log\<close> (\<open>log.rs\<close>) and
      \<open>Subscription\<close> (\<open>subscription.rs\<close>) are its two machines.  \<open>Message_Store\<close> is the locale for
      what leasing needs of the log, interpreted in \<open>Topic_Log\<close>.
    \<^item> \<open>Ack_Floor\<close>, \<open>Lease_Plan\<close>, \<open>Registry\<close>, \<open>Delivery\<close> (\<open>subscription.rs\<close>): one subscription; both loops
      of \<open>plan_lease\<close>; the registry under scripts of admissible operations; the delivery contract.
      \<open>Delivery_Spec\<close>: a ledger without floor or lease records, which the registry refines.
      \<open>Drain\<close>: a consumer that leases and acks makes progress to the end of the log.
    \<^item> \<open>Dedup\<close> (\<open>dedup.rs\<close>), \<open>Protocol\<close> (\<open>protocol.rs\<close>), \<open>Caps\<close> (\<open>caps.rs\<close>): the two bounded caches,
      the wire requests with their size checks, capability links.
    \<^item> \<open>Owner\<close>, \<open>Service\<close>, \<open>Owner_Props\<close> (\<open>Topic\<close> in \<open>lib.rs\<close>): state and handlers of a topic owner;
      the effect of each handler, the step relation of all handlers and its invariant; the contract.
      \<open>Workers\<close>: turns of the polling loops, reference counting and the shutdown flag, and a publish in
      the two steps between which others can interleave.  \<open>Lease_Steps\<close>: a lease split likewise.
      \<open>Gate_Steps\<close>: both request handlers split where they wait, with the gate switched in between.
    \<^item> \<open>Reader\<close>, \<open>Client\<close> (\<open>PubSub\<close>, \<open>Subscription\<close>, \<open>Replay\<close> in \<open>lib.rs\<close>): convergence of a replica and
      the page of a pull; the requests of publishers and consumers, and the live subscription.
      \<open>Remote\<close>: client and owner together over a mesh that loses requests and replies.
    \<^item> \<open>Traffic\<close>, \<open>Redelivery\<close>, \<open>Traffic_Safety\<close>: events at a topic in any order (publishes, control
      requests of several consumers, pruning, local calls), with requests delivered more than once, and
      what holds of every such run.
    \<^item> \<open>Cli\<close>, \<open>Cli_Props\<close> (\<open>main.rs\<close>): the commands, what they print and how they end.  \<open>Consumer\<close>: the
      lease command run again and again.  \<open>End_To_End\<close>: one message from the publisher to the consumer's
      terminal.  \<open>Single_Link\<close>, \<open>Granted\<close>: a grant from the command that mints it to the owner that
      checks it.
    \<^item> \<open>Walkthrough\<close> (\<open>examples/end_to_end.rs\<close>): the example as a program over the model.
    \<^item> \<open>Registry_Tests\<close>, \<open>Library_Tests\<close>, \<open>Wire_Tests\<close>, \<open>Link_Tests\<close>: the unit tests inside the sources of the
      library (those of the wire and of links over any codec and any capability library that meet a
      stated contract).  \<open>Property_Tests\<close>, \<open>Random_Tests\<close> (\<open>tests/prop_subscription.rs\<close>,
      \<open>tests/prop_pubsub.rs\<close>): the randomized tests, as programs that pass on every input.  \<open>Edge_Tests\<close>:
      \<open>tests/edge_cases.rs\<close>.

  A struct is a record, an enum a datatype, an operation a function from the state to the new state and
  its result.  \<open>u64\<close>, \<open>u32\<close> and \<open>usize\<close> are words of their width; where the code adds without a check,
  the word wraps, as in a release build, and the lemmas state the room they need.  A \<open>String\<close> is the list
  of its UTF-8 bytes, as characters.

  \<^bold>\<open>Parameters.\<close>  Code outside the repository is an argument of the definitions that use it:
    \<^item> \<open>hex_codec\<close>, \<open>json_codec\<close> and \<open>iam\<close> are the \<open>hex\<close> and \<open>serde_json\<close> crates and \<open>ce-iam-core\<close>;
      \<open>hex_contract\<close>, \<open>json_contract\<close> and \<open>iam_contract\<close> state what is relied on (round trips), and
      \<open>single_link_contract\<close> when a chain of one self-issued capability is accepted.
    \<^item> \<open>world\<close> answers each call a handler makes to \<open>ce-coord\<close> and the node; \<open>world_ok\<close> says that a
      proposal reported as applied was applied, and one reported as failed was applied or not.  A
      different \<open>world\<close> may answer each request.
    \<^item> \<open>client\<close> holds the mesh request, the replicas and the streams of a node.  \<open>replica_view\<close> is what a
      replica shows at each look; \<open>follows\<close> says that it replays admissible operations in order.
    \<^item> \<open>request_link\<close> is the interface of the mesh: a reply came from the owner's service of this request,
      and a request without a reply was served at most once.  It is interpreted on a network that runs
      both workers of the owner and loses messages by an arbitrary script.
    \<^item> \<open>setting\<close> is what a command reads: the connection, files, identities and the clock.
  Each contract is shown to hold for the concrete instances that the witnesses use.

  \<^bold>\<open>Loops.\<close>  No fuel is used.  Loops that end by their data are structural.  The scan and the floor bridge
  of \<open>plan_lease\<close>, the two waits of a pull, \<open>recv\<close> and the live tail are partial functions into an option,
  where \<open>None\<close> is not returning: leasing is shown to return whenever the highest cursor is not the largest
  word, a pull to return when its deadline passes; \<open>recv\<close> may wait for ever, as the code does.

  \<^bold>\<open>What is shown.\<close>
    \<^item> Delivery: no message is lost or handed out again after its ack, also with acks in any order,
      expiring leases, nacks, pruning and dead-lettering; a lease computes a declarative selection; the
      floor is the end of the handled run; the registry refines the ledger; a consumer that keeps acking
      drains its backlog.
    \<^item> The log refines the history of the topic; replay and paging are exact; a pull that claims to be
      complete is complete, down to the lines the command prints.
    \<^item> The owner keeps its invariant under every interleaving of requests and calls; it stores what was
      published, authorizes on a gated topic, answers every control request, and routes dead letters.
    \<^item> End to end over a lossy mesh: a publish retried under one key is stored exactly once, a control
      call that returned was applied, \<open>lease --auto-ack\<close> leaves nothing it printed unhandled, and run
      often enough it leaves nothing unhandled at all.  A message published under a key over a lossy mesh
      is printed by such a consumer exactly once, as it was published.
    \<^item> Traffic: under any events no message is lost silently and no two open leases share a message; a
      request delivered again, with any traffic in between, changes nothing.
    \<^item> The gate: a printed grant admits exactly its audience, ability and topics until it expires or is
      revoked; a request is judged by the gate as it stood when it was taken up and by the roots accepted
      when it is checked, whatever happens while it waits; a remote publish is stored as authenticated
      only if a grant was checked for it.
    \<^item> The tests: the model passes the unit tests of every module of the library, the randomized tests on
      every input, the edge cases except those with links over two hops, and the example.
    \<^item> Where the code falls short: the effective payload limit on the wire, acks of cursors not yet
      published, replies from the cache before authorization, publishes that interleave, a topic that is
      open until the gate is closed, workers that are never told to stop.

  \<^bold>\<open>Not modelled.\<close>  \<open>checkpoint\<close> and the snapshot macro (they only call \<open>ce-coord\<close>), logging, argument
  parsing by \<open>clap\<close>, the wording of printed lines and of errors, and sleeping.  Of the tests: the three
  edge cases that delegate a link over two hops, since how \<open>ce-iam-core\<close> compares scopes along a chain is
  not in the repository, and \<open>tests/live.rs\<close> with its harness, which starts real nodes.  The two workers
  and user tasks interleave between handlers, and inside a handler where it waits for others: the publish
  (\<open>Workers\<close>), the lease (\<open>Lease_Steps\<close>), the ingest and control handlers (\<open>Gate_Steps\<close>).  An append and its
  broadcast are one step, as are a proposal to the registry and its reply, for the control worker alone
  writes there.  A panic is modelled in the command line, where the code can reach one.

  \<^bold>\<open>Plan.\<close>  What is left needs code that is not here: chains of several links wait for the rules of
  \<open>ce-iam-core\<close>, snapshots for \<open>ce-coord\<close>.
\<close>

end
